(* ===== verification/Prelude.thy ===== *)
theory Prelude
  imports Main "HOL-Library.AList"
begin

text \<open>
  Shared vocabulary of the development: bytes and the newline that frames a log record,
  decimal text as \<^verbatim>\<open>strconv\<close> prints and reads it, and small facts on lists that several
  components use.  Two collections are declared here: \<open>frame_simps\<close> gathers, per component, the
  equations saying which fields an operation leaves alone; \<open>inv_intros\<close> gathers the
  preservation rules of the component invariants.
\<close>

named_theorems frame_simps "which fields an operation leaves unchanged"
named_theorems inv_intros "preservation rules of component invariants"

type_synonym bytes = "char list"

abbreviation nl :: char where "nl \<equiv> CHR 0x0A"
abbreviation cr :: char where "cr \<equiv> CHR 0x0D"

section \<open>Invariants of step functions\<close>

text \<open>
  Every component with state is driven by a function from a state and an operation to the next
  state.  A predicate that each operation keeps holds after every run; the locale is interpreted
  by the components on their own operations.
\<close>

fun run_ops :: "('s \<Rightarrow> 'op \<Rightarrow> 's) \<Rightarrow> 's \<Rightarrow> 'op list \<Rightarrow> 's" where
  "run_ops f s [] = s"
| "run_ops f s (x # xs) = run_ops f (f s x) xs"

locale invariant_machine =
  fixes step :: "'s \<Rightarrow> 'op \<Rightarrow> 's"
    and inv :: "'s \<Rightarrow> bool"
  assumes step_inv: "inv s \<Longrightarrow> inv (step s x)"
begin

lemma run_inv: "inv s \<Longrightarrow> inv (run_ops step s xs)"
  by (induction xs arbitrary: s) (auto intro: step_inv)

end

lemma run_ops_append: "run_ops f s (xs @ ys) = run_ops f (run_ops f s xs) ys"
  by (induction xs arbitrary: s) auto

section \<open>Lists\<close>

definition set_last :: "('a \<Rightarrow> 'a) \<Rightarrow> 'a list \<Rightarrow> 'a list" where
  "set_last f xs = (if xs = [] then [] else butlast xs @ [f (last xs)])"

lemma set_last_simps [simp]:
  "set_last f [] = []"
  "set_last f (xs @ [x]) = xs @ [f x]"
  by (simp_all add: set_last_def)

lemma set_last_eq_Nil [simp]: "set_last f xs = [] \<longleftrightarrow> xs = []"
  by (simp add: set_last_def)

lemma length_set_last [simp]: "length (set_last f xs) = length xs"
  by (cases xs rule: rev_cases) simp_all

lemma last_set_last [simp]: "xs \<noteq> [] \<Longrightarrow> last (set_last f xs) = f (last xs)"
  by (simp add: set_last_def)

lemma butlast_set_last [simp]: "butlast (set_last f xs) = butlast xs"
  by (cases xs rule: rev_cases) simp_all

lemma map_set_last: "(\<And>x. g (f x) = g x) \<Longrightarrow> map g (set_last f xs) = map g xs"
  by (cases xs rule: rev_cases) simp_all

text \<open>Directories are association lists with one entry per name.\<close>

lemma map_of_update_same [simp]: "map_of (AList.update k v al) k = Some v"
  by (simp add: AList.update_conv')

lemma map_of_update_other [simp]: "k \<noteq> k' \<Longrightarrow> map_of (AList.update k v al) k' = map_of al k'"
  by (simp add: AList.update_conv')

lemma map_of_delete_same [simp]: "map_of (AList.delete k al) k = None"
  by (simp add: AList.delete_conv')

lemma map_of_delete_other [simp]: "k \<noteq> k' \<Longrightarrow> map_of (AList.delete k al) k' = map_of al k'"
  by (simp add: AList.delete_conv')

section \<open>Decimal text\<close>

definition digit_char :: "nat \<Rightarrow> char" where
  "digit_char d = char_of (48 + d)"

definition is_digit :: "char \<Rightarrow> bool" where
  "is_digit c \<longleftrightarrow> 48 \<le> (of_char c :: nat) \<and> (of_char c :: nat) \<le> 57"

definition digit_val :: "char \<Rightarrow> nat" where
  "digit_val c = of_char c - 48"

fun dec_nat :: "nat \<Rightarrow> string" where
  "dec_nat n = (if n < 10 then [digit_char n] else dec_nat (n div 10) @ [digit_char (n mod 10)])"

declare dec_nat.simps [simp del]

definition parse_dec :: "string \<Rightarrow> nat option" where
  "parse_dec s = (if s \<noteq> [] \<and> list_all is_digit s
                  then Some (foldl (\<lambda>a c. 10 * a + digit_val c) 0 s) else None)"

lemma digit_char_facts:
  assumes "d < 10"
  shows "is_digit (digit_char d)" and "digit_val (digit_char d) = d"
proof -
  have "of_char (digit_char d) = (48 + d :: nat)"
    using assms by (simp add: digit_char_def)
  then show "is_digit (digit_char d)" "digit_val (digit_char d) = d"
    using assms by (simp_all add: is_digit_def digit_val_def)
qed

lemma dec_nat_digits: "list_all is_digit (dec_nat n) \<and> dec_nat n \<noteq> []"
proof (induction n rule: dec_nat.induct)
  case (1 n)
  then show ?case
    by (subst dec_nat.simps, subst (2) dec_nat.simps) (auto simp: digit_char_facts)
qed

lemma dec_nat_value: "foldl (\<lambda>a c. 10 * a + digit_val c) 0 (dec_nat n) = n"
proof (induction n rule: dec_nat.induct)
  case (1 n)
  then show ?case
    by (subst dec_nat.simps) (auto simp: digit_char_facts)
qed

lemma parse_dec_dec_nat [simp]: "parse_dec (dec_nat n) = Some n"
  by (simp add: parse_dec_def dec_nat_digits dec_nat_value)

lemma dec_nat_inj: "dec_nat m = dec_nat n \<Longrightarrow> m = n"
  by (metis option.inject parse_dec_dec_nat)

lemma parse_dec_zeros: "parse_dec (replicate k (digit_char 0) @ dec_nat n) = Some n"
proof -
  have "foldl (\<lambda>a c. 10 * a + digit_val c) 0 (replicate k (digit_char 0)) = 0"
    by (induction k) (simp_all add: digit_char_facts)
  then show ?thesis
    using dec_nat_digits [of n] dec_nat_value [of n]
    by (auto simp: parse_dec_def digit_char_facts list_all_iff)
qed

text \<open>\<^verbatim>\<open>strconv.ParseInt(s, 10, 64)\<close>: an optional sign, decimal digits, the signed 64-bit range.\<close>

definition parse_int64 :: "string \<Rightarrow> int option" where
  "parse_int64 s =
     (case s of
        [] \<Rightarrow> None
      | c # ds \<Rightarrow>
          let neg = (c = CHR ''-'');
              body = (if c = CHR ''-'' \<or> c = CHR ''+'' then ds else s)
          in (case parse_dec body of
                None \<Rightarrow> None
              | Some n \<Rightarrow> if neg then (if n \<le> 2 ^ 63 then Some (- int n) else None)
                          else (if n < 2 ^ 63 then Some (int n) else None)))"

lemma sign_not_digit: "\<not> is_digit (CHR ''-'')" "\<not> is_digit (CHR ''+'')"
  by (simp_all add: is_digit_def)

lemma parse_int64_digits:
  assumes "s \<noteq> []" "list_all is_digit s"
  shows "parse_int64 s = (case parse_dec s of None \<Rightarrow> None
           | Some n \<Rightarrow> if n < 2 ^ 63 then Some (int n) else None)"
  using assms sign_not_digit by (cases s) (auto simp: parse_int64_def Let_def split: option.splits)

lemma parse_int64_dec_nat [simp]: "n < 2 ^ 63 \<Longrightarrow> parse_int64 (dec_nat n) = Some (int n)"
  by (simp add: parse_int64_digits dec_nat_digits)

section \<open>Affixes and white space\<close>

definition has_prefix :: "string \<Rightarrow> string \<Rightarrow> bool" where
  "has_prefix s p \<longleftrightarrow> take (length p) s = p"

definition has_suffix :: "string \<Rightarrow> string \<Rightarrow> bool" where
  "has_suffix s p \<longleftrightarrow> length p \<le> length s \<and> drop (length s - length p) s = p"

definition trim_prefix :: "string \<Rightarrow> string \<Rightarrow> string" where
  "trim_prefix s p = (if has_prefix s p then drop (length p) s else s)"

definition trim_suffix :: "string \<Rightarrow> string \<Rightarrow> string" where
  "trim_suffix s p = (if has_suffix s p then take (length s - length p) s else s)"

lemma has_prefix_append [simp]: "has_prefix (p @ s) p"
  by (simp add: has_prefix_def)

lemma trim_affixes:
  "trim_prefix (p @ s) p = s" "trim_suffix (s @ t) t = s" "has_suffix (s @ t) t"
  by (simp_all add: trim_prefix_def trim_suffix_def has_suffix_def)

text \<open>\<^verbatim>\<open>strings.TrimSpace\<close> on ASCII text.\<close>

definition is_space :: "char \<Rightarrow> bool" where
  "is_space c \<longleftrightarrow> c \<in> {char_of (9 :: nat), char_of (10 :: nat), char_of (11 :: nat), char_of (12 :: nat),
     char_of (13 :: nat), char_of (32 :: nat)}"

definition TrimSpace :: "string \<Rightarrow> string" where
  "TrimSpace s = rev (dropWhile is_space (rev (dropWhile is_space s)))"

lemma TrimSpace_id: "s \<noteq> [] \<Longrightarrow> \<not> is_space (hd s) \<Longrightarrow> \<not> is_space (last s) \<Longrightarrow> TrimSpace s = s"
proof -
  assume s: "s \<noteq> []" "\<not> is_space (hd s)" "\<not> is_space (last s)"
  then have "dropWhile is_space s = s" "dropWhile is_space (rev s) = rev s"
    by (simp_all add: dropWhile_eq_self_iff hd_rev)
  then show ?thesis by (simp add: TrimSpace_def)
qed

lemma digit_not_space: "is_digit c \<Longrightarrow> \<not> is_space c"
  by (auto simp: is_digit_def is_space_def)

lemma is_space_iff: "is_space c \<longleftrightarrow> (of_char c :: nat) \<in> {9, 10, 11, 12, 13, 32}"
proof -
  have "c = char_of n \<longleftrightarrow> (of_char c :: nat) = n" if "n < 256" for n :: nat
    using that by (metis char_of_char of_char_mod_256 of_char_of mod_less)
  then show ?thesis by (simp add: is_space_def)
qed

lemma length_filter_update:
  "i < length xs \<Longrightarrow> length (filter P (xs[i := y])) + (if P (xs ! i) then 1 else 0)
     = length (filter P xs) + (if P y then 1 else 0)"
proof (induction xs arbitrary: i)
  case (Cons x xs)
  show ?case using Cons.IH [of "i - 1"] Cons.prems by (cases i) auto
qed simp

lemma running_member: "i < length xs \<Longrightarrow> P (xs ! i) \<Longrightarrow> length (filter P xs) \<noteq> 0"
  using nth_mem [of i xs] by (auto simp: filter_empty_conv)

section \<open>Rows of a table\<close>

text \<open>An insert is stored and answered, not stored and failed, or stored with the answer lost.\<close>

datatype insert_outcome = Inserted | NotInserted | AnswerLost

fun insert_row :: "insert_outcome \<Rightarrow> 'r \<Rightarrow> 'r list \<Rightarrow> bool \<times> 'r list" where
  "insert_row Inserted r rs = (True, rs @ [r])"
| "insert_row NotInserted r rs = (False, rs)"
| "insert_row AnswerLost r rs = (False, rs @ [r])"

lemma insert_row_cases: "insert_row out r rs = (ok, rs') \<Longrightarrow> rs' = rs @ [r] \<or> rs' = rs \<and> \<not> ok"
  by (cases out) auto

text \<open>\<^verbatim>\<open>ORDER BY key DESC LIMIT 1\<close>: the first of the rows with the highest key.\<close>

fun max_row :: "('r \<Rightarrow> 'k :: linorder) \<Rightarrow> 'r list \<Rightarrow> 'r option" where
  "max_row key [] = None"
| "max_row key (r # rs) = (case max_row key rs of None \<Rightarrow> Some r
     | Some m \<Rightarrow> if key r < key m then Some m else Some r)"

lemma max_row_facts:
  "max_row key rs = None \<longleftrightarrow> rs = []"
  "max_row key rs = Some m \<Longrightarrow> m \<in> set rs \<and> (\<forall>r \<in> set rs. key r \<le> key m)"
proof -
  show none: "max_row key rs = None \<longleftrightarrow> rs = []" for rs by (cases rs) (auto split: option.split)
  show "max_row key rs = Some m \<Longrightarrow> m \<in> set rs \<and> (\<forall>r \<in> set rs. key r \<le> key m)"
    by (induction rs arbitrary: m) (force simp: none split: option.splits if_splits)+
qed

end
