(* ===== verification/Json.thy ===== *)
theory Json
  imports Prelude
begin

text \<open>
  What the program uses of \<^verbatim>\<open>encoding/json\<close>: the grammar of a JSON text, and the rules by which
  \<^verbatim>\<open>Unmarshal\<close> fills struct fields of Go types from a value.  A number keeps its literal text, as
  the decoder does until it knows the target type.  Text is assumed to be valid UTF-8 (the decoder
  replaces other bytes); nesting beyond the decoder's limit of 10000 is not treated.  The
  recursive descent is bounded by fuel, and \<open>parse_json\<close> supplies more than any text can use.
\<close>

datatype json =
    JNull
  | JBool bool
  | JNum string
  | JStr string
  | JArr "json list"
  | JObj "(string \<times> json) list"

section \<open>Lexical level\<close>

definition byte :: "nat \<Rightarrow> char" where "byte n = char_of n"

definition is_ws :: "char \<Rightarrow> bool" where
  "is_ws c \<longleftrightarrow> c = byte 32 \<or> c = byte 9 \<or> c = byte 10 \<or> c = byte 13"

definition skip_ws :: "string \<Rightarrow> string" where
  "skip_ws s = dropWhile is_ws s"

definition hex_val :: "char \<Rightarrow> nat option" where
  "hex_val c = (let n = of_char c :: nat in
     if 48 \<le> n \<and> n \<le> 57 then Some (n - 48)
     else if 97 \<le> n \<and> n \<le> 102 then Some (n - 87)
     else if 65 \<le> n \<and> n \<le> 70 then Some (n - 55) else None)"

fun hex4 :: "string \<Rightarrow> (nat \<times> string) option" where
  "hex4 (a # b # c # d # r) =
     (case (hex_val a, hex_val b, hex_val c, hex_val d) of
        (Some x, Some y, Some z, Some w) \<Rightarrow> Some (((x * 16 + y) * 16 + z) * 16 + w, r)
      | _ \<Rightarrow> None)"
| "hex4 _ = None"

text \<open>UTF-8 of a code point.\<close>

definition utf8 :: "nat \<Rightarrow> string" where
  "utf8 n =
     (if n < 128 then [byte n]
      else if n < 2048 then [byte (192 + n div 64), byte (128 + n mod 64)]
      else if n < 65536 then [byte (224 + n div 4096), byte (128 + n div 64 mod 64), byte (128 + n mod 64)]
      else [byte (240 + n div 262144), byte (128 + n div 4096 mod 64), byte (128 + n div 64 mod 64),
            byte (128 + n mod 64)])"

definition is_high :: "nat \<Rightarrow> bool" where "is_high n \<longleftrightarrow> 55296 \<le> n \<and> n < 56320"
definition is_low :: "nat \<Rightarrow> bool" where "is_low n \<longleftrightarrow> 56320 \<le> n \<and> n < 57344"

text \<open>A \<^verbatim>\<open>\u\<close> escape: a surrogate pair is one code point, a lone surrogate becomes U+FFFD.\<close>

definition unicode_escape :: "string \<Rightarrow> (string \<times> string) option" where
  "unicode_escape s = (case hex4 s of
     None \<Rightarrow> None
   | Some (n, r) \<Rightarrow>
       if is_high n then
         (case r of
            c # d # r' \<Rightarrow>
              if c = byte 92 \<and> d = byte 117 then
                (case hex4 r' of
                   None \<Rightarrow> None
                 | Some (m, r'') \<Rightarrow>
                     if is_low m then Some (utf8 (65536 + (n - 55296) * 1024 + (m - 56320)), r'')
                     else Some (utf8 65533, r))
              else Some (utf8 65533, r)
          | _ \<Rightarrow> Some (utf8 65533, r))
       else if is_low n then Some (utf8 65533, r)
       else Some (utf8 n, r))"

definition simple_escape :: "char \<Rightarrow> char option" where
  "simple_escape c = (if c = byte 34 \<or> c = byte 92 \<or> c = byte 47 then Some c
     else if c = CHR ''b'' then Some (byte 8) else if c = CHR ''f'' then Some (byte 12)
     else if c = CHR ''n'' then Some (byte 10) else if c = CHR ''r'' then Some (byte 13)
     else if c = CHR ''t'' then Some (byte 9) else None)"

lemma hex4_length: "hex4 s = Some (n, r) \<Longrightarrow> length s = length r + 4"
  by (induction s rule: hex4.induct) (auto split: option.splits)

lemma unicode_escape_length: "unicode_escape s = Some (t, r) \<Longrightarrow> length r < length s"
  by (auto simp: unicode_escape_def split: option.splits if_splits list.splits prod.splits
      dest!: hex4_length)

text \<open>A string body, after the opening quote.\<close>

function parse_string :: "string \<Rightarrow> (string \<times> string) option" where
  "parse_string [] = None"
| "parse_string (c # cs) =
     (if c = byte 34 then Some ([], cs)
      else if c = byte 92 then
        (case cs of
           [] \<Rightarrow> None
         | e # r \<Rightarrow>
             if e = CHR ''u'' then
               (case unicode_escape r of
                  None \<Rightarrow> None
                | Some (t, r') \<Rightarrow> (case parse_string r' of None \<Rightarrow> None | Some (s, z) \<Rightarrow> Some (t @ s, z)))
             else (case simple_escape e of
                  None \<Rightarrow> None
                | Some x \<Rightarrow> (case parse_string r of None \<Rightarrow> None | Some (s, z) \<Rightarrow> Some (x # s, z))))
      else if of_char c < (32 :: nat) then None
      else (case parse_string cs of None \<Rightarrow> None | Some (s, z) \<Rightarrow> Some (c # s, z)))"
  by pat_completeness auto
termination
  by (relation "measure length") (auto dest: unicode_escape_length)

definition span_digits :: "string \<Rightarrow> string \<times> string" where
  "span_digits s = (takeWhile is_digit s, dropWhile is_digit s)"

text \<open>A number literal: an integer part without superfluous zeros, a fraction, an exponent.\<close>

definition parse_frac :: "string \<Rightarrow> (string \<times> string) option" where
  "parse_frac s = (case s of
     c # r \<Rightarrow> if c = CHR ''.'' then
                (case span_digits r of (ds, z) \<Rightarrow> if ds = [] then None else Some (c # ds, z))
              else Some ([], s)
   | [] \<Rightarrow> Some ([], []))"

definition parse_exp :: "string \<Rightarrow> (string \<times> string) option" where
  "parse_exp s = (case s of
     c # r \<Rightarrow> if c = CHR ''e'' \<or> c = CHR ''E'' then
                (case r of
                   d # r' \<Rightarrow>
                     if d = CHR ''+'' \<or> d = CHR ''-'' then
                       (case span_digits r' of (ds, z) \<Rightarrow> if ds = [] then None else Some (c # d # ds, z))
                     else (case span_digits r of (ds, z) \<Rightarrow> if ds = [] then None else Some (c # ds, z))
                 | [] \<Rightarrow> None)
              else Some ([], s)
   | [] \<Rightarrow> Some ([], []))"

definition parse_unsigned :: "string \<Rightarrow> (string \<times> string) option" where
  "parse_unsigned s =
     (case span_digits s of (ds, z) \<Rightarrow>
        let int_part = (if ds \<noteq> [] \<and> hd ds = CHR ''0'' then (''0'', drop 1 s) else (ds, z))
        in if ds = [] then None
           else (case parse_frac (snd int_part) of
                   None \<Rightarrow> None
                 | Some (fr, z1) \<Rightarrow> (case parse_exp z1 of
                     None \<Rightarrow> None
                   | Some (ex, z2) \<Rightarrow> Some (fst int_part @ fr @ ex, z2))))"

definition parse_number :: "string \<Rightarrow> (string \<times> string) option" where
  "parse_number s = (case s of
     c # r \<Rightarrow> if c = CHR ''-'' then
                (case parse_unsigned r of None \<Rightarrow> None | Some (l, z) \<Rightarrow> Some (c # l, z))
              else parse_unsigned s
   | [] \<Rightarrow> None)"

definition strip_lit :: "string \<Rightarrow> string \<Rightarrow> string option" where
  "strip_lit l s = (if take (length l) s = l then Some (drop (length l) s) else None)"

section \<open>Values\<close>

fun parse_value :: "nat \<Rightarrow> string \<Rightarrow> (json \<times> string) option"
  and parse_elems :: "nat \<Rightarrow> string \<Rightarrow> (json list \<times> string) option"
  and parse_members :: "nat \<Rightarrow> string \<Rightarrow> ((string \<times> json) list \<times> string) option" where
  "parse_value 0 s = None"
| "parse_value (Suc n) s = (case skip_ws s of
     [] \<Rightarrow> None
   | c # r \<Rightarrow>
       if c = CHR ''{'' then
         (case skip_ws r of
            [] \<Rightarrow> None
          | d # r' \<Rightarrow> if d = CHR ''}'' then Some (JObj [], r')
              else (case parse_members n (d # r') of None \<Rightarrow> None | Some (ms, z) \<Rightarrow> Some (JObj ms, z)))
       else if c = CHR ''['' then
         (case skip_ws r of
            [] \<Rightarrow> None
          | d # r' \<Rightarrow> if d = CHR '']'' then Some (JArr [], r')
              else (case parse_elems n (d # r') of None \<Rightarrow> None | Some (es, z) \<Rightarrow> Some (JArr es, z)))
       else if c = byte 34 then
         (case parse_string r of None \<Rightarrow> None | Some (t, z) \<Rightarrow> Some (JStr t, z))
       else if c = CHR ''n'' then map_option (\<lambda>z. (JNull, z)) (strip_lit ''null'' (c # r))
       else if c = CHR ''t'' then map_option (\<lambda>z. (JBool True, z)) (strip_lit ''true'' (c # r))
       else if c = CHR ''f'' then map_option (\<lambda>z. (JBool False, z)) (strip_lit ''false'' (c # r))
       else map_option (\<lambda>(l, z). (JNum l, z)) (parse_number (c # r)))"
| "parse_elems 0 s = None"
| "parse_elems (Suc n) s = (case parse_value n s of
     None \<Rightarrow> None
   | Some (v, r) \<Rightarrow> (case skip_ws r of
       [] \<Rightarrow> None
     | c # r' \<Rightarrow>
         if c = CHR '','' then
           (case parse_elems n r' of None \<Rightarrow> None | Some (vs, z) \<Rightarrow> Some (v # vs, z))
         else if c = CHR '']'' then Some ([v], r') else None))"
| "parse_members 0 s = None"
| "parse_members (Suc n) s = (case skip_ws s of
     [] \<Rightarrow> None
   | q # r \<Rightarrow>
       if q \<noteq> byte 34 then None
       else (case parse_string r of
         None \<Rightarrow> None
       | Some (k, r1) \<Rightarrow> (case skip_ws r1 of
           [] \<Rightarrow> None
         | c # r2 \<Rightarrow>
             if c \<noteq> CHR '':'' then None
             else (case parse_value n r2 of
               None \<Rightarrow> None
             | Some (v, r3) \<Rightarrow> (case skip_ws r3 of
                 [] \<Rightarrow> None
               | d # r4 \<Rightarrow>
                   if d = CHR '','' then
                     (case parse_members n r4 of None \<Rightarrow> None | Some (ms, z) \<Rightarrow> Some ((k, v) # ms, z))
                   else if d = CHR ''}'' then Some ([(k, v)], r4) else None)))))"

definition parse_json :: "string \<Rightarrow> json option" where
  "parse_json s = (case parse_value (2 * length s + 2) s of
     None \<Rightarrow> None
   | Some (v, r) \<Rightarrow> if skip_ws r = [] then Some v else None)"

section \<open>Filling struct fields\<close>

text \<open>
  Object keys match a field name exactly or up to ASCII case; a later duplicate overwrites an
  earlier one; \<^verbatim>\<open>null\<close> leaves a field as it was.  \<open>field_last\<close> folds the matching members over the
  field with the decoder of its type, which may reject.
\<close>

definition lower :: "char \<Rightarrow> char" where
  "lower c = (let n = of_char c :: nat in if 65 \<le> n \<and> n \<le> 90 then char_of (n + 32) else c)"

definition key_match :: "string \<Rightarrow> string \<Rightarrow> bool" where
  "key_match f k \<longleftrightarrow> map lower f = map lower k"

fun fill :: "('a \<Rightarrow> json \<Rightarrow> 'a option) \<Rightarrow> string \<Rightarrow> 'a \<Rightarrow> (string \<times> json) list \<Rightarrow> 'a option" where
  "fill dec f x [] = Some x"
| "fill dec f x ((k, v) # ms) =
     (if key_match f k then (case dec x v of None \<Rightarrow> None | Some y \<Rightarrow> fill dec f y ms)
      else fill dec f x ms)"

text \<open>Decoders of the Go types the program uses: the old value first, then the JSON value.\<close>

fun dec_string :: "string \<Rightarrow> json \<Rightarrow> string option" where
  "dec_string x JNull = Some x"
| "dec_string x (JStr s) = Some s"
| "dec_string x _ = None"

fun dec_int64 :: "int \<Rightarrow> json \<Rightarrow> int option" where
  "dec_int64 x JNull = Some x"
| "dec_int64 x (JNum l) = parse_int64 l"
| "dec_int64 x _ = None"

fun dec_bool :: "bool \<Rightarrow> json \<Rightarrow> bool option" where
  "dec_bool x JNull = Some x"
| "dec_bool x (JBool b) = Some b"
| "dec_bool x _ = None"

fun dec_list :: "('a \<Rightarrow> json \<Rightarrow> 'a option) \<Rightarrow> 'a \<Rightarrow> json list \<Rightarrow> 'a list option" where
  "dec_list dec z [] = Some []"
| "dec_list dec z (v # vs) = (case dec z v of
     None \<Rightarrow> None
   | Some x \<Rightarrow> (case dec_list dec z vs of None \<Rightarrow> None | Some xs \<Rightarrow> Some (x # xs)))"

text \<open>A slice: \<^verbatim>\<open>null\<close> is the nil slice.\<close>

fun dec_slice :: "('a \<Rightarrow> json \<Rightarrow> 'a option) \<Rightarrow> 'a \<Rightarrow> 'a list option \<Rightarrow> json \<Rightarrow> 'a list option option" where
  "dec_slice dec z x JNull = Some None"
| "dec_slice dec z x (JArr vs) = map_option Some (dec_list dec z vs)"
| "dec_slice dec z x _ = None"

section \<open>Writing\<close>

text \<open>
  \<^verbatim>\<open>Marshal\<close> with HTML escaping: quotes, backslashes, control characters, the characters \<open><\<close>, \<open>>\<close>
  and \<open>&\<close>, and the two line separators U+2028 and U+2029 (three bytes of UTF-8) are escaped.
\<close>

definition hex_digit :: "nat \<Rightarrow> char" where
  "hex_digit n = (if n < 10 then byte (48 + n) else byte (87 + n))"

definition u_escape :: "nat \<Rightarrow> string" where
  "u_escape n = [byte 92, CHR ''u'', hex_digit (n div 4096), hex_digit (n div 256 mod 16),
     hex_digit (n div 16 mod 16), hex_digit (n mod 16)]"

definition escape_char :: "char \<Rightarrow> string" where
  "escape_char c =
     (if c = byte 34 \<or> c = byte 92 then [byte 92, c]
      else if c = byte 8 then [byte 92, CHR ''b''] else if c = byte 12 then [byte 92, CHR ''f'']
      else if c = byte 10 then [byte 92, CHR ''n''] else if c = byte 13 then [byte 92, CHR ''r'']
      else if c = byte 9 then [byte 92, CHR ''t'']
      else if of_char c < (32 :: nat) \<or> c = CHR ''<'' \<or> c = CHR ''>'' \<or> c = CHR ''&''
        then u_escape (of_char c)
      else [c])"

fun escape_string :: "string \<Rightarrow> string" where
  "escape_string (a # b # c # r) =
     (if a = byte 226 \<and> b = byte 128 \<and> c = byte 168 then u_escape 8232 @ escape_string r
      else if a = byte 226 \<and> b = byte 128 \<and> c = byte 169 then u_escape 8233 @ escape_string r
      else escape_char a @ escape_string (b # c # r))"
| "escape_string [a, b] = escape_char a @ escape_char b"
| "escape_string [a] = escape_char a"
| "escape_string [] = []"

definition print_string :: "string \<Rightarrow> string" where
  "print_string s = byte 34 # escape_string s @ [byte 34]"

fun print_json :: "json \<Rightarrow> string"
  and print_elems :: "json list \<Rightarrow> string"
  and print_members :: "(string \<times> json) list \<Rightarrow> string" where
  "print_json JNull = ''null''"
| "print_json (JBool b) = (if b then ''true'' else ''false'')"
| "print_json (JNum l) = l"
| "print_json (JStr s) = print_string s"
| "print_json (JArr vs) = ''['' @ print_elems vs @ '']''"
| "print_json (JObj ms) = ''{'' @ print_members ms @ ''}''"
| "print_elems [] = []"
| "print_elems (v # vs) = print_json v @ (if vs = [] then [] else '','' @ print_elems vs)"
| "print_members [] = []"
| "print_members ((k, v) # ms) =
     print_string k @ '':'' @ print_json v @ (if ms = [] then [] else '','' @ print_members ms)"

text \<open>Values whose numbers are number literals.\<close>

definition number_ok :: "string \<Rightarrow> bool" where
  "number_ok l \<longleftrightarrow> parse_number l = Some (l, [])"

fun json_ok :: "json \<Rightarrow> bool"
  and elems_ok :: "json list \<Rightarrow> bool"
  and members_ok :: "(string \<times> json) list \<Rightarrow> bool" where
  "json_ok (JNum l) = number_ok l"
| "json_ok (JArr vs) = elems_ok vs"
| "json_ok (JObj ms) = members_ok ms"
| "json_ok _ = True"
| "elems_ok [] = True"
| "elems_ok (v # vs) = (json_ok v \<and> elems_ok vs)"
| "members_ok [] = True"
| "members_ok ((k, v) # ms) = (json_ok v \<and> members_ok ms)"

section \<open>What is written is read back\<close>

lemma of_char_byte [simp]: "n < 256 \<Longrightarrow> of_char (byte n) = n"
  by (simp add: byte_def)

lemma byte_eq [simp]: "m < 256 \<Longrightarrow> n < 256 \<Longrightarrow> byte m = byte n \<longleftrightarrow> m = n"
  by (metis of_char_byte)

lemma byte_of_char [simp]: "byte (of_char c) = c"
  by (simp add: byte_def)

lemma of_char_lt [simp]: "of_char c < (256 :: nat)"
  by (rule nat_of_char_less_256)

lemma CHR_byte:
  "CHR ''u'' = byte 117" "CHR ''b'' = byte 98" "CHR ''f'' = byte 102" "CHR ''n'' = byte 110"
  "CHR ''r'' = byte 114" "CHR ''t'' = byte 116" "CHR ''<'' = byte 60" "CHR ''>'' = byte 62"
  "CHR ''&'' = byte 38" "CHR ''{'' = byte 123" "CHR ''}'' = byte 125" "CHR ''['' = byte 91"
  "CHR '']'' = byte 93" "CHR '','' = byte 44" "CHR '':'' = byte 58" "CHR ''.'' = byte 46"
  "CHR ''e'' = byte 101" "CHR ''E'' = byte 69" "CHR ''+'' = byte 43" "CHR ''-'' = byte 45"
  "CHR ''0'' = byte 48"
  by code_simp+

lemma hex_val_digit: "n < 16 \<Longrightarrow> hex_val (hex_digit n) = Some n"
  by (auto simp: hex_val_def hex_digit_def Let_def)

lemma hex4_u: "n < 65536 \<Longrightarrow> hex4 (drop 2 (u_escape n) @ r) = Some (n, r)"
proof -
  have "n div 4096 = n div 256 div 16" "n div 256 = n div 16 div 16"
    by (simp_all add: div_mult2_eq [symmetric])
  then have "n div 4096 * 16 + n div 256 mod 16 = n div 256"
    "n div 256 * 16 + n div 16 mod 16 = n div 16" "n div 16 * 16 + n mod 16 = n"
    by (metis div_mult_mod_eq)+
  moreover assume "n < 65536"
  ultimately show ?thesis by (simp add: u_escape_def hex_val_digit)
qed

lemma unicode_u: "n < 65536 \<Longrightarrow> \<not> is_high n \<Longrightarrow> \<not> is_low n
    \<Longrightarrow> unicode_escape (drop 2 (u_escape n) @ r) = Some (utf8 n, r)"
  by (simp add: unicode_escape_def hex4_u)

lemma parse_string_u: "n < 65536 \<Longrightarrow> \<not> is_high n \<Longrightarrow> \<not> is_low n \<Longrightarrow> parse_string r = Some (s, z)
    \<Longrightarrow> parse_string (u_escape n @ r) = Some (utf8 n @ s, z)"
  using unicode_u [of n r] by (simp add: u_escape_def CHR_byte)

lemma parse_string_separators:
  assumes "parse_string r = Some (s, z)"
  shows "parse_string (u_escape 8232 @ r) = Some ([byte 226, byte 128, byte 168] @ s, z)"
    "parse_string (u_escape 8233 @ r) = Some ([byte 226, byte 128, byte 169] @ s, z)"
  using parse_string_u [of 8232 r s z] parse_string_u [of 8233 r s z] assms
  by (simp_all add: is_high_def is_low_def utf8_def)

lemma parse_escape_char:
  assumes "parse_string r = Some (s, z)"
  shows "parse_string (escape_char c @ r) = Some (c # s, z)"
proof (cases "of_char c < (32 :: nat) \<or> c = CHR ''<'' \<or> c = CHR ''>'' \<or> c = CHR ''&''")
  case True
  then have lt: "of_char c < (128 :: nat)" by auto
  have "parse_string (u_escape (of_char c) @ r) = Some (c # s, z)"
    using parse_string_u [of "of_char c" r s z] assms lt
    by (simp add: is_high_def is_low_def utf8_def)
  then show ?thesis
    using assms by (auto simp: escape_char_def simple_escape_def CHR_byte)
next
  case False
  then show ?thesis
    using assms by (auto simp: escape_char_def simple_escape_def CHR_byte)
qed

lemma parse_escape_string: "parse_string (escape_string s @ byte 34 # r) = Some (s, r)"
proof (induction s rule: escape_string.induct)
  case (1 a b c s)
  then show ?case
    by (auto intro!: parse_escape_char simp: parse_string_separators)
qed (auto intro!: parse_escape_char)

lemma parse_print_string: "parse_string (escape_string s @ byte 34 # r) = Some (s, r)
    \<and> skip_ws (print_string s @ r) = byte 34 # escape_string s @ byte 34 # r"
  using parse_escape_string by (simp add: print_string_def skip_ws_def is_ws_def)

text \<open>What follows a value inside a text: nothing, a comma or a closing bracket.\<close>

definition delim :: "string \<Rightarrow> bool" where
  "delim r \<longleftrightarrow> (case r of [] \<Rightarrow> True | c # _ \<Rightarrow> c = CHR '','' \<or> c = CHR '']'' \<or> c = CHR ''}'')"

lemma delim_digit: "delim r \<Longrightarrow> takeWhile is_digit r = []"
  by (cases r) (auto simp: delim_def is_digit_def)

lemma span_digits_append:
  assumes "span_digits s = (ds, z)" "delim r"
  shows "span_digits (s @ r) = (ds, z @ r)"
proof -
  have r: "r = [] \<or> \<not> is_digit (hd r)" using delim_digit [OF assms(2)] by (cases r) (auto split: if_splits)
  have "takeWhile is_digit (s @ r) = takeWhile is_digit s \<and> dropWhile is_digit (s @ r) = dropWhile is_digit s @ r"
  proof (induction s)
    case Nil
    then show ?case using r by (cases r) auto
  qed auto
  then show ?thesis using assms(1) by (simp add: span_digits_def)
qed

lemma parse_frac_append:
  "parse_frac s = Some (f, z) \<Longrightarrow> delim r \<Longrightarrow> parse_frac (s @ r) = Some (f, z @ r)"
  by (cases s; cases r)
    (auto simp: parse_frac_def delim_def CHR_byte split: prod.splits if_splits
      dest: span_digits_append [of _ _ _ r])

lemma parse_exp_append:
  "parse_exp s = Some (f, z) \<Longrightarrow> delim r \<Longrightarrow> parse_exp (s @ r) = Some (f, z @ r)"
  by (cases s; cases r; cases "tl s")
    (auto simp: parse_exp_def delim_def CHR_byte split: prod.splits if_splits list.splits
      dest: span_digits_append [of _ _ _ r])

lemma parse_unsigned_append:
  assumes "parse_unsigned s = Some (l, z)" "delim r"
  shows "parse_unsigned (s @ r) = Some (l, z @ r)"
proof -
  obtain ds z0 where d: "span_digits s = (ds, z0)" by fastforce
  have dr: "span_digits (s @ r) = (ds, z0 @ r)" by (rule span_digits_append [OF d assms(2)])
  have ne: "ds \<noteq> []" using assms(1) d by (auto simp: parse_unsigned_def Let_def)
  then have s: "s \<noteq> []" using d by (auto simp: span_digits_def)
  then have dp: "drop 1 (s @ r) = drop 1 s @ r" by (cases s) auto
  define ip where "ip = (if hd ds = CHR ''0'' then (''0'', drop 1 s) else (ds, z0))"
  have e: "parse_unsigned s = (case parse_frac (snd ip) of None \<Rightarrow> None
      | Some (fr, z1) \<Rightarrow> (case parse_exp z1 of None \<Rightarrow> None
        | Some (ex, z2) \<Rightarrow> Some (fst ip @ fr @ ex, z2)))"
    using ne
    by (cases "hd ds = CHR ''0''") (simp_all add: parse_unsigned_def d ip_def Let_def cong: option.case_cong)
  have er: "parse_unsigned (s @ r) = (case parse_frac (snd ip @ r) of None \<Rightarrow> None
      | Some (fr, z1) \<Rightarrow> (case parse_exp z1 of None \<Rightarrow> None
        | Some (ex, z2) \<Rightarrow> Some (fst ip @ fr @ ex, z2)))"
    using ne dp
    by (cases "hd ds = CHR ''0''") (simp_all add: parse_unsigned_def dr ip_def Let_def cong: option.case_cong)
  show ?thesis
    using assms e parse_frac_append [OF _ assms(2)] parse_exp_append [OF _ assms(2)]
    by (auto simp: er split: option.splits prod.splits)
qed

lemma parse_number_append:
  "parse_number s = Some (l, z) \<Longrightarrow> delim r \<Longrightarrow> parse_number (s @ r) = Some (l, z @ r)"
  by (cases s) (auto simp: parse_number_def split: if_splits option.splits
      dest: parse_unsigned_append)

lemma number_head:
  assumes "number_ok l"
  shows "\<exists>c cs. l = c # cs \<and> (is_digit c \<or> c = byte 45)"
proof (cases l)
  case Nil
  then show ?thesis using assms by (simp add: number_ok_def parse_number_def)
next
  case (Cons c cs)
  then have "c = byte 45 \<or> parse_unsigned l \<noteq> None"
    using assms by (auto simp: number_ok_def parse_number_def CHR_byte split: if_splits)
  moreover have "is_digit c" if "parse_unsigned l \<noteq> None"
    using that Cons by (auto simp: parse_unsigned_def span_digits_def split: if_splits)
  ultimately show ?thesis using Cons by blast
qed

lemma skip_ws_first: "\<not> is_ws c \<Longrightarrow> skip_ws (c # s) = c # s"
  by (simp add: skip_ws_def)

lemma delim_skip: "delim r \<Longrightarrow> skip_ws r = r"
  by (cases r) (auto simp: delim_def skip_ws_def is_ws_def CHR_byte)

lemma ws_byte: "is_ws c \<longleftrightarrow> c \<in> {byte 32, byte 9, byte 10, byte 13}"
  by (auto simp: is_ws_def)

lemma print_json_head: "json_ok v \<Longrightarrow> \<exists>c cs. print_json v = c # cs \<and> \<not> is_ws c
    \<and> c \<noteq> byte 93 \<and> c \<noteq> byte 125"
  by (cases v) (auto simp: ws_byte CHR_byte print_string_def is_digit_def dest!: number_head)

lemma parse_value_number:
  assumes "number_ok l" "delim r"
  shows "parse_value (Suc n) (l @ r) = Some (JNum l, r)"
proof -
  obtain c cs where l: "l = c # cs" and c: "is_digit c \<or> c = byte 45"
    using number_head [OF assms(1)] by blast
  have p: "parse_number (c # cs @ r) = Some (l, r)"
    using parse_number_append [of l l "[]" r] assms l by (simp add: number_ok_def)
  have "\<not> is_ws c" using c by (auto simp: ws_byte is_digit_def)
  moreover have "c \<notin> {byte 123, byte 91, byte 34, byte 110, byte 116, byte 102}"
    using c by (auto simp: is_digit_def)
  ultimately show ?thesis using p l by (simp add: skip_ws_first CHR_byte)
qed

lemma strip_lit_append [simp]: "strip_lit l (l @ r) = Some r"
  by (simp add: strip_lit_def)

lemma delim_members [simp]: "delim (byte 44 # r)" "delim (byte 93 # r)" "delim (byte 125 # r)" "delim []"
  by (simp_all add: delim_def CHR_byte)

lemma parse_members_head:
  "parse_members (Suc n) (print_string k @ byte 58 # s) =
     (case parse_value n s of
        None \<Rightarrow> None
      | Some (v, r3) \<Rightarrow> (case skip_ws r3 of
          [] \<Rightarrow> None
        | d # r4 \<Rightarrow>
            if d = CHR '','' then
              (case parse_members n r4 of None \<Rightarrow> None | Some (ms, z) \<Rightarrow> Some ((k, v) # ms, z))
            else if d = CHR ''}'' then Some ([(k, v)], r4) else None))"
  using parse_escape_string [of k "byte 58 # s"]
  by (simp add: print_string_def skip_ws_first ws_byte CHR_byte)

lemma parse_print:
  shows "json_ok v \<Longrightarrow> delim r \<Longrightarrow> 2 * length (print_json v) + 1 \<le> n
      \<Longrightarrow> parse_value n (print_json v @ r) = Some (v, r)"
    and "elems_ok vs \<Longrightarrow> vs \<noteq> [] \<Longrightarrow> 2 * length (print_elems vs) + 2 \<le> n
      \<Longrightarrow> parse_elems n (print_elems vs @ byte 93 # r) = Some (vs, r)"
    and "members_ok ms \<Longrightarrow> ms \<noteq> [] \<Longrightarrow> 2 * length (print_members ms) + 2 \<le> n
      \<Longrightarrow> parse_members n (print_members ms @ byte 125 # r) = Some (ms, r)"
proof (induction v and vs and ms arbitrary: n r and n r and n r
    rule: print_json_print_elems_print_members.induct)
  case 1
  then obtain m where "n = Suc m" by (cases n) auto
  then show ?case using strip_lit_append [of "''null''" r]
    by (simp add: skip_ws_first ws_byte CHR_byte)
next
  case (2 b)
  then obtain m where "n = Suc m" by (cases n) auto
  then show ?case using strip_lit_append [of "''true''" r] strip_lit_append [of "''false''" r]
    by (simp add: skip_ws_first ws_byte CHR_byte)
next
  case (3 l)
  then obtain m where "n = Suc m" by (cases n) auto
  then show ?case using 3 parse_value_number by simp
next
  case (4 s)
  then obtain m where "n = Suc m" by (cases n) auto
  then show ?case using parse_escape_string [of s r]
    by (simp add: print_string_def skip_ws_first ws_byte CHR_byte)
next
  case (5 vs)
  then obtain m where m: "n = Suc m" by (cases n) auto
  show ?case
  proof (cases vs)
    case Nil
    then show ?thesis using m by (simp add: skip_ws_first ws_byte CHR_byte)
  next
    case (Cons v ws)
    then have "json_ok v" using 5 by simp
    then obtain c cs where c: "print_json v = c # cs" "\<not> is_ws c" "c \<noteq> byte 93"
      using print_json_head by blast
    then obtain ds where d: "print_elems vs = c # ds" using Cons by simp
    have "parse_elems m (print_elems vs @ byte 93 # r) = Some (vs, r)"
      using 5 m Cons by simp
    then show ?thesis using m c d by (simp add: skip_ws_first ws_byte CHR_byte)
  qed
next
  case (6 ms)
  then obtain m where m: "n = Suc m" by (cases n) auto
  show ?case
  proof (cases ms)
    case Nil
    then show ?thesis using m by (simp add: skip_ws_first ws_byte CHR_byte)
  next
    case (Cons kv ns)
    then obtain ds where d: "print_members ms = byte 34 # ds"
      by (cases kv) (simp add: print_string_def)
    have "parse_members m (print_members ms @ byte 125 # r) = Some (ms, r)"
      using 6 m Cons by simp
    then show ?thesis using m d by (simp add: skip_ws_first ws_byte CHR_byte)
  qed
next
  case (8 v vs)
  then obtain m where m: "n = Suc m" by (cases n) auto
  show ?case
  proof (cases "vs = []")
    case True
    then have "parse_value m (print_json v @ byte 93 # r) = Some (v, byte 93 # r)"
      using 8 m by simp
    then show ?thesis using True m by (simp add: skip_ws_first ws_byte CHR_byte)
  next
    case False
    then have "parse_value m (print_json v @ byte 44 # print_elems vs @ byte 93 # r)
        = Some (v, byte 44 # print_elems vs @ byte 93 # r)"
      using 8 m by (simp add: CHR_byte)
    moreover have "parse_elems m (print_elems vs @ byte 93 # r) = Some (vs, r)"
      using 8 m False by simp
    ultimately show ?thesis using False m by (simp add: skip_ws_first ws_byte CHR_byte)
  qed
next
  case (10 k v ms)
  then obtain m where m: "n = Suc m" by (cases n) auto
  show ?case
  proof (cases "ms = []")
    case True
    then have "parse_value m (print_json v @ byte 125 # r) = Some (v, byte 125 # r)"
      using 10 m by simp
    then show ?thesis using True m by (simp del: parse_members.simps add: parse_members_head skip_ws_first ws_byte CHR_byte)
  next
    case False
    then have "parse_value m (print_json v @ byte 44 # print_members ms @ byte 125 # r)
        = Some (v, byte 44 # print_members ms @ byte 125 # r)"
      using 10 m by (simp add: CHR_byte)
    moreover have "parse_members m (print_members ms @ byte 125 # r) = Some (ms, r)"
      using 10 m False by simp
    ultimately show ?thesis
      using False m by (simp del: parse_members.simps add: parse_members_head skip_ws_first ws_byte CHR_byte)
  qed
qed simp_all

lemma parse_json_print: "json_ok v \<Longrightarrow> parse_json (print_json v) = Some v"
  using parse_print(1) [of v "[]" "2 * length (print_json v) + 2"]
  by (simp add: parse_json_def skip_ws_def)

section \<open>Written texts hold no control characters\<close>

definition clean :: "string \<Rightarrow> bool" where
  "clean s \<longleftrightarrow> (\<forall>c \<in> set s. 32 \<le> (of_char c :: nat))"

lemma clean_simps [simp]:
  "clean []" "clean (c # s) \<longleftrightarrow> 32 \<le> (of_char c :: nat) \<and> clean s" "clean (s @ t) \<longleftrightarrow> clean s \<and> clean t"
  by (auto simp: clean_def)

lemma hex_digit_clean [simp]: "n < 16 \<Longrightarrow> 32 \<le> (of_char (hex_digit n) :: nat)"
  by (simp add: hex_digit_def)

lemma u_escape_clean [simp]: "n < 65536 \<Longrightarrow> clean (u_escape n)"
  by (simp add: u_escape_def CHR_byte less_mult_imp_div_less)

lemma escape_char_clean [simp]: "clean (escape_char c)"
proof -
  have "of_char c < (65536 :: nat)" using of_char_lt [of c] by linarith
  then show ?thesis by (auto simp: escape_char_def CHR_byte)
qed

lemma escape_string_clean [simp]: "clean (escape_string s)"
  by (induction s rule: escape_string.induct) auto

lemma digits_clean: "clean (takeWhile is_digit s)"
  by (auto simp: clean_def is_digit_def dest: set_takeWhileD)

lemma number_clean:
  assumes "parse_number s = Some (l, z)"
  shows "clean l"
proof -
  have fr: "clean f" if "parse_frac t = Some (f, z)" for t f z
    using that digits_clean
    by (auto simp: parse_frac_def span_digits_def CHR_byte split: list.splits if_splits)
  have ex: "clean f" if "parse_exp t = Some (f, z)" for t f z
    using that digits_clean
    by (auto simp: parse_exp_def span_digits_def CHR_byte is_digit_def split: list.splits if_splits)
  have un: "clean f" if "parse_unsigned t = Some (f, z)" for t f z
    using that digits_clean fr ex
    by (auto simp: parse_unsigned_def span_digits_def CHR_byte Let_def split: option.splits if_splits)
  show ?thesis using assms un
    by (auto simp: parse_number_def CHR_byte split: list.splits if_splits option.splits)
qed

lemma print_clean:
  shows "json_ok v \<Longrightarrow> clean (print_json v)"
    and "elems_ok vs \<Longrightarrow> clean (print_elems vs)"
    and "members_ok ms \<Longrightarrow> clean (print_members ms)"
  by (induction v and vs and ms rule: print_json_print_elems_print_members.induct)
    (auto simp: print_string_def CHR_byte number_ok_def dest: number_clean)

lemma dec_nat_number_ok: "number_ok (dec_nat n)"
proof -
  have d: "list_all is_digit (dec_nat n)" "dec_nat n \<noteq> []" by (simp_all add: dec_nat_digits)
  have lead: "hd (dec_nat n) = CHR ''0'' \<Longrightarrow> dec_nat n = ''0''"
  proof (induction n rule: dec_nat.induct)
    case (1 n)
    show ?case
    proof (cases "n < 10")
      case True
      then have "hd (dec_nat n) = byte (48 + n)" by (subst dec_nat.simps) (simp add: digit_char_def byte_def)
      then have "n = 0" using 1(2) True by (simp add: CHR_byte)
      then show ?thesis by (subst dec_nat.simps) (simp add: digit_char_def CHR_byte byte_def)
    next
      case False
      then have e: "dec_nat n = dec_nat (n div 10) @ [digit_char (n mod 10)]"
        by (subst dec_nat.simps) simp
      then have "hd (dec_nat (n div 10)) = CHR ''0''" using 1(2) dec_nat_digits [of "n div 10"]
        by (simp add: hd_append)
      then have "dec_nat (n div 10) = ''0''" using 1(1) False by simp
      then have "n div 10 = 0" by (metis dec_nat_value foldl.simps digit_char_facts(2) digit_char_def
            CHR_byte(21) byte_def add.right_neutral mult_0_right zero_less_numeral)
      then show ?thesis using False by simp
    qed
  qed
  have nz: "hd (dec_nat n) \<noteq> CHR ''-''" using d by (cases "dec_nat n") (auto simp: is_digit_def CHR_byte)
  have tw: "span_digits (dec_nat n) = (dec_nat n, [])"
    using d(1) by (simp add: span_digits_def list_all_iff takeWhile_eq_all_conv dropWhile_eq_Nil_conv)
  have "parse_unsigned (dec_nat n) = Some (dec_nat n, [])"
    using tw d(2) lead by (auto simp: parse_unsigned_def Let_def parse_frac_def parse_exp_def)
  then show ?thesis
    using nz d(2) by (cases "dec_nat n") (auto simp: number_ok_def parse_number_def)
qed

definition print_int :: "int \<Rightarrow> string" where
  "print_int n = (if n < 0 then CHR ''-'' # dec_nat (nat (- n)) else dec_nat (nat n))"

lemma print_int_number_ok: "number_ok (print_int n)"
proof -
  have u: "parse_unsigned (dec_nat k) = Some (dec_nat k, [])" for k
  proof -
    obtain c cs where c: "dec_nat k = c # cs" "is_digit c"
      using dec_nat_digits [of k] by (cases "dec_nat k") auto
    then have "c \<noteq> CHR ''-''" by (auto simp: is_digit_def CHR_byte)
    then show ?thesis using dec_nat_number_ok [of k] c by (simp add: number_ok_def parse_number_def)
  qed
  show ?thesis
    using dec_nat_number_ok u by (auto simp: print_int_def number_ok_def parse_number_def)
qed

lemma parse_print_int: "- (2 ^ 63) \<le> n \<Longrightarrow> n < 2 ^ 63 \<Longrightarrow> parse_int64 (print_int n) = Some n"
proof (cases "n < 0")
  case True
  assume "- (2 ^ 63) \<le> n"
  then have "nat (- n) \<le> 2 ^ 63" using True by simp
  then show ?thesis using True by (simp add: print_int_def parse_int64_def)
next
  case False
  assume "n < 2 ^ 63"
  then have "nat n < 2 ^ 63" by simp
  from parse_int64_dec_nat [OF this] show ?thesis using False by (simp add: print_int_def)
qed

end
