(* ===== verification/WalDisk.thy ===== *)
theory WalDisk
  imports Prelude
begin

text \<open>
  What the write-ahead log of \<^verbatim>\<open>src/internal/ingest/queue.go\<close> uses of the operating system and
  of Go's \<^verbatim>\<open>bufio\<close>: a directory of append-only files, each with the prefix a successful
  \<^verbatim>\<open>fsync\<close> has made durable; the active segment's handle; the buffered writer over it.  Every
  system call consults the outcome list \<open>env\<close>: \<open>IoOk\<close>, or \<open>IoErr k\<close> for a call that failed
  after \<open>k\<close> bytes reached the file; an exhausted list means success.  Theorems quantify over
  \<open>env\<close>, so they hold for every pattern of failing calls.
\<close>

datatype io = IoOk | IoErr nat

record os_file =
  f_data :: bytes
  f_synced :: nat

type_synonym disk = "(string \<times> os_file) list"

record wal_io =
  env :: "io list"
  dir :: disk
  wname :: string   \<comment> \<open>name of the file behind \<open>q.file\<close>\<close>
  wopen :: bool     \<comment> \<open>the handle has not been closed\<close>
  wbuf :: bytes     \<comment> \<open>bytes buffered in \<open>q.writer\<close>\<close>
  werr :: bool      \<comment> \<open>the sticky error of \<open>q.writer\<close>\<close>

definition walWriterSize :: nat where
  "walWriterSize = 65536"

section \<open>System calls\<close>

definition next_io :: "wal_io \<Rightarrow> io \<times> wal_io" where
  "next_io w = ((case env w of [] \<Rightarrow> IoOk | r # _ \<Rightarrow> r), w\<lparr>env := tl (env w)\<rparr>)"

text \<open>A call that succeeds or fails with no effect on the modelled state.\<close>

definition os_call :: "wal_io \<Rightarrow> bool \<times> wal_io" where
  "os_call w = (case next_io w of (r, w1) \<Rightarrow> (r = IoOk, w1))"

fun os_calls :: "nat \<Rightarrow> wal_io \<Rightarrow> bool \<times> wal_io" where
  "os_calls 0 w = (True, w)"
| "os_calls (Suc n) w = (case os_call w of (ok, w1) \<Rightarrow> if ok then os_calls n w1 else (False, w1))"

definition file_data :: "disk \<Rightarrow> string \<Rightarrow> bytes" where
  "file_data d name = (case map_of d name of None \<Rightarrow> [] | Some f \<Rightarrow> f_data f)"

definition file_synced :: "disk \<Rightarrow> string \<Rightarrow> nat" where
  "file_synced d name = (case map_of d name of None \<Rightarrow> 0 | Some f \<Rightarrow> f_synced f)"

definition file_exists :: "disk \<Rightarrow> string \<Rightarrow> bool" where
  "file_exists d name \<longleftrightarrow> map_of d name \<noteq> None"

definition put_file :: "string \<Rightarrow> bytes \<Rightarrow> nat \<Rightarrow> disk \<Rightarrow> disk" where
  "put_file name data n d = AList.update name \<lparr>f_data = data, f_synced = n\<rparr> d"

text \<open>\<^verbatim>\<open>O_CREATE|O_APPEND\<close>: an existing file is kept, a missing one is created empty.\<close>

definition os_create :: "string \<Rightarrow> wal_io \<Rightarrow> bool \<times> wal_io" where
  "os_create name w = (case os_call w of (ok, w1) \<Rightarrow>
     if ok then (True, if file_exists (dir w1) name then w1
                       else w1\<lparr>dir := put_file name [] 0 (dir w1)\<rparr>)
     else (False, w1))"

text \<open>A remove that fails with \<^verbatim>\<open>ErrNotExist\<close> counts as done at every call site.\<close>

definition os_remove :: "string \<Rightarrow> wal_io \<Rightarrow> bool \<times> wal_io" where
  "os_remove name w = (if \<not> file_exists (dir w) name then (True, w)
     else (case os_call w of (ok, w1) \<Rightarrow>
       if ok then (True, w1\<lparr>dir := AList.delete name (dir w1)\<rparr>) else (False, w1)))"

definition append_file :: "bytes \<Rightarrow> wal_io \<Rightarrow> wal_io" where
  "append_file p w = w\<lparr>dir := put_file (wname w) (file_data (dir w) (wname w) @ p)
                              (file_synced (dir w) (wname w)) (dir w)\<rparr>"

text \<open>\<^verbatim>\<open>File.Write\<close> on the active handle: how many bytes reached the file, and whether it succeeded.\<close>

definition os_write :: "bytes \<Rightarrow> wal_io \<Rightarrow> nat \<times> bool \<times> wal_io" where
  "os_write p w =
     (if \<not> wopen w then (0, False, w)
      else case next_io w of
        (IoOk, w1) \<Rightarrow> (length p, True, append_file p w1)
      | (IoErr k, w1) \<Rightarrow> let n = min k (length p) in (n, False, append_file (take n p) w1))"

text \<open>\<^verbatim>\<open>File.Sync\<close>: on success everything written to the file so far is durable.\<close>

definition os_sync :: "wal_io \<Rightarrow> bool \<times> wal_io" where
  "os_sync w =
     (if \<not> wopen w then (False, w)
      else case os_call w of (ok, w1) \<Rightarrow>
        if ok then (True, w1\<lparr>dir := put_file (wname w1) (file_data (dir w1) (wname w1))
                                    (length (file_data (dir w1) (wname w1))) (dir w1)\<rparr>)
        else (False, w1))"

section \<open>bufio.Writer\<close>

definition bufio_flush :: "wal_io \<Rightarrow> bool \<times> wal_io" where
  "bufio_flush w =
     (if werr w then (False, w)
      else if wbuf w = [] then (True, w)
      else case os_write (wbuf w) w of
        (n, ok, w1) \<Rightarrow> if ok then (True, w1\<lparr>wbuf := []\<rparr>)
                      else (False, w1\<lparr>wbuf := drop n (wbuf w1), werr := True\<rparr>))"

text \<open>
  \<^verbatim>\<open>Writer.Write\<close>: while the data does not fit, write it straight through when nothing is
  buffered, else fill the buffer and flush it; then buffer the rest.  Returns how many bytes were
  accepted and whether there was no error.
\<close>

function bufio_write :: "bytes \<Rightarrow> wal_io \<Rightarrow> nat \<times> bool \<times> wal_io" where
  "bufio_write p w =
     (if werr w then (0, False, w)
      else if length p \<le> walWriterSize - length (wbuf w) then
        (length p, True, w\<lparr>wbuf := wbuf w @ p\<rparr>)
      else if wbuf w = [] then
        (case os_write p w of
           (n, ok, w1) \<Rightarrow> if ok then (n, True, w1) else (n, False, w1\<lparr>werr := True\<rparr>))
      else
        (let n = min (walWriterSize - length (wbuf w)) (length p);
             w1 = w\<lparr>wbuf := wbuf w @ take n p\<rparr>
         in case os_write (wbuf w1) w1 of
              (k, ok, w2) \<Rightarrow>
                if ok then (case bufio_write (drop n p) (w2\<lparr>wbuf := []\<rparr>) of
                              (m, ok', w3) \<Rightarrow> (n + m, ok', w3))
                else (n, False, w2\<lparr>wbuf := drop k (wbuf w2), werr := True\<rparr>)))"
  by pat_completeness auto
termination
  by (relation "measure (\<lambda>(p, w). length p + length (wbuf w))")
     (auto simp: min_def simp flip: length_greater_0_conv)

declare bufio_write.simps [simp del]

section \<open>Facts about the calls\<close>

text \<open>The logical bytes behind the handle: what the file holds, then what is still buffered.\<close>

definition wbytes :: "wal_io \<Rightarrow> bytes" where
  "wbytes w = file_data (dir w) (wname w) @ wbuf w"

lemma os_call_eq: "os_call w = (fst (next_io w) = IoOk, w\<lparr>env := tl (env w)\<rparr>)"
  by (simp add: os_call_def next_io_def)

lemma os_calls_frame: "\<exists>e. snd (os_calls n w) = w\<lparr>env := e\<rparr>"
proof (induction n arbitrary: w)
  case 0
  show ?case by (intro exI [of _ "env w"]) simp
next
  case (Suc n)
  from Suc.IH [of "w\<lparr>env := tl (env w)\<rparr>"] show ?case
    by (auto simp: os_call_eq)
qed

lemma file_put_file [simp]:
  "file_data (put_file name data n d) name = data"
  "file_synced (put_file name data n d) name = n"
  "file_exists (put_file name data n d) name"
  "name' \<noteq> name \<Longrightarrow> file_data (put_file name data n d) name' = file_data d name'"
  "name' \<noteq> name \<Longrightarrow> file_synced (put_file name data n d) name' = file_synced d name'"
  "name' \<noteq> name \<Longrightarrow> file_exists (put_file name data n d) name' = file_exists d name'"
  by (simp_all add: put_file_def file_data_def file_synced_def file_exists_def)

lemma put_file_other_if:
  "file_data (put_file name data n d) m = (if m = name then data else file_data d m)"
  "file_synced (put_file name data n d) m = (if m = name then n else file_synced d m)"
  "file_exists (put_file name data n d) m = (m = name \<or> file_exists d m)"
  by (simp_all, cases "m = name", simp_all)

lemma file_delete [simp]:
  "\<not> file_exists (AList.delete name d) name"
  "name' \<noteq> name \<Longrightarrow> file_data (AList.delete name d) name' = file_data d name'"
  "name' \<noteq> name \<Longrightarrow> file_synced (AList.delete name d) name' = file_synced d name'"
  "name' \<noteq> name \<Longrightarrow> file_exists (AList.delete name d) name' = file_exists d name'"
  by (simp_all add: file_data_def file_synced_def file_exists_def)

lemma put_file_keeps_exists: "file_exists d n' \<Longrightarrow> file_exists (put_file n data k d) n'"
  by (cases "n' = n") simp_all

lemma append_file_frame [simp]:
  "wname (append_file p w) = wname w" "wopen (append_file p w) = wopen w"
  "wbuf (append_file p w) = wbuf w" "werr (append_file p w) = werr w"
  by (simp_all add: append_file_def)

lemma append_file_data [simp]:
  "file_data (dir (append_file p w)) name =
     (if name = wname w then file_data (dir w) name @ p else file_data (dir w) name)"
  by (simp add: append_file_def put_file_other_if)

lemma append_file_synced [simp]:
  "file_synced (dir (append_file p w)) name = file_synced (dir w) name"
  by (simp add: append_file_def put_file_other_if)

lemma append_file_exists [simp]:
  "file_exists (dir (append_file p w)) name = (name = wname w \<or> file_exists (dir w) name)"
  by (simp add: append_file_def put_file_other_if)

text \<open>
  \<open>io_ext w w1\<close>: the calls between the two states wrote to the active file only, by appending,
  and never took back a durable prefix.
\<close>

definition io_ext :: "wal_io \<Rightarrow> wal_io \<Rightarrow> bool" where
  "io_ext w w1 \<longleftrightarrow> wname w1 = wname w \<and> wopen w1 = wopen w
     \<and> (\<forall>n. n \<noteq> wname w \<longrightarrow> file_data (dir w1) n = file_data (dir w) n
                       \<and> file_synced (dir w1) n = file_synced (dir w) n
                       \<and> file_exists (dir w1) n = file_exists (dir w) n)
     \<and> (file_exists (dir w) (wname w) \<longrightarrow> file_exists (dir w1) (wname w))
     \<and> (\<exists>z. file_data (dir w1) (wname w) = file_data (dir w) (wname w) @ z)
     \<and> file_synced (dir w) (wname w) \<le> file_synced (dir w1) (wname w)"

lemma io_ext_refl [simp]: "io_ext w w"
  by (simp add: io_ext_def)

lemma io_ext_names: "io_ext w w1 \<Longrightarrow> wname w1 = wname w \<and> wopen w1 = wopen w"
  by (simp add: io_ext_def)

lemma io_ext_trans: "io_ext w w1 \<Longrightarrow> io_ext w1 w2 \<Longrightarrow> io_ext w w2"
  by (auto simp: io_ext_def)

lemma io_ext_buf [simp]:
  "io_ext w (w1\<lparr>wbuf := b\<rparr>) = io_ext w w1" "io_ext (w\<lparr>wbuf := b\<rparr>) w1 = io_ext w w1"
  "io_ext w (w1\<lparr>werr := e\<rparr>) = io_ext w w1"
  by (simp_all add: io_ext_def)

text \<open>Successful durable prefixes never exceed the file.\<close>

definition synced_ok :: "wal_io \<Rightarrow> bool" where
  "synced_ok w \<longleftrightarrow> (\<forall>n. file_synced (dir w) n \<le> length (file_data (dir w) n))"

lemma os_write_eq:
  "os_write p w =
     (if \<not> wopen w then (0, False, w)
      else let n = (case fst (next_io w) of IoOk \<Rightarrow> length p | IoErr k \<Rightarrow> min k (length p))
           in (n, fst (next_io w) = IoOk, append_file (take n p) (w\<lparr>env := tl (env w)\<rparr>)))"
  by (simp add: os_write_def next_io_def Let_def split: io.split)

lemma io_ext_append_file [simp]: "io_ext w (append_file p (w\<lparr>env := e\<rparr>))"
  by (simp add: io_ext_def)

lemma synced_ok_append_file [simp]: "synced_ok w \<Longrightarrow> synced_ok (append_file p (w\<lparr>env := e\<rparr>))"
  by (auto simp: synced_ok_def intro: le_trans)

lemma os_write_ext:
  assumes "os_write p w = (n, ok, w1)"
  shows "io_ext w w1" and "wbuf w1 = wbuf w" and "werr w1 = werr w" and "n \<le> length p"
    and "ok \<Longrightarrow> n = length p"
    and "file_data (dir w1) (wname w) = file_data (dir w) (wname w) @ take n p"
    and "synced_ok w \<Longrightarrow> synced_ok w1"
  using assms by (auto simp: os_write_eq Let_def split: if_splits io.splits)

lemma wbytes_buf_append [simp]: "wbytes (w\<lparr>wbuf := wbuf w @ p\<rparr>) = wbytes w @ p"
  by (simp add: wbytes_def)

lemma synced_ok_buf [simp]:
  "synced_ok (w\<lparr>wbuf := b\<rparr>) = synced_ok w" "synced_ok (w\<lparr>werr := e\<rparr>) = synced_ok w"
  "synced_ok (w\<lparr>env := v\<rparr>) = synced_ok w"
  by (simp_all add: synced_ok_def)

text \<open>
  The writer never loses or reorders a byte: whatever a flush or a write does, the file followed
  by the buffer is the old sequence extended by the accepted prefix.
\<close>

lemma bufio_flush_spec:
  assumes "bufio_flush w = (ok, w1)"
  shows "io_ext w w1" and "wbytes w1 = wbytes w"
    and "ok \<Longrightarrow> wbuf w1 = []" and "ok \<Longrightarrow> \<not> werr w1 \<and> \<not> werr w"
    and "synced_ok w \<Longrightarrow> synced_ok w1"
proof -
  obtain n ok' w' where w': "os_write (wbuf w) w = (n, ok', w')" by (metis prod_cases3)
  note W = os_write_ext [OF w'] io_ext_names [OF os_write_ext(1) [OF w']]
  have "io_ext w w1 \<and> wbytes w1 = wbytes w \<and> (ok \<longrightarrow> wbuf w1 = [] \<and> \<not> werr w1 \<and> \<not> werr w)
    \<and> (synced_ok w \<longrightarrow> synced_ok w1)"
    using assms w' W
    by (cases ok') (auto simp: bufio_flush_def wbytes_def split: if_splits)
  then show "io_ext w w1" "wbytes w1 = wbytes w" "ok \<Longrightarrow> wbuf w1 = []"
    "ok \<Longrightarrow> \<not> werr w1 \<and> \<not> werr w" "synced_ok w \<Longrightarrow> synced_ok w1"
    by auto
qed

lemma os_sync_spec:
  assumes "os_sync w = (ok, w1)"
  shows "wbytes w1 = wbytes w" and "wbuf w1 = wbuf w"
    and "werr w1 = werr w" and "wname w1 = wname w" and "wopen w1 = wopen w"
    and "ok \<Longrightarrow> file_synced (dir w1) (wname w) = length (file_data (dir w1) (wname w))"
    and "synced_ok w \<Longrightarrow> synced_ok w1"
    and "file_data (dir w1) n = file_data (dir w) n"
  using assms
  by (auto simp: os_sync_def os_call_eq wbytes_def synced_ok_def put_file_other_if
      split: if_splits)

lemma os_sync_ext: "os_sync w = (ok, w1) \<Longrightarrow> synced_ok w \<Longrightarrow> io_ext w w1"
  by (auto simp: os_sync_def os_call_eq io_ext_def synced_ok_def put_file_other_if
      split: if_splits)

lemma bufio_write_spec:
  "bufio_write p w = (n, ok, w1) \<Longrightarrow>
     io_ext w w1 \<and> wbytes w1 = wbytes w @ take n p \<and> n \<le> length p
     \<and> (ok \<longrightarrow> n = length p \<and> \<not> werr w1) \<and> (synced_ok w \<longrightarrow> synced_ok w1)"
proof (induction p w arbitrary: n ok w1 rule: bufio_write.induct)
  case (1 p w)
  define a where "a = min (walWriterSize - length (wbuf w)) (length p)"
  define wa where "wa = w\<lparr>wbuf := wbuf w @ take a p\<rparr>"
  consider (err) "werr w" | (fits) "\<not> werr w" "length p \<le> walWriterSize - length (wbuf w)"
    | (direct) "\<not> werr w" "\<not> length p \<le> walWriterSize - length (wbuf w)" "wbuf w = []"
    | (fill) "\<not> werr w" "\<not> length p \<le> walWriterSize - length (wbuf w)" "wbuf w \<noteq> []"
    by blast
  then show ?case
  proof cases
    case err
    with "1.prems" show ?thesis by (simp add: bufio_write.simps [of p w])
  next
    case fits
    with "1.prems" show ?thesis by (auto simp: bufio_write.simps [of p w])
  next
    case direct
    with "1.prems" os_write_ext [of p w] show ?thesis
      by (auto simp: bufio_write.simps [of p w] wbytes_def io_ext_def split: prod.splits if_splits)
  next
    case fill
    have wa_buf: "wbuf wa = wbuf w @ take a p" by (simp add: wa_def)
    obtain k ok1 w2 where w2: "os_write (wbuf wa) wa = (k, ok1, w2)" by (metis prod_cases3)
    note W = os_write_ext [OF w2]
    have ext: "io_ext w w2" using W(1) by (simp add: wa_def)
    have data: "file_data (dir w2) (wname w) = file_data (dir w) (wname w) @ take k (wbuf w @ take a p)"
      using W(6) by (simp add: wa_def)
    have buf: "wbuf w2 = wbuf w @ take a p" "wname w2 = wname w"
      using W(1,2) by (simp_all add: wa_def io_ext_def)
    have syn: "synced_ok w \<Longrightarrow> synced_ok w2" using W(7) by (simp add: wa_def)
    show ?thesis
    proof (cases ok1)
      case False
      then have res: "n = a" "\<not> ok" "w1 = w2\<lparr>wbuf := drop k (wbuf w2), werr := True\<rparr>"
        using "1.prems" fill w2 [unfolded wa_buf]
        by (auto simp: bufio_write.simps [of p w] Let_def a_def [symmetric] wa_def [symmetric])
      have "wbytes w1 = wbytes w @ take a p"
        using data buf append_take_drop_id [of k "wbuf w @ take a p"]
        by (simp add: res wbytes_def del: take_append drop_append append_take_drop_id)
      then show ?thesis using res ext syn by (simp add: a_def)
    next
      case True
      obtain m ok' w3 where w3: "bufio_write (drop a p) (w2\<lparr>wbuf := []\<rparr>) = (m, ok', w3)"
        by (metis prod_cases3)
      have res: "n = a + m" "ok = ok'" "w1 = w3"
        using "1.prems" fill w2 [unfolded wa_buf] w3 True
        by (auto simp: bufio_write.simps [of p w] Let_def a_def [symmetric] wa_def [symmetric])
      have IH: "io_ext w2 w3 \<and> wbytes w3 = wbytes (w2\<lparr>wbuf := []\<rparr>) @ take m (drop a p)
          \<and> m \<le> length (drop a p) \<and> (ok' \<longrightarrow> m = length (drop a p) \<and> \<not> werr w3)
          \<and> (synced_ok w2 \<longrightarrow> synced_ok w3)"
        using "1.IH" [OF fill a_def wa_def w2 [symmetric] refl True w3] by simp
      have "k = length (wbuf w @ take a p)" using W(5) True by (simp add: wa_def)
      then have "wbytes (w2\<lparr>wbuf := []\<rparr>) = wbytes w @ take a p"
        using data buf by (simp add: wbytes_def min_def)
      moreover have "a \<le> length p" by (simp add: a_def)
      ultimately show ?thesis
        using IH res ext syn by (auto simp: take_add intro: io_ext_trans)
    qed
  qed
qed

end
