(* ===== verification/WalQueue.thy ===== *)
theory WalQueue
  imports WalDisk
begin

text \<open>
  The state of \<^verbatim>\<open>DiskQueue\<close> (\<^verbatim>\<open>src/internal/ingest/queue.go\<close>) and the operations that run under
  its mutex: appending a frame, rolling to a fresh segment, reclaiming acknowledged segments,
  enforcing the disk high-water mark, and advancing the checkpoint.  Each is one function from the
  state to the state, with the calls, guards and early returns in the order of the code; the
  mutex makes each one a single step.  Logging is left out.
\<close>

section \<open>State\<close>

record walSegment =
  seg_idx :: nat
  seg_base :: nat
  seg_size :: nat
  seg_name :: string

datatype wal_error =
    ErrClosed | ErrDegraded wal_error | ErrFrameTooLarge nat | ErrHighWaterRefused
  | ErrAppend | ErrRollCreate | ErrRollSecure | ErrRollDirSync | ErrRollFlush | ErrRollSync
  | ErrRollClose | ErrFlush | ErrSync | ErrCheckpoint | ErrCheckpointPostRoll
  | ErrClosedBeforeCommit | ErrGroupSync | ErrNotCovered nat nat | ErrMarshal | ErrClose

record commitWaiter =
  w_id :: nat         \<comment> \<open>which caller owns the \<open>done\<close> channel\<close>
  w_off :: nat
  w_enqueued :: int   \<comment> \<open>nanoseconds\<close>

record diskQueue =
  qio :: wal_io
  maxBytes :: nat
  maxTotalBytes :: nat
  segments :: "walSegment list"
  activeIdx :: nat
  offset :: nat
  cpSeg :: nat
  cpOff :: nat
  stopped :: bool
  dirtySinceFlush :: bool
  droppedUnackedSegments :: nat
  droppedUnackedBytes :: nat
  lossySync :: bool
  groupDelay :: int
  waiters :: "commitWaiter list"
  syncedOffset :: nat
  refusedHighWater :: nat
  unsyncedEvents :: nat
  lastErr :: "wal_error option"

definition DefaultWALMaxTotalBytes :: nat where "DefaultWALMaxTotalBytes = 512 * 2 ^ 20"
definition DefaultGroupCommitDelay :: int where "DefaultGroupCommitDelay = 25 * 1000000"
definition walGroupCommitBytes :: nat where "walGroupCommitBytes = 2 ^ 20"
definition walMaxFrameBytes :: nat where "walMaxFrameBytes = 8 * 2 ^ 20"

section \<open>Segment file names\<close>

definition legacySegmentName :: string where "legacySegmentName = ''current.log''"
definition segmentFilePrefix :: string where "segmentFilePrefix = ''wal-''"
definition segmentFileSuffix :: string where "segmentFileSuffix = ''.log''"

text \<open>\<^verbatim>\<open>%06d\<close> pads with zeros on the left to six digits.\<close>

definition pad6 :: "string \<Rightarrow> string" where
  "pad6 s = replicate (6 - length s) (digit_char 0) @ s"

definition segmentFileName :: "nat \<Rightarrow> string" where
  "segmentFileName idx = segmentFilePrefix @ pad6 (dec_nat idx) @ segmentFileSuffix"

definition parseSegmentFileName :: "string \<Rightarrow> nat option" where
  "parseSegmentFileName name =
     (if \<not> has_prefix name segmentFilePrefix \<or> \<not> has_suffix name segmentFileSuffix then None
      else case parse_int64 (trim_suffix (trim_prefix name segmentFilePrefix) segmentFileSuffix) of
             None \<Rightarrow> None
           | Some n \<Rightarrow> if n < 1 then None else Some (nat n))"

definition seg_file_name :: "nat \<Rightarrow> string" where
  "seg_file_name idx = (if idx = 0 then legacySegmentName else segmentFileName idx)"

section \<open>Counters and options\<close>

record queueStats =
  st_Segments :: nat
  st_Bytes :: nat
  st_MaxBytes :: nat
  st_MaxTotalBytes :: nat
  st_DroppedUnackedSegments :: nat
  st_DroppedUnackedBytes :: nat
  st_RefusedHighWater :: nat
  st_Mode :: string
  st_UnsyncedEvents :: nat
  st_GroupCommitDelayMs :: int

definition totalBytes :: "walSegment list \<Rightarrow> nat" where
  "totalBytes ss = sum_list (map seg_size ss)"

definition Stats :: "diskQueue \<Rightarrow> queueStats" where
  "Stats q = \<lparr>st_Segments = length (segments q), st_Bytes = totalBytes (segments q),
     st_MaxBytes = maxBytes q, st_MaxTotalBytes = maxTotalBytes q,
     st_DroppedUnackedSegments = droppedUnackedSegments q,
     st_DroppedUnackedBytes = droppedUnackedBytes q,
     st_RefusedHighWater = refusedHighWater q,
     st_Mode = (if lossySync q then ''lossy'' else ''durable''),
     st_UnsyncedEvents = unsyncedEvents q,
     st_GroupCommitDelayMs = groupDelay q div 1000000\<rparr>"

definition WithLossySync :: "diskQueue \<Rightarrow> diskQueue" where
  "WithLossySync q = q\<lparr>lossySync := True\<rparr>"

definition WithGroupCommitDelay :: "int \<Rightarrow> diskQueue \<Rightarrow> diskQueue" where
  "WithGroupCommitDelay d q =
     (if d \<le> 0 then q\<lparr>groupDelay := DefaultGroupCommitDelay\<rparr>
      else if d < 1000000 then q\<lparr>groupDelay := 1000000\<rparr>
      else if d > 1000000000 then q\<lparr>groupDelay := 1000000000\<rparr>
      else q\<lparr>groupDelay := d\<rparr>)"

definition WithMaxTotalBytes :: "int \<Rightarrow> diskQueue \<Rightarrow> diskQueue" where
  "WithMaxTotalBytes n q =
     (if n \<ge> int (maxBytes q) \<and> n > 0 then q\<lparr>maxTotalBytes := nat n\<rparr> else q)"

definition setErrLocked :: "wal_error \<Rightarrow> diskQueue \<Rightarrow> wal_error \<times> diskQueue" where
  "setErrLocked e q = (case lastErr q of None \<Rightarrow> (e, q\<lparr>lastErr := Some e\<rparr>) | Some e0 \<Rightarrow> (e0, q))"

section \<open>Positions\<close>

definition segmentExists :: "nat \<Rightarrow> walSegment list \<Rightarrow> bool" where
  "segmentExists i ss \<longleftrightarrow> list_ex (\<lambda>s. seg_idx s = i) ss"

definition segmentSize :: "nat \<Rightarrow> walSegment list \<Rightarrow> nat" where
  "segmentSize i ss = (case find (\<lambda>s. seg_idx s = i) ss of None \<Rightarrow> 0 | Some s \<Rightarrow> seg_size s)"

definition segmentEnd :: "nat \<Rightarrow> walSegment list \<Rightarrow> nat" where
  "segmentEnd i ss =
     (case find (\<lambda>s. seg_idx s = i) ss of None \<Rightarrow> 0 | Some s \<Rightarrow> seg_base s + seg_size s)"

text \<open>The loop of \<^verbatim>\<open>logicalToPos\<close>, from the last segment down; the flag marks the last one.\<close>

fun pos_scan :: "nat \<Rightarrow> bool \<Rightarrow> walSegment list \<Rightarrow> (nat \<times> nat) option" where
  "pos_scan t is_last [] = None"
| "pos_scan t is_last (s # ss) =
     (if t > seg_base s \<or> (t = seg_base s \<and> seg_size s = 0 \<and> is_last)
      then Some (seg_idx s, t - seg_base s) else pos_scan t False ss)"

definition logicalToPos :: "nat \<Rightarrow> diskQueue \<Rightarrow> nat \<times> nat" where
  "logicalToPos target q =
     (let t = (if target > offset q then offset q else target)
      in case pos_scan t True (rev (segments q)) of
           Some p \<Rightarrow> p | None \<Rightarrow> (seg_idx (hd (segments q)), 0))"

definition cpLogical :: "diskQueue \<Rightarrow> nat" where
  "cpLogical q = (case find (\<lambda>s. seg_idx s = cpSeg q) (segments q) of
                    None \<Rightarrow> 0 | Some s \<Rightarrow> seg_base s + cpOff q)"

section \<open>Reclaiming segments\<close>

text \<open>\<^verbatim>\<open>syncDir\<close> opens and fsyncs a directory.\<close>

definition syncDir :: "wal_io \<Rightarrow> bool \<times> wal_io" where
  "syncDir w = os_calls 2 w"

text \<open>
  \<^verbatim>\<open>enforceCapLocked\<close>: while the total exceeds the cap and more than one segment is left, delete
  the oldest; a failing remove ends the loop, a failing directory sync is only logged.
\<close>

function enforceCap_loop :: "nat \<Rightarrow> diskQueue \<Rightarrow> diskQueue" where
  "enforceCap_loop tot q =
     (if tot > maxTotalBytes q \<and> length (segments q) > 1 then
        let oldest = hd (segments q);
            acked = (cpSeg q > seg_idx oldest)
        in case os_remove (seg_name oldest) (qio q) of (ok, w1) \<Rightarrow>
             if \<not> ok then q\<lparr>qio := w1\<rparr>
             else let q1 = q\<lparr>qio := snd (syncDir w1), segments := tl (segments q)\<rparr>;
                      q2 = (if acked then q1
                            else q1\<lparr>droppedUnackedSegments := droppedUnackedSegments q + 1,
                                    droppedUnackedBytes := droppedUnackedBytes q + seg_size oldest\<rparr>)
                  in enforceCap_loop (tot - seg_size oldest) q2
      else q)"
  by pat_completeness auto
termination
  by (relation "measure (\<lambda>(t, q). length (segments q))") (auto split: if_splits)

declare enforceCap_loop.simps [simp del]

definition enforceCapLocked :: "diskQueue \<Rightarrow> diskQueue" where
  "enforceCapLocked q = enforceCap_loop (totalBytes (segments q)) q"

text \<open>\<^verbatim>\<open>gcSegmentsLocked\<close>: delete sealed segments strictly below the checkpoint's segment.\<close>

function gcSegmentsLocked :: "diskQueue \<Rightarrow> diskQueue" where
  "gcSegmentsLocked q =
     (if length (segments q) \<le> 1 then q
      else let oldest = hd (segments q)
           in if cpSeg q > seg_idx oldest then
                (case os_remove (seg_name oldest) (qio q) of (ok, w1) \<Rightarrow>
                   if \<not> ok then q\<lparr>qio := w1\<rparr>
                   else gcSegmentsLocked (q\<lparr>qio := snd (syncDir w1), segments := tl (segments q)\<rparr>))
              else q)"
  by pat_completeness auto
termination
  by (relation "measure (\<lambda>q. length (segments q))") auto

declare gcSegmentsLocked.simps [simp del]

section \<open>Rolling and appending\<close>

text \<open>Latching an error and returning it, as \<^verbatim>\<open>return q.setErrLocked(err)\<close> does.\<close>

definition latch :: "wal_error \<Rightarrow> diskQueue \<Rightarrow> wal_error option \<times> diskQueue" where
  "latch e q = (case setErrLocked e q of (e', q') \<Rightarrow> (Some e', q'))"

text \<open>The active handle and writer after the roll: a fresh writer over the new file.\<close>

definition switch_file :: "string \<Rightarrow> wal_io \<Rightarrow> wal_io" where
  "switch_file name w = w\<lparr>wname := name, wopen := True, wbuf := [], werr := False\<rparr>"

definition rollLocked :: "diskQueue \<Rightarrow> wal_error option \<times> diskQueue" where
  "rollLocked q =
    (let next = activeIdx q + 1 in
     case os_create (segmentFileName next) (qio q) of (ok1, w1) \<Rightarrow>
     if \<not> ok1 then (Some ErrRollCreate, q\<lparr>qio := w1\<rparr>) else
     case os_call w1 of (ok2, w2) \<Rightarrow>
     if \<not> ok2 then (Some ErrRollSecure, q\<lparr>qio := w2\<rparr>) else
     case syncDir w2 of (ok3, w3) \<Rightarrow>
     if \<not> ok3 then latch ErrRollDirSync (q\<lparr>qio := w3\<rparr>) else
     case bufio_flush w3 of (ok4, w4) \<Rightarrow>
     if \<not> ok4 then latch ErrRollFlush (q\<lparr>qio := w4\<rparr>) else
     case os_sync w4 of (ok5, w5) \<Rightarrow>
     if \<not> ok5 then latch ErrRollSync (q\<lparr>qio := w5\<rparr>) else
     let q5 = q\<lparr>qio := w5, syncedOffset := offset q, unsyncedEvents := 0\<rparr> in
     case os_call w5 of (ok6, w6) \<Rightarrow>
     if \<not> ok6 then latch ErrRollClose (q5\<lparr>qio := w6\<lparr>wopen := False\<rparr>\<rparr>) else
     let prev = last (segments q) in
     (None, enforceCapLocked
        (q5\<lparr>qio := switch_file (segmentFileName next) w6,
            activeIdx := next,
            segments := segments q @
              [\<lparr>seg_idx = next, seg_base = seg_base prev + seg_size prev, seg_size = 0,
                seg_name = segmentFileName next\<rparr>]\<rparr>)))"

definition grow :: "nat \<Rightarrow> walSegment \<Rightarrow> walSegment" where
  "grow n s = s\<lparr>seg_size := seg_size s + n\<rparr>"

text \<open>The write at the end of \<^verbatim>\<open>appendFrame\<close>, on the active segment.\<close>

definition append_write :: "bytes \<Rightarrow> nat \<Rightarrow> diskQueue \<Rightarrow> (nat \<times> wal_error option) \<times> diskQueue" where
  "append_write raw unsynced q =
     (case bufio_write raw (qio q) of (n, ok, w1) \<Rightarrow>
        let q1 = q\<lparr>qio := w1, offset := offset q + n, segments := set_last (grow n) (segments q)\<rparr>
        in if \<not> ok then (case latch ErrAppend q1 of (e, q2) \<Rightarrow> ((offset q2, e), q2))
           else let q2 = q1\<lparr>dirtySinceFlush := True, unsyncedEvents := unsyncedEvents q + unsynced\<rparr>
                in ((offset q2, None), q2))"

definition appendFrame :: "bytes \<Rightarrow> nat \<Rightarrow> diskQueue \<Rightarrow> (nat \<times> wal_error option) \<times> diskQueue" where
  "appendFrame raw0 unsynced q =
    (if length raw0 > walMaxFrameBytes then ((0, Some (ErrFrameTooLarge (length raw0))), q) else
     let raw = raw0 @ [nl] in
     if stopped q then ((offset q, Some ErrClosed), q) else
     case lastErr q of Some e \<Rightarrow> ((offset q, Some (ErrDegraded e)), q) | None \<Rightarrow>
     let active = last (segments q) in
     if seg_size active > 0 \<and> seg_size active + length raw > maxBytes q then
       let q1 = (if lossySync q then q else gcSegmentsLocked q) in
       if \<not> lossySync q \<and> totalBytes (segments q1) + length raw > maxTotalBytes q1 then
         ((offset q1, Some ErrHighWaterRefused), q1\<lparr>refusedHighWater := refusedHighWater q1 + 1\<rparr>)
       else (case rollLocked q1 of
               (Some e, q2) \<Rightarrow> ((offset q2, Some e), q2)
             | (None, q2) \<Rightarrow> append_write raw unsynced q2)
     else append_write raw unsynced q)"

section \<open>The checkpoint\<close>

definition checkpoint_json :: "nat \<Rightarrow> nat \<Rightarrow> string" where
  "checkpoint_json seg off =
     ''{\"segment\":'' @ dec_nat seg @ '',\"offset\":'' @ dec_nat off @ ''}''"

definition segmentExistsNonLegacy :: "walSegment list \<Rightarrow> bool" where
  "segmentExistsNonLegacy ss \<longleftrightarrow> list_ex (\<lambda>s. seg_idx s > 0) ss"

definition checkpointName :: string where "checkpointName = ''checkpoint''"

text \<open>
  \<^verbatim>\<open>atomicWrite0600\<close>: create, write, fsync, chmod and close a temporary file, rename it over the
  target, then open, fsync and close the directory.  A failure up to the rename leaves the old
  file, one after it leaves the new one and still reports an error.
\<close>

definition atomicWrite0600 :: "string \<Rightarrow> bytes \<Rightarrow> wal_io \<Rightarrow> bool \<times> wal_io" where
  "atomicWrite0600 path data w =
     (case os_calls 6 w of (ok1, w1) \<Rightarrow>
        if \<not> ok1 then (False, w1)
        else os_calls 3 (w1\<lparr>dir := put_file path data (length data) (dir w1)\<rparr>))"

definition writeCheckpoint :: "nat \<Rightarrow> nat \<Rightarrow> diskQueue \<Rightarrow> bool \<times> diskQueue" where
  "writeCheckpoint seg off q =
     (let data = (if seg = 0 \<and> \<not> segmentExistsNonLegacy (segments q) then dec_nat off
                  else checkpoint_json seg off)
      in case atomicWrite0600 checkpointName data (qio q) of (ok, w1) \<Rightarrow>
           if ok then (True, q\<lparr>qio := w1, dirtySinceFlush := False\<rparr>) else (False, q\<lparr>qio := w1\<rparr>))"

text \<open>The reclaim of a fully checkpointed, over-sized active segment at the end of \<^verbatim>\<open>Checkpoint\<close>.\<close>

definition checkpoint_reclaim :: "diskQueue \<Rightarrow> wal_error option \<times> diskQueue" where
  "checkpoint_reclaim q =
     (let active = last (segments q) in
      if seg_size active \<ge> maxBytes q \<and> cpSeg q = seg_idx active \<and> cpOff q \<ge> seg_size active then
        (case rollLocked q of
           (Some e, q1) \<Rightarrow> (None, q1)
         | (None, q1) \<Rightarrow>
             (case writeCheckpoint (activeIdx q1) 0 q1 of (ok, q2) \<Rightarrow>
                if \<not> ok then latch ErrCheckpointPostRoll q2
                else (None, gcSegmentsLocked (q2\<lparr>cpSeg := activeIdx q2, cpOff := 0\<rparr>))))
      else (None, q))"

definition Checkpoint :: "nat \<Rightarrow> diskQueue \<Rightarrow> wal_error option \<times> diskQueue" where
  "Checkpoint target q =
    (if stopped q then (Some ErrClosed, q) else
     if target \<le> cpLogical q then (None, q) else
     let t = (if target > offset q then offset q else target) in
     case bufio_flush (qio q) of (ok1, w1) \<Rightarrow>
     if \<not> ok1 then latch ErrFlush (q\<lparr>qio := w1\<rparr>) else
     case os_sync w1 of (ok2, w2) \<Rightarrow>
     if \<not> ok2 then latch ErrSync (q\<lparr>qio := w2\<rparr>) else
     let q2 = q\<lparr>qio := w2, syncedOffset := offset q, unsyncedEvents := 0\<rparr> in
     case logicalToPos t q2 of (sg, off) \<Rightarrow>
     case writeCheckpoint sg off q2 of (ok3, q3) \<Rightarrow>
     if \<not> ok3 then latch ErrCheckpoint q3 else
     checkpoint_reclaim (gcSegmentsLocked (q3\<lparr>cpSeg := sg, cpOff := off\<rparr>)))"

end
