(* ===== verification/WalInvariant.thy ===== *)
theory WalInvariant
  imports WalQueue
begin

text \<open>
  The representation invariant of the write-ahead log and the abstraction of its state to the
  bytes not yet checkpointed; every operation of \<^verbatim>\<open>WalQueue\<close> keeps the first and acts on the
  second in the way its contract says, whatever calls fail.
\<close>

section \<open>Segment names\<close>

lemma parse_dec_pad6: "parse_dec (pad6 (dec_nat n)) = Some n"
  unfolding pad6_def by (rule parse_dec_zeros)

lemma segmentFileName_inj:
  assumes "segmentFileName i = segmentFileName j"
  shows "i = j"
proof -
  have "pad6 (dec_nat i) = pad6 (dec_nat j)"
    using assms by (simp add: segmentFileName_def)
  then have "parse_dec (pad6 (dec_nat i)) = parse_dec (pad6 (dec_nat j))"
    by (rule arg_cong)
  then show ?thesis by (simp only: parse_dec_pad6 option.inject)
qed

lemma segmentFileName_not_special:
  "segmentFileName i \<noteq> legacySegmentName" "segmentFileName i \<noteq> checkpointName"
  "legacySegmentName \<noteq> checkpointName"
  by (simp_all add: segmentFileName_def segmentFilePrefix_def legacySegmentName_def
      checkpointName_def)

lemma seg_file_name_inj: "seg_file_name i = seg_file_name j \<Longrightarrow> i = j"
  by (auto simp: seg_file_name_def segmentFileName_not_special
      segmentFileName_not_special [symmetric] split: if_splits dest: segmentFileName_inj)

lemma seg_file_name_not_checkpoint [simp]: "seg_file_name i \<noteq> checkpointName"
  by (simp add: seg_file_name_def segmentFileName_not_special)

section \<open>Deleting segments\<close>

definition io_drop :: "string set \<Rightarrow> wal_io \<Rightarrow> wal_io \<Rightarrow> bool" where
  "io_drop N w w1 \<longleftrightarrow> wname w1 = wname w \<and> wopen w1 = wopen w \<and> wbuf w1 = wbuf w \<and> werr w1 = werr w
     \<and> (synced_ok w \<longrightarrow> synced_ok w1)
     \<and> (\<forall>n. n \<notin> N \<longrightarrow> file_data (dir w1) n = file_data (dir w) n
                  \<and> file_synced (dir w1) n = file_synced (dir w) n
                  \<and> file_exists (dir w1) n = file_exists (dir w) n)"

lemma io_drop_env: "io_drop N w (w\<lparr>env := e\<rparr>)"
  by (simp add: io_drop_def)

lemma io_drop_trans: "io_drop M w w1 \<Longrightarrow> io_drop N w1 w2 \<Longrightarrow> io_drop (M \<union> N) w w2"
  by (auto simp: io_drop_def)

lemma os_remove_drop: "os_remove name w = (ok, w1) \<Longrightarrow> io_drop {name} w w1"
proof (cases "file_exists (dir w) name \<and> fst (next_io w) = IoOk")
  case True
  moreover have "synced_ok (w\<lparr>env := tl (env w), dir := AList.delete name (dir w)\<rparr>)" if "synced_ok w"
    unfolding synced_ok_def
  proof
    fix n
    have "file_synced (AList.delete name (dir w)) name = 0"
      by (simp add: file_synced_def)
    with that show "file_synced (dir (w\<lparr>env := tl (env w), dir := AList.delete name (dir w)\<rparr>)) n
        \<le> length (file_data (dir (w\<lparr>env := tl (env w), dir := AList.delete name (dir w)\<rparr>)) n)"
      by (cases "n = name") (auto simp: synced_ok_def)
  qed
  moreover assume "os_remove name w = (ok, w1)"
  ultimately show ?thesis
    by (auto simp: os_remove_def os_call_eq io_drop_def)
next
  case False
  moreover assume "os_remove name w = (ok, w1)"
  ultimately show ?thesis
    by (auto simp: os_remove_def os_call_eq io_drop_def split: if_splits)
qed

lemma syncDir_env: "\<exists>e. snd (syncDir w) = w\<lparr>env := e\<rparr>"
  unfolding syncDir_def by (rule os_calls_frame)

lemma remove_sync_drop:
  "os_remove name w = (ok, w1) \<Longrightarrow> io_drop {name} w (snd (syncDir w1))"
  by (metis io_drop_env io_drop_trans os_remove_drop sup.idem syncDir_env)

text \<open>What the two reclaim loops do: they drop a proper prefix of the segment table.\<close>

definition drops :: "nat \<Rightarrow> diskQueue \<Rightarrow> wal_io \<Rightarrow> bool" where
  "drops k q w1 \<longleftrightarrow> (k = 0 \<or> k < length (segments q))
     \<and> io_drop (seg_name ` set (take k (segments q))) (qio q) w1"

lemma drops_Suc:
  assumes "segments q = s # ss" "io_drop {seg_name s} (qio q) w1"
    and "drops k (q\<lparr>qio := w1, segments := ss\<rparr>) w2" "ss \<noteq> []"
  shows "drops (Suc k) q w2"
  using assms io_drop_trans [of "{seg_name s}" "qio q" w1] by (auto simp: drops_def)

lemma gcSegments_spec:
  "\<exists>k w1. gcSegmentsLocked q = q\<lparr>qio := w1, segments := drop k (segments q)\<rparr>
     \<and> drops k q w1 \<and> (\<forall>s \<in> set (take k (segments q)). seg_idx s < cpSeg q)"
proof (induction q rule: gcSegmentsLocked.induct)
  case (1 q)
  show ?case
  proof (cases "length (segments q) \<le> 1 \<or> \<not> cpSeg q > seg_idx (hd (segments q))")
    case True
    then have "gcSegmentsLocked q = q"
      by (subst gcSegmentsLocked.simps) (auto simp: Let_def)
    then show ?thesis
      by (intro exI [of _ 0] exI [of _ "qio q"]) (simp add: drops_def io_drop_def)
  next
    case False
    obtain s ss where ss: "segments q = s # ss" "ss \<noteq> []"
      using False by (cases "segments q") auto
    obtain ok w1 where rm: "os_remove (seg_name s) (qio q) = (ok, w1)" by fastforce
    show ?thesis
    proof (cases ok)
      case False2: False
      with False ss rm have "gcSegmentsLocked q = q\<lparr>qio := w1\<rparr>"
        by (subst gcSegmentsLocked.simps) (simp add: Let_def)
      moreover have "io_drop {} (qio q) w1"
        using rm False2 by (auto simp: os_remove_def os_call_eq io_drop_def split: if_splits)
      ultimately show ?thesis
        by (intro exI [of _ 0] exI [of _ w1]) (simp add: drops_def)
    next
      case True
      let ?q1 = "q\<lparr>qio := snd (syncDir w1), segments := ss\<rparr>"
      have eq: "gcSegmentsLocked q = gcSegmentsLocked ?q1"
        using False ss rm True by (subst gcSegmentsLocked.simps) (simp add: Let_def)
      from "1.IH" [of "hd (segments q)" ok w1] False ss rm True
      obtain k w2 where IH: "gcSegmentsLocked ?q1 = ?q1\<lparr>qio := w2, segments := drop k ss\<rparr>"
        "drops k ?q1 w2" "\<forall>s \<in> set (take k ss). seg_idx s < cpSeg q"
        by auto
      have "drops (Suc k) q w2"
        using drops_Suc [OF ss(1) remove_sync_drop [OF rm] IH(2) ss(2)] .
      with eq IH ss False show ?thesis
        by (intro exI [of _ "Suc k"] exI [of _ w2]) simp
    qed
  qed
qed

definition unacked :: "nat \<Rightarrow> walSegment list \<Rightarrow> walSegment list" where
  "unacked cp ss = filter (\<lambda>s. \<not> cp > seg_idx s) ss"

lemma enforceCap_spec:
  "\<exists>k w1. enforceCap_loop t q = q\<lparr>qio := w1, segments := drop k (segments q),
        droppedUnackedSegments := droppedUnackedSegments q
          + length (unacked (cpSeg q) (take k (segments q))),
        droppedUnackedBytes := droppedUnackedBytes q
          + totalBytes (unacked (cpSeg q) (take k (segments q)))\<rparr>
     \<and> drops k q w1 \<and> (t \<le> maxTotalBytes q \<longrightarrow> k = 0)"
proof (induction t q rule: enforceCap_loop.induct)
  case (1 t q)
  show ?case
  proof (cases "t > maxTotalBytes q \<and> length (segments q) > 1")
    case False
    then have "enforceCap_loop t q = q"
      by (subst enforceCap_loop.simps) auto
    then show ?thesis
      by (intro exI [of _ 0] exI [of _ "qio q"])
        (simp add: drops_def io_drop_def unacked_def totalBytes_def)
  next
    case True
    obtain s ss where ss: "segments q = s # ss" "ss \<noteq> []"
      using True by (cases "segments q") auto
    obtain ok w1 where rm: "os_remove (seg_name s) (qio q) = (ok, w1)" by fastforce
    show ?thesis
    proof (cases ok)
      case False
      with True ss rm have "enforceCap_loop t q = q\<lparr>qio := w1\<rparr>"
        by (subst enforceCap_loop.simps) (simp add: Let_def)
      moreover have "io_drop {} (qio q) w1"
        using rm False by (auto simp: os_remove_def os_call_eq io_drop_def split: if_splits)
      ultimately show ?thesis
        by (intro exI [of _ 0] exI [of _ w1])
          (simp add: drops_def unacked_def totalBytes_def)
    next
      case ok: True
      define q1 where "q1 = q\<lparr>qio := snd (syncDir w1), segments := tl (segments q)\<rparr>"
      define q2 where "q2 = (if cpSeg q > seg_idx (hd (segments q)) then q1
         else q1\<lparr>droppedUnackedSegments := droppedUnackedSegments q + 1,
                 droppedUnackedBytes := droppedUnackedBytes q + seg_size (hd (segments q))\<rparr>)"
      have eq: "enforceCap_loop t q = enforceCap_loop (t - seg_size s) q2"
        using True ss rm ok by (subst enforceCap_loop.simps) (simp add: Let_def q1_def q2_def)
      have rm': "(ok, w1) = os_remove (seg_name (hd (segments q))) (qio q)"
        using rm ss by simp
      have nn: "\<not> \<not> ok" using ok by simp
      obtain k w2 where IH: "enforceCap_loop (t - seg_size s) q2
            = q2\<lparr>qio := w2, segments := drop k (segments q2),
                droppedUnackedSegments := droppedUnackedSegments q2
                  + length (unacked (cpSeg q2) (take k (segments q2))),
                droppedUnackedBytes := droppedUnackedBytes q2
                  + totalBytes (unacked (cpSeg q2) (take k (segments q2)))\<rparr>"
        "drops k q2 w2"
        using "1.IH" [OF True refl refl rm' nn q1_def q2_def] ss by auto
      have q2: "segments q2 = ss" "cpSeg q2 = cpSeg q" "qio q2 = snd (syncDir w1)"
        by (simp_all add: q2_def q1_def ss)
      have "drops k (q\<lparr>qio := snd (syncDir w1), segments := ss\<rparr>) w2"
        using IH(2) q2 by (simp add: drops_def)
      then have "drops (Suc k) q w2"
        using drops_Suc [OF ss(1) remove_sync_drop [OF rm] _ ss(2)] by blast
      moreover have "enforceCap_loop t q = q\<lparr>qio := w2, segments := drop (Suc k) (segments q),
          droppedUnackedSegments := droppedUnackedSegments q
            + length (unacked (cpSeg q) (take (Suc k) (segments q))),
          droppedUnackedBytes := droppedUnackedBytes q
            + totalBytes (unacked (cpSeg q) (take (Suc k) (segments q)))\<rparr>"
        unfolding eq IH(1) q2 by (simp add: q2_def q1_def ss unacked_def totalBytes_def)
      ultimately show ?thesis using True by (intro exI [of _ "Suc k"] exI [of _ w2]) simp
    qed
  qed
qed

section \<open>The invariant and the abstraction\<close>

fun chained :: "nat \<Rightarrow> walSegment list \<Rightarrow> bool" where
  "chained b [] = True"
| "chained b (s # ss) = (seg_base s = b \<and> chained (b + seg_size s) ss)"

text \<open>The logical content of a segment: the active one includes what is still buffered.\<close>

definition seg_bytes :: "wal_io \<Rightarrow> walSegment \<Rightarrow> bytes" where
  "seg_bytes w s = (if seg_name s = wname w then wbytes w else file_data (dir w) (seg_name s))"

definition seg_ok :: "wal_io \<Rightarrow> walSegment \<Rightarrow> bool" where
  "seg_ok w s \<longleftrightarrow> seg_name s = seg_file_name (seg_idx s) \<and> seg_size s = length (seg_bytes w s)
     \<and> file_exists (dir w) (seg_name s)"

definition table_ok :: "walSegment list \<Rightarrow> bool" where
  "table_ok ss \<longleftrightarrow> ss \<noteq> [] \<and> sorted_wrt (<) (map seg_idx ss) \<and> chained (seg_base (hd ss)) ss"

definition cp_ok :: "nat \<Rightarrow> nat \<Rightarrow> walSegment list \<Rightarrow> bool" where
  "cp_ok cs co ss \<longleftrightarrow> (\<exists>s \<in> set ss. seg_idx s = cs \<and> co \<le> seg_size s) \<or> cs < seg_idx (hd ss)"

text \<open>The checkpoint names a segment of the table, or one below all of them.\<close>

lemma table_idx_le_last: "table_ok ss \<Longrightarrow> s \<in> set ss \<Longrightarrow> seg_idx s \<le> seg_idx (last ss)"
  by (cases ss rule: rev_cases) (auto simp: table_ok_def sorted_wrt_append)

lemma cp_ok_le_last:
  assumes "table_ok ss" "cp_ok cs co ss"
  shows "cs \<le> seg_idx (last ss)"
proof -
  have "hd ss \<in> set ss" using assms(1) by (simp add: table_ok_def)
  from table_idx_le_last [OF assms(1) this] table_idx_le_last [OF assms(1)] assms(2)
  show ?thesis by (auto simp: cp_ok_def)
qed

lemma cp_ok_in: "table_ok ss \<Longrightarrow> cp_ok cs co ss \<Longrightarrow> s \<in> set ss \<Longrightarrow> seg_idx s = cs \<Longrightarrow> co \<le> seg_size s"
proof -
  assume t: "table_ok ss" and c: "cp_ok cs co ss" and s: "s \<in> set ss" "seg_idx s = cs"
  have d: "distinct (map seg_idx ss)" using t by (simp add: table_ok_def strict_sorted_iff)
  have "\<not> cs < seg_idx (hd ss)"
    using t s by (cases ss) (auto simp: table_ok_def)
  then obtain s' where "s' \<in> set ss" "seg_idx s' = cs" "co \<le> seg_size s'"
    using c by (auto simp: cp_ok_def)
  with s d show "co \<le> seg_size s" by (metis distinct_map inj_onD)
qed

lemma cp_ok_drop:
  assumes t: "table_ok ss" and c: "cp_ok cs co ss" and k: "k < length ss"
  shows "cp_ok cs co (drop k ss)"
proof (cases "cs < seg_idx (hd (drop k ss))")
  case False
  have sp: "ss = take k ss @ drop k ss" by simp
  have "sorted_wrt (<) (map seg_idx (take k ss) @ map seg_idx (drop k ss))"
    using t by (simp add: table_ok_def flip: map_append)
  then have lt: "x \<in> set (take k ss) \<Longrightarrow> seg_idx x < seg_idx (hd (drop k ss))" for x
    using k by (auto simp: sorted_wrt_append hd_conv_nth Cons_nth_drop_Suc [symmetric])
  have "\<not> cs < seg_idx (hd ss)"
  proof (cases "k = 0")
    case True
    then show ?thesis using False by simp
  next
    case k0: False
    then have "hd ss \<in> set (take k ss)" using k by (cases ss; cases k) auto
    then show ?thesis using lt False by fastforce
  qed
  then obtain s where s: "s \<in> set ss" "seg_idx s = cs" "co \<le> seg_size s"
    using c by (auto simp: cp_ok_def)
  then have "s \<in> set (drop k ss)" using lt False sp by (metis UnE set_append)
  with s show ?thesis by (auto simp: cp_ok_def)
qed (simp add: cp_ok_def)

definition wal_inv :: "diskQueue \<Rightarrow> bool" where
  "wal_inv q \<longleftrightarrow> table_ok (segments q) \<and> (\<forall>s \<in> set (segments q). seg_ok (qio q) s)
     \<and> activeIdx q = seg_idx (last (segments q)) \<and> wname (qio q) = seg_name (last (segments q))
     \<and> offset q = seg_base (last (segments q)) + seg_size (last (segments q))
     \<and> synced_ok (qio q) \<and> syncedOffset q \<le> offset q
     \<and> cp_ok (cpSeg q) (cpOff q) (segments q)
     \<and> (\<forall>i > activeIdx q. file_data (dir (qio q)) (seg_file_name i) = [])"

text \<open>The bytes after the checkpoint: what a replay of the log would read.\<close>

definition pend_seg :: "nat \<Rightarrow> nat \<Rightarrow> wal_io \<Rightarrow> walSegment \<Rightarrow> bytes" where
  "pend_seg cs co w s = (if seg_idx s < cs then [] else if seg_idx s = cs
     then drop co (seg_bytes w s) else seg_bytes w s)"

definition pend :: "diskQueue \<Rightarrow> bytes" where
  "pend q = concat (map (pend_seg (cpSeg q) (cpOff q) (qio q)) (segments q))"

text \<open>
  Every byte from \<open>o0\<close> up to \<open>syncedOffset\<close> lies in the durable prefix of its file, and a segment
  sealed since \<open>o0\<close> is durable as a whole; \<open>o0\<close> is the end of the log when the process opened it.
\<close>

definition covered_to :: "diskQueue \<Rightarrow> walSegment \<Rightarrow> nat" where
  "covered_to q s = min (seg_base s + seg_size s) (syncedOffset q)"

definition wal_durable :: "nat \<Rightarrow> diskQueue \<Rightarrow> bool" where
  "wal_durable o0 q \<longleftrightarrow>
     (\<forall>s \<in> set (butlast (segments q)). o0 < seg_base s + seg_size s
        \<longrightarrow> seg_size s \<le> file_synced (dir (qio q)) (seg_name s))
     \<and> (o0 < covered_to q (last (segments q)) \<longrightarrow> covered_to q (last (segments q))
          \<le> seg_base (last (segments q)) + file_synced (dir (qio q)) (seg_name (last (segments q))))"

definition ends_nl :: "bytes \<Rightarrow> bool" where
  "ends_nl d \<longleftrightarrow> d = [] \<or> last d = nl"

text \<open>Every segment ends at a newline: true as long as no write has failed.\<close>

definition framed :: "diskQueue \<Rightarrow> bool" where
  "framed q \<longleftrightarrow> (\<forall>s \<in> set (segments q). ends_nl (seg_bytes (qio q) s))"

definition io_same :: "wal_io \<Rightarrow> wal_io \<Rightarrow> bool" where
  "io_same w w1 \<longleftrightarrow> wname w1 = wname w \<and> wbytes w1 = wbytes w \<and> (synced_ok w \<longrightarrow> synced_ok w1)
     \<and> (\<forall>n. n \<noteq> checkpointName \<longrightarrow>
          (n \<noteq> wname w \<longrightarrow> file_data (dir w1) n = file_data (dir w) n)
          \<and> (file_exists (dir w) n \<longrightarrow> file_exists (dir w1) n)
          \<and> file_synced (dir w) n \<le> file_synced (dir w1) n)"

lemma io_same_refl [simp]: "io_same w w"
  by (simp add: io_same_def)

lemma io_sameD:
  assumes "io_same w w1"
  shows "wname w1 = wname w" "wbytes w1 = wbytes w" "synced_ok w \<Longrightarrow> synced_ok w1"
    "n \<noteq> checkpointName \<Longrightarrow> n \<noteq> wname w \<Longrightarrow> file_data (dir w1) n = file_data (dir w) n"
    "n \<noteq> checkpointName \<Longrightarrow> file_exists (dir w) n \<Longrightarrow> file_exists (dir w1) n"
    "n \<noteq> checkpointName \<Longrightarrow> file_synced (dir w) n \<le> file_synced (dir w1) n"
  using assms by (simp_all add: io_same_def)

lemma io_same_trans:
  assumes a: "io_same w w1" and b: "io_same w1 w2"
  shows "io_same w w2"
  unfolding io_same_def
proof (intro conjI allI impI)
  fix n assume n: "n \<noteq> checkpointName"
  show "file_data (dir w2) n = file_data (dir w) n" if "n \<noteq> wname w"
    using that io_sameD [OF a] io_sameD [OF b] n by simp
  show "file_exists (dir w2) n" if "file_exists (dir w) n"
    using that io_sameD(5) [OF a] io_sameD(5) [OF b] n by simp
  show "file_synced (dir w) n \<le> file_synced (dir w2) n"
    using io_sameD(6) [OF a n] io_sameD(6) [OF b n] by simp
qed (use io_sameD [OF a] io_sameD [OF b] in simp_all)

lemma io_same_env [simp]: "io_same w (w\<lparr>env := e\<rparr>)"
  by (simp add: io_same_def wbytes_def)

lemma io_same_wopen [simp]: "io_same w (w\<lparr>wopen := b\<rparr>)"
  by (simp add: io_same_def wbytes_def synced_ok_def)

lemma io_same_call: "os_call w = (ok, w1) \<Longrightarrow> io_same w w1"
  by (auto simp: os_call_eq)

lemma io_same_syncDir: "syncDir w = (ok, w1) \<Longrightarrow> io_same w w1"
  by (metis io_same_env snd_conv syncDir_env)

lemma io_same_ext: "io_ext w w1 \<Longrightarrow> wbytes w1 = wbytes w \<Longrightarrow> (synced_ok w \<Longrightarrow> synced_ok w1)
    \<Longrightarrow> io_same w w1"
  unfolding io_same_def io_ext_def by (auto, (case_tac "n = wname w", auto)+)

lemma io_same_flush: "bufio_flush w = (ok, w1) \<Longrightarrow> io_same w w1"
  by (rule io_same_ext) (auto dest: bufio_flush_spec)

lemma io_same_sync: "os_sync w = (ok, w1) \<Longrightarrow> synced_ok w \<Longrightarrow> io_same w w1"
  by (rule io_same_ext) (auto dest: os_sync_ext os_sync_spec)

lemma io_same_create: "os_create n w = (ok, w1) \<Longrightarrow> n \<noteq> wname w \<Longrightarrow> io_same w w1"
  by (auto simp: os_create_def os_call_eq io_same_def wbytes_def synced_ok_def put_file_other_if
      split: if_splits) (auto simp: file_exists_def file_data_def file_synced_def)

lemma io_same_atomicWrite:
  assumes "atomicWrite0600 checkpointName data w = (ok, w1)" "wname w \<noteq> checkpointName"
  shows "io_same w w1"
proof -
  obtain ok6 w6 where w6: "os_calls 6 w = (ok6, w6)" by fastforce
  obtain e where e: "w6 = w\<lparr>env := e\<rparr>" using os_calls_frame [of 6 w] w6 by auto
  let ?w = "w6\<lparr>dir := put_file checkpointName data (length data) (dir w6)\<rparr>"
  obtain e' where e': "snd (os_calls 3 ?w) = ?w\<lparr>env := e'\<rparr>" using os_calls_frame by blast
  have "io_same w (?w\<lparr>env := e'\<rparr>)"
    using assms(2) by (auto simp: e io_same_def wbytes_def synced_ok_def put_file_other_if)
  then show ?thesis
    using assms(1) w6 e e' by (auto simp: atomicWrite0600_def split: if_splits)
qed

lemma seg_bytes_same:
  "io_same w w1 \<Longrightarrow> seg_name s \<noteq> checkpointName \<Longrightarrow> seg_bytes w1 s = seg_bytes w s"
  by (auto simp: seg_bytes_def io_same_def)

lemma seg_ok_same: "io_same w w1 \<Longrightarrow> seg_ok w s \<Longrightarrow> seg_ok w1 s"
  using seg_bytes_same [of w w1 s] by (auto simp: seg_ok_def io_same_def)

lemma seg_ok_not_checkpoint: "seg_ok w s \<Longrightarrow> seg_name s \<noteq> checkpointName"
  by (simp add: seg_ok_def)

lemma wal_inv_not_checkpoint: "wal_inv q \<Longrightarrow> wname (qio q) \<noteq> checkpointName"
  by (auto simp: wal_inv_def table_ok_def seg_ok_def)

lemma wal_inv_active_name: "wal_inv q \<Longrightarrow> wname (qio q) = seg_file_name (activeIdx q)"
  by (auto simp: wal_inv_def table_ok_def seg_ok_def)

lemma wal_inv_io:
  assumes I: "wal_inv q" and S: "io_same (qio q) w1"
  shows "wal_inv (q\<lparr>qio := w1\<rparr>)"
proof -
  have "file_data (dir w1) (seg_file_name i) = []" if "i > activeIdx q" for i
  proof -
    have "seg_file_name i \<noteq> wname (qio q)"
      using that wal_inv_active_name [OF I] by (auto dest: seg_file_name_inj)
    then show ?thesis using I that io_sameD(4) [OF S] by (simp add: wal_inv_def)
  qed
  then show ?thesis
    using I S by (auto simp: wal_inv_def io_same_def intro: seg_ok_same [of "qio q"])
qed

lemma pend_io: "wal_inv q \<Longrightarrow> io_same (qio q) w1 \<Longrightarrow> pend (q\<lparr>qio := w1\<rparr>) = pend q"
  using seg_bytes_same [of "qio q" w1] seg_ok_not_checkpoint
  by (auto simp: pend_def pend_seg_def wal_inv_def intro!: arg_cong [of _ _ concat] map_cong)

lemma framed_io: "wal_inv q \<Longrightarrow> io_same (qio q) w1 \<Longrightarrow> framed q \<Longrightarrow> framed (q\<lparr>qio := w1\<rparr>)"
  using seg_bytes_same [of "qio q" w1] seg_ok_not_checkpoint
  by (auto simp: framed_def wal_inv_def)

lemma wal_durable_transfer:
  assumes D: "wal_durable o0 q" and b: "set (butlast (segments q1)) \<subseteq> set (butlast (segments q))"
    and l: "last (segments q1) = last (segments q)" and y: "syncedOffset q1 = syncedOffset q"
    and m: "\<And>s. s \<in> set (butlast (segments q1)) \<or> s = last (segments q)
      \<Longrightarrow> file_synced (dir (qio q)) (seg_name s) \<le> file_synced (dir (qio q1)) (seg_name s)"
  shows "wal_durable o0 q1"
  unfolding wal_durable_def
proof (intro conjI ballI impI)
  fix s assume s: "s \<in> set (butlast (segments q1))" "o0 < seg_base s + seg_size s"
  then have "seg_size s \<le> file_synced (dir (qio q)) (seg_name s)"
    using D b by (auto simp: wal_durable_def)
  with m [of s] s show "seg_size s \<le> file_synced (dir (qio q1)) (seg_name s)" by simp
next
  assume "o0 < covered_to q1 (last (segments q1))"
  then have "covered_to q (last (segments q)) \<le> seg_base (last (segments q))
      + file_synced (dir (qio q)) (seg_name (last (segments q)))"
    using D l y by (simp add: wal_durable_def covered_to_def)
  with m [of "last (segments q)"] l y
  show "covered_to q1 (last (segments q1)) \<le> seg_base (last (segments q1))
      + file_synced (dir (qio q1)) (seg_name (last (segments q1)))"
    by (simp add: covered_to_def)
qed

lemma wal_durable_io:
  assumes I: "wal_inv q" and D: "wal_durable o0 q" and S: "io_same (qio q) w1"
  shows "wal_durable o0 (q\<lparr>qio := w1\<rparr>)"
proof (rule wal_durable_transfer [OF D])
  fix s assume s: "s \<in> set (butlast (segments (q\<lparr>qio := w1\<rparr>))) \<or> s = last (segments q)"
  have "s \<in> set (segments q)"
    using I s by (auto simp: wal_inv_def table_ok_def dest: in_set_butlastD)
  then have "seg_name s \<noteq> checkpointName" using I by (auto simp: wal_inv_def seg_ok_def)
  from io_sameD(6) [OF S this]
  show "file_synced (dir (qio q)) (seg_name s) \<le> file_synced (dir (qio (q\<lparr>qio := w1\<rparr>))) (seg_name s)"
    by simp
qed auto

section \<open>Dropping a prefix of the table\<close>

lemma chained_drop:
  "chained b ss \<Longrightarrow> k < length ss \<Longrightarrow> chained (seg_base (hd (drop k ss))) (drop k ss)"
proof (induction k arbitrary: b ss)
  case 0
  then show ?case by (cases ss) auto
next
  case (Suc k)
  then show ?case by (cases ss) auto
qed

lemma table_ok_drop: "table_ok ss \<Longrightarrow> k < length ss \<Longrightarrow> table_ok (drop k ss)"
  by (auto simp: table_ok_def sorted_wrt_drop chained_drop drop_map [symmetric])

lemma chained_append:
  "ss \<noteq> [] \<Longrightarrow> chained b (ss @ [s]) =
     (chained b ss \<and> seg_base s = seg_base (last ss) + seg_size (last ss))"
  by (induction ss arbitrary: b) auto

lemma table_ok_append:
  assumes t: "table_ok ss" and i: "seg_idx (last ss) < seg_idx s"
    and b: "seg_base s = seg_base (last ss) + seg_size (last ss)"
  shows "table_ok (ss @ [s])"
proof -
  have ne: "ss \<noteq> []" using t by (simp add: table_ok_def)
  have "\<forall>x \<in> set ss. seg_idx x < seg_idx s"
    using t i by (cases ss rule: rev_cases) (auto simp: table_ok_def sorted_wrt_append)
  then show ?thesis
    using t b ne by (simp add: table_ok_def sorted_wrt_append chained_append)
qed

lemma table_ok_distinct: "table_ok ss \<Longrightarrow> distinct (map seg_idx ss)"
  by (simp add: table_ok_def strict_sorted_iff)

lemma wal_inv_names_distinct: "wal_inv q \<Longrightarrow> distinct (map seg_name (segments q))"
proof -
  assume I: "wal_inv q"
  then have "map seg_name (segments q) = map seg_file_name (map seg_idx (segments q))"
    by (auto simp: wal_inv_def seg_ok_def)
  moreover have "distinct (map seg_file_name (map seg_idx (segments q)))"
    using I table_ok_distinct
    by (subst distinct_map) (auto simp: wal_inv_def intro: inj_onI dest: seg_file_name_inj)
  ultimately show ?thesis by (simp only:)
qed

lemma distinct_take_drop:
  "distinct (map f xs) \<Longrightarrow> x \<in> set (drop k xs) \<Longrightarrow> f x \<notin> f ` set (take k xs)"
proof -
  assume d: "distinct (map f xs)" and x: "x \<in> set (drop k xs)"
  have "distinct (map f (take k xs) @ map f (drop k xs))"
    using d by (simp flip: map_append)
  then show ?thesis using x by auto
qed

lemma drops_seg:
  assumes "wal_inv q" "drops k q w1" "s \<in> set (drop k (segments q))"
  shows "seg_bytes w1 s = seg_bytes (qio q) s" "seg_ok w1 s"
    "file_synced (dir w1) (seg_name s) = file_synced (dir (qio q)) (seg_name s)"
proof -
  let ?N = "seg_name ` set (take k (segments q))"
  have ne: "segments q \<noteq> []" and k: "k < length (segments q)"
    using assms by (auto simp: drops_def wal_inv_def table_ok_def)
  have D: "io_drop ?N (qio q) w1" using assms by (simp add: drops_def)
  have d: "distinct (map seg_name (segments q))" by (rule wal_inv_names_distinct [OF assms(1)])
  have s: "seg_name s \<notin> ?N" by (rule distinct_take_drop [OF d assms(3)])
  have "last (segments q) \<in> set (drop k (segments q))"
    using k by (metis drop_eq_Nil last_drop last_in_set not_less)
  then have "seg_name (last (segments q)) \<notin> ?N" by (rule distinct_take_drop [OF d])
  then have wn: "wname (qio q) \<notin> ?N" using assms(1) by (simp add: wal_inv_def)
  have wb: "wbytes w1 = wbytes (qio q)" using D wn by (simp add: io_drop_def wbytes_def)
  show sb: "seg_bytes w1 s = seg_bytes (qio q) s"
    using D s wb by (simp add: seg_bytes_def io_drop_def)
  have "seg_ok (qio q) s" using assms(1,3) by (auto simp: wal_inv_def dest: in_set_dropD)
  moreover have ex: "file_exists (dir w1) (seg_name s) = file_exists (dir (qio q)) (seg_name s)"
    using D s by (simp add: io_drop_def)
  ultimately show "seg_ok w1 s" using sb ex unfolding seg_ok_def by metis
  show "file_synced (dir w1) (seg_name s) = file_synced (dir (qio q)) (seg_name s)"
    using D s by (simp add: io_drop_def)
qed

lemma drops_inv:
  assumes "wal_inv q" "drops k q w1"
  shows "wal_inv (q\<lparr>qio := w1, segments := drop k (segments q)\<rparr>)"
proof -
  have k: "k < length (segments q)"
    using assms by (auto simp: drops_def wal_inv_def table_ok_def)
  have w: "wname w1 = wname (qio q)" "synced_ok (qio q) \<Longrightarrow> synced_ok w1"
    using assms(2) by (simp_all add: drops_def io_drop_def)
  have "file_data (dir w1) (seg_file_name i) = []" if i: "i > activeIdx q" for i
  proof -
    have "seg_file_name i \<noteq> seg_name s" if "s \<in> set (segments q)" for s
    proof -
      have "seg_idx s \<le> activeIdx q"
        using assms(1) that by (cases "segments q" rule: rev_cases)
          (auto simp: wal_inv_def table_ok_def sorted_wrt_append)
      with i assms(1) that show ?thesis
        by (auto simp: wal_inv_def seg_ok_def dest: seg_file_name_inj)
    qed
    then have "seg_file_name i \<notin> seg_name ` set (take k (segments q))"
      by (auto dest: in_set_takeD)
    then show ?thesis using assms i by (simp add: drops_def io_drop_def wal_inv_def)
  qed
  then show ?thesis
    using assms(1) k w drops_seg [OF assms] table_ok_drop [of "segments q" k]
      cp_ok_drop [of "segments q" "cpSeg q" "cpOff q" k]
    by (auto simp: wal_inv_def dest: in_set_dropD)
qed

lemma drops_pend:
  assumes "wal_inv q" "drops k q w1"
  shows "pend (q\<lparr>qio := w1, segments := drop k (segments q)\<rparr>)
    = concat (map (pend_seg (cpSeg q) (cpOff q) (qio q)) (drop k (segments q)))"
  using drops_seg(1) [OF assms]
  by (auto simp: pend_def pend_seg_def intro!: arg_cong [of _ _ concat] map_cong)

lemma drops_durable:
  assumes "wal_inv q" "drops k q w1" "wal_durable o0 q"
  shows "wal_durable o0 (q\<lparr>qio := w1, segments := drop k (segments q)\<rparr>)"
proof (rule wal_durable_transfer [OF assms(3)])
  have k: "k < length (segments q)"
    using assms by (auto simp: drops_def wal_inv_def table_ok_def)
  show "set (butlast (segments (q\<lparr>qio := w1, segments := drop k (segments q)\<rparr>)))
      \<subseteq> set (butlast (segments q))"
    by (auto simp: butlast_drop dest: in_set_dropD)
  show "last (segments (q\<lparr>qio := w1, segments := drop k (segments q)\<rparr>)) = last (segments q)"
    using k by simp
  fix s assume s: "s \<in> set (butlast (segments (q\<lparr>qio := w1, segments := drop k (segments q)\<rparr>)))
      \<or> s = last (segments q)"
  have "last (segments q) \<in> set (drop k (segments q))"
    using k by (metis drop_eq_Nil last_drop last_in_set not_less)
  with s have "s \<in> set (drop k (segments q))" by (auto dest: in_set_butlastD)
  from drops_seg(3) [OF assms(1,2) this]
  show "file_synced (dir (qio q)) (seg_name s)
      \<le> file_synced (dir (qio (q\<lparr>qio := w1, segments := drop k (segments q)\<rparr>))) (seg_name s)"
    by simp
qed simp

text \<open>Dropping segments that hold nothing pending leaves the pending bytes alone.\<close>

lemma concat_map_drop_Nil:
  assumes "\<forall>s \<in> set (take k ss). f s = []"
  shows "concat (map f (drop k ss)) = concat (map f ss)"
proof -
  have "concat (map f ss) = concat (map f (take k ss)) @ concat (map f (drop k ss))"
    by (metis append_take_drop_id concat_append map_append)
  then show ?thesis using assms by simp
qed

lemma gcSegments_inv [inv_intros]: "wal_inv q \<Longrightarrow> wal_inv (gcSegmentsLocked q)"
  using gcSegments_spec [of q] drops_inv by metis

lemma gcSegments_pend: "wal_inv q \<Longrightarrow> pend (gcSegmentsLocked q) = pend q"
proof -
  assume I: "wal_inv q"
  obtain k w1 where g: "gcSegmentsLocked q = q\<lparr>qio := w1, segments := drop k (segments q)\<rparr>"
    "drops k q w1" "\<forall>s \<in> set (take k (segments q)). seg_idx s < cpSeg q"
    using gcSegments_spec by blast
  show ?thesis
    unfolding g(1) drops_pend [OF I g(2)] unfolding pend_def
    by (rule concat_map_drop_Nil) (use g(3) in \<open>simp add: pend_seg_def\<close>)
qed

lemma drops_framed:
  assumes "wal_inv q" "drops k q w1" "framed q"
  shows "framed (q\<lparr>qio := w1, segments := drop k (segments q)\<rparr>)"
  using drops_seg(1) [OF assms(1,2)] assms(3) by (auto simp: framed_def dest: in_set_dropD)

lemma gcSegments_framed: "wal_inv q \<Longrightarrow> framed q \<Longrightarrow> framed (gcSegmentsLocked q)"
  using gcSegments_spec [of q] drops_framed by metis

lemma gcSegments_durable:
  "wal_inv q \<Longrightarrow> wal_durable o0 q \<Longrightarrow> wal_durable o0 (gcSegmentsLocked q)"
  using gcSegments_spec [of q] drops_durable by metis

lemma gcSegments_frame [frame_simps]:
  "activeIdx (gcSegmentsLocked q) = activeIdx q" "offset (gcSegmentsLocked q) = offset q"
  "cpSeg (gcSegmentsLocked q) = cpSeg q" "cpOff (gcSegmentsLocked q) = cpOff q"
  "stopped (gcSegmentsLocked q) = stopped q" "lastErr (gcSegmentsLocked q) = lastErr q"
  "lossySync (gcSegmentsLocked q) = lossySync q" "waiters (gcSegmentsLocked q) = waiters q"
  "maxBytes (gcSegmentsLocked q) = maxBytes q"
  "maxTotalBytes (gcSegmentsLocked q) = maxTotalBytes q"
  "syncedOffset (gcSegmentsLocked q) = syncedOffset q"
  "droppedUnackedSegments (gcSegmentsLocked q) = droppedUnackedSegments q"
  "droppedUnackedBytes (gcSegmentsLocked q) = droppedUnackedBytes q"
  "refusedHighWater (gcSegmentsLocked q) = refusedHighWater q"
  "unsyncedEvents (gcSegmentsLocked q) = unsyncedEvents q"
  "groupDelay (gcSegmentsLocked q) = groupDelay q"
  "dirtySinceFlush (gcSegmentsLocked q) = dirtySinceFlush q"
  using gcSegments_spec [of q] by auto

lemma gcSegments_segments:
  "\<exists>k. segments (gcSegmentsLocked q) = drop k (segments q) \<and> (k = 0 \<or> k < length (segments q))
     \<and> (\<forall>s \<in> set (take k (segments q)). seg_idx s < cpSeg q)"
proof -
  obtain k w1 where g: "gcSegmentsLocked q = q\<lparr>qio := w1, segments := drop k (segments q)\<rparr>"
    "drops k q w1" "\<forall>s \<in> set (take k (segments q)). seg_idx s < cpSeg q"
    using gcSegments_spec by blast
  then show ?thesis by (intro exI [of _ k]) (simp add: drops_def)
qed

end
