(* ===== verification/WalOps.thy ===== *)
theory WalOps
  imports WalInvariant
begin

text \<open>
  The contracts of the log's operations: each keeps \<open>wal_inv\<close> and \<open>wal_durable\<close> and changes the
  pending bytes as its specification says, for every outcome of the calls it makes.
\<close>

section \<open>Fields no operation touches\<close>

definition same_config :: "diskQueue \<Rightarrow> diskQueue \<Rightarrow> bool" where
  "same_config q q1 \<longleftrightarrow> maxBytes q1 = maxBytes q \<and> maxTotalBytes q1 = maxTotalBytes q
     \<and> lossySync q1 = lossySync q \<and> groupDelay q1 = groupDelay q \<and> stopped q1 = stopped q
     \<and> waiters q1 = waiters q"

lemma same_config_refl [simp]: "same_config q q"
  by (simp add: same_config_def)

lemma same_config_trans: "same_config q q1 \<Longrightarrow> same_config q1 q2 \<Longrightarrow> same_config q q2"
  by (simp add: same_config_def)

lemma gc_config [simp]: "same_config q (gcSegmentsLocked q)"
  by (simp add: same_config_def frame_simps)

lemma latch_eq: "latch e q = (Some (case lastErr q of None \<Rightarrow> e | Some e0 \<Rightarrow> e0),
    q\<lparr>lastErr := Some (case lastErr q of None \<Rightarrow> e | Some e0 \<Rightarrow> e0)\<rparr>)"
  by (cases q) (auto simp: latch_def setErrLocked_def split: option.splits)

text \<open>Updates the invariant does not read.\<close>

lemma wal_inv_ghost [simp]:
  "wal_inv (q\<lparr>lastErr := e\<rparr>) = wal_inv q" "wal_inv (q\<lparr>unsyncedEvents := n\<rparr>) = wal_inv q"
  "wal_inv (q\<lparr>dirtySinceFlush := b\<rparr>) = wal_inv q" "wal_inv (q\<lparr>refusedHighWater := n\<rparr>) = wal_inv q"
  "wal_inv (q\<lparr>droppedUnackedSegments := n\<rparr>) = wal_inv q"
  "wal_inv (q\<lparr>droppedUnackedBytes := n\<rparr>) = wal_inv q" "wal_inv (q\<lparr>waiters := ws\<rparr>) = wal_inv q"
  "wal_inv (q\<lparr>stopped := b\<rparr>) = wal_inv q"
  by (simp_all add: wal_inv_def)

lemma pend_ghost [simp]:
  "pend (q\<lparr>lastErr := e\<rparr>) = pend q" "pend (q\<lparr>unsyncedEvents := n\<rparr>) = pend q"
  "pend (q\<lparr>dirtySinceFlush := b\<rparr>) = pend q" "pend (q\<lparr>refusedHighWater := n\<rparr>) = pend q"
  "pend (q\<lparr>droppedUnackedSegments := n\<rparr>) = pend q" "pend (q\<lparr>droppedUnackedBytes := n\<rparr>) = pend q"
  "pend (q\<lparr>syncedOffset := n\<rparr>) = pend q" "pend (q\<lparr>waiters := ws\<rparr>) = pend q"
  "pend (q\<lparr>stopped := b\<rparr>) = pend q" "pend (q\<lparr>offset := n\<rparr>) = pend q"
  "pend (q\<lparr>activeIdx := n\<rparr>) = pend q"
  by (simp_all add: pend_def)

lemma framed_ghost [simp]:
  "framed (q\<lparr>lastErr := e\<rparr>) = framed q" "framed (q\<lparr>unsyncedEvents := n\<rparr>) = framed q"
  "framed (q\<lparr>dirtySinceFlush := b\<rparr>) = framed q" "framed (q\<lparr>refusedHighWater := n\<rparr>) = framed q"
  "framed (q\<lparr>droppedUnackedSegments := n\<rparr>) = framed q" "framed (q\<lparr>droppedUnackedBytes := n\<rparr>) = framed q"
  "framed (q\<lparr>syncedOffset := n\<rparr>) = framed q" "framed (q\<lparr>waiters := ws\<rparr>) = framed q"
  "framed (q\<lparr>stopped := b\<rparr>) = framed q" "framed (q\<lparr>offset := n\<rparr>) = framed q"
  "framed (q\<lparr>cpSeg := n\<rparr>) = framed q" "framed (q\<lparr>cpOff := n\<rparr>) = framed q"
  by (simp_all add: framed_def)

lemma wal_durable_ghost [simp]:
  "wal_durable o0 (q\<lparr>lastErr := e\<rparr>) = wal_durable o0 q"
  "wal_durable o0 (q\<lparr>unsyncedEvents := n\<rparr>) = wal_durable o0 q"
  "wal_durable o0 (q\<lparr>dirtySinceFlush := b\<rparr>) = wal_durable o0 q"
  "wal_durable o0 (q\<lparr>refusedHighWater := n\<rparr>) = wal_durable o0 q"
  "wal_durable o0 (q\<lparr>droppedUnackedSegments := n\<rparr>) = wal_durable o0 q"
  "wal_durable o0 (q\<lparr>droppedUnackedBytes := n\<rparr>) = wal_durable o0 q"
  "wal_durable o0 (q\<lparr>waiters := ws\<rparr>) = wal_durable o0 q"
  "wal_durable o0 (q\<lparr>stopped := b\<rparr>) = wal_durable o0 q"
  "wal_durable o0 (q\<lparr>cpSeg := n\<rparr>) = wal_durable o0 q"
  "wal_durable o0 (q\<lparr>cpOff := n\<rparr>) = wal_durable o0 q"
  by (simp_all add: wal_durable_def covered_to_def)

lemma wal_inv_synced: "wal_inv q \<Longrightarrow> wal_inv (q\<lparr>syncedOffset := offset q\<rparr>)"
  by (simp add: wal_inv_def)

text \<open>A flush and a sync together make the whole active file durable.\<close>

definition active_durable :: "diskQueue \<Rightarrow> bool" where
  "active_durable q \<longleftrightarrow> wbuf (qio q) = []
     \<and> file_synced (dir (qio q)) (wname (qio q)) = length (file_data (dir (qio q)) (wname (qio q)))"

lemma active_durable_size:
  assumes "wal_inv q" "active_durable q"
  shows "file_synced (dir (qio q)) (seg_name (last (segments q))) = seg_size (last (segments q))"
proof -
  have "last (segments q) \<in> set (segments q)" using assms by (simp add: wal_inv_def table_ok_def)
  then have "seg_size (last (segments q)) = length (wbytes (qio q))"
    using assms by (auto simp: wal_inv_def seg_ok_def seg_bytes_def)
  then show ?thesis using assms by (simp add: active_durable_def wbytes_def wal_inv_def)
qed

lemma wal_durable_synced:
  assumes "wal_inv q" "wal_durable o0 q" "active_durable q"
  shows "wal_durable o0 (q\<lparr>syncedOffset := offset q\<rparr>)"
  using assms(2) active_durable_size [OF assms(1,3)]
  by (auto simp: wal_durable_def covered_to_def)

lemma flush_sync_active:
  assumes "bufio_flush w = (True, w1)" "os_sync w1 = (True, w2)"
  shows "wbuf w2 = []" "file_synced (dir w2) (wname w2) = length (file_data (dir w2) (wname w2))"
  using bufio_flush_spec [OF assms(1)] os_sync_spec [OF assms(2)] by simp_all

section \<open>Rolling\<close>

text \<open>What a failed roll may have changed: the file system below the invariant, the latch, coverage.\<close>

definition quiet :: "diskQueue \<Rightarrow> diskQueue \<Rightarrow> bool" where
  "quiet q q1 \<longleftrightarrow> wal_inv q1 \<and> pend q1 = pend q \<and> segments q1 = segments q \<and> offset q1 = offset q
     \<and> activeIdx q1 = activeIdx q \<and> cpSeg q1 = cpSeg q \<and> cpOff q1 = cpOff q \<and> same_config q q1
     \<and> (\<forall>o0. wal_durable o0 q \<longrightarrow> wal_durable o0 q1) \<and> syncedOffset q \<le> syncedOffset q1
     \<and> (framed q \<longrightarrow> framed q1)
     \<and> refusedHighWater q1 = refusedHighWater q
     \<and> droppedUnackedSegments q1 = droppedUnackedSegments q
     \<and> droppedUnackedBytes q1 = droppedUnackedBytes q"

lemma quiet_io: "wal_inv q \<Longrightarrow> io_same (qio q) w1 \<Longrightarrow> quiet q (q\<lparr>qio := w1\<rparr>)"
  by (simp add: quiet_def wal_inv_io pend_io wal_durable_io framed_io same_config_def)

lemma quiet_latch: "quiet q q1 \<Longrightarrow> latch e q1 = (r, q2) \<Longrightarrow> quiet q q2"
  by (auto simp: latch_eq quiet_def same_config_def)

lemma quiet_synced:
  assumes "quiet q q1" "active_durable q1"
  shows "quiet q (q1\<lparr>syncedOffset := offset q1, unsyncedEvents := n\<rparr>)"
proof -
  have "syncedOffset q1 \<le> offset q1" using assms unfolding quiet_def wal_inv_def by blast
  moreover have "wal_inv (q1\<lparr>syncedOffset := offset q1\<rparr>)"
    using assms wal_inv_synced unfolding quiet_def by blast
  moreover have "wal_durable o0 (q1\<lparr>syncedOffset := offset q1\<rparr>)" if "wal_durable o0 q" for o0
    using assms that wal_durable_synced unfolding quiet_def by blast
  ultimately show ?thesis
    using assms(1) by (simp add: quiet_def same_config_def)
qed

definition new_segment :: "diskQueue \<Rightarrow> walSegment" where
  "new_segment q = \<lparr>seg_idx = Suc (activeIdx q),
     seg_base = seg_base (last (segments q)) + seg_size (last (segments q)), seg_size = 0,
     seg_name = segmentFileName (Suc (activeIdx q))\<rparr>"

text \<open>The state a successful roll reaches before the high-water check.\<close>

definition rolled :: "diskQueue \<Rightarrow> wal_io \<Rightarrow> diskQueue" where
  "rolled q w = q\<lparr>syncedOffset := offset q, unsyncedEvents := 0,
     qio := switch_file (segmentFileName (Suc (activeIdx q))) w, activeIdx := Suc (activeIdx q),
     segments := segments q @ [new_segment q]\<rparr>"

text \<open>A roll either fails quietly or leaves the old file durable and goes on to the check.\<close>

lemma rollLocked_cases:
  assumes I: "wal_inv q" and r: "rollLocked q = (r, q')"
  obtains (fail) e where "r = Some e" "quiet q q'"
  | (success) w where "r = None" "io_same (qio q) w" "wbuf w = []"
      "file_synced (dir w) (wname w) = length (file_data (dir w) (wname w))"
      "file_exists (dir w) (segmentFileName (Suc (activeIdx q)))"
      "q' = enforceCapLocked (rolled q w)"
proof -
  let ?n = "segmentFileName (activeIdx q + 1)"
  have n: "?n \<noteq> wname (qio q)" "?n = seg_file_name (Suc (activeIdx q))"
    using wal_inv_active_name [OF I] seg_file_name_inj [of "Suc (activeIdx q)" "activeIdx q"]
    by (auto simp: seg_file_name_def split: if_splits)
  obtain ok1 w1 where s1: "os_create ?n (qio q) = (ok1, w1)" by fastforce
  obtain ok2 w2 where s2: "os_call w1 = (ok2, w2)" by fastforce
  obtain ok3 w3 where s3: "syncDir w2 = (ok3, w3)" by fastforce
  obtain ok4 w4 where s4: "bufio_flush w3 = (ok4, w4)" by fastforce
  obtain ok5 w5 where s5: "os_sync w4 = (ok5, w5)" by fastforce
  obtain ok6 w6 where s6: "os_call w5 = (ok6, w6)" by fastforce
  have sy: "synced_ok (qio q)" using I by (simp add: wal_inv_def)
  have e1: "io_same (qio q) w1" using io_same_create [OF s1 n(1)] .
  have e2: "io_same (qio q) w2" using io_same_trans [OF e1 io_same_call [OF s2]] .
  have e3: "io_same (qio q) w3" using io_same_trans [OF e2 io_same_syncDir [OF s3]] .
  have e4: "io_same (qio q) w4" using io_same_trans [OF e3 io_same_flush [OF s4]] .
  have e5: "io_same (qio q) w5"
    using io_same_trans [OF e4 io_same_sync [OF s5]] sy io_sameD(3) [OF e4] by blast
  have e6: "io_same (qio q) w6" using io_same_trans [OF e5 io_same_call [OF s6]] .
  note steps = s1 s2 s3 s4 s5 s6
  consider (a) "\<not> ok1" | (b) "ok1" "\<not> ok2" | (c) "ok1" "ok2" "\<not> ok3"
    | (d) "ok1" "ok2" "ok3" "\<not> ok4" | (e) "ok1" "ok2" "ok3" "ok4" "\<not> ok5"
    | (f) "ok1" "ok2" "ok3" "ok4" "ok5" by blast
  then show thesis
  proof cases
    case a
    with r steps have "r = Some ErrRollCreate" "q' = q\<lparr>qio := w1\<rparr>"
      by (simp_all add: rollLocked_def)
    with fail quiet_io [OF I e1] show thesis by blast
  next
    case b
    with r steps have "r = Some ErrRollSecure" "q' = q\<lparr>qio := w2\<rparr>"
      by (simp_all add: rollLocked_def)
    with fail quiet_io [OF I e2] show thesis by blast
  next
    case c
    with r steps have "latch ErrRollDirSync (q\<lparr>qio := w3\<rparr>) = (r, q')"
      by (simp add: rollLocked_def)
    then show thesis using fail quiet_latch [OF quiet_io [OF I e3]] by (auto simp: latch_eq)
  next
    case d
    with r steps have "latch ErrRollFlush (q\<lparr>qio := w4\<rparr>) = (r, q')"
      by (simp add: rollLocked_def)
    then show thesis using fail quiet_latch [OF quiet_io [OF I e4]] by (auto simp: latch_eq)
  next
    case e
    with r steps have "latch ErrRollSync (q\<lparr>qio := w5\<rparr>) = (r, q')"
      by (simp add: rollLocked_def)
    then show thesis using fail quiet_latch [OF quiet_io [OF I e5]] by (auto simp: latch_eq)
  next
    case f
    note D = flush_sync_active [of w3 w4 w5]
    have d5: "wbuf w5 = []" "file_synced (dir w5) (wname w5) = length (file_data (dir w5) (wname w5))"
      using D s4 s5 f by auto
    have w6: "w6 = w5\<lparr>env := tl (env w5)\<rparr>" using s6 by (simp add: os_call_eq)
    have ex1: "file_exists (dir w1) ?n"
      using s1 f by (auto simp: os_create_def os_call_eq split: if_splits)
    have cn: "?n \<noteq> checkpointName" by (simp add: segmentFileName_not_special)
    have ex2: "file_exists (dir w2) ?n" using io_sameD(5) [OF io_same_call [OF s2] cn ex1] .
    have ex3: "file_exists (dir w3) ?n" using io_sameD(5) [OF io_same_syncDir [OF s3] cn ex2] .
    have ex4: "file_exists (dir w4) ?n" using io_sameD(5) [OF io_same_flush [OF s4] cn ex3] .
    have "io_same w4 w5" using io_same_sync [OF s5] sy io_sameD(3) [OF e4] by blast
    from io_sameD(5) [OF this cn ex4] have ex6: "file_exists (dir w6) ?n" by (simp add: w6)
    show thesis
    proof (cases ok6)
      case False
      let ?q5 = "q\<lparr>syncedOffset := offset q, unsyncedEvents := 0, qio := w6\<lparr>wopen := False\<rparr>\<rparr>"
      from False f r steps have L: "latch ErrRollClose ?q5 = (r, q')"
        by (simp add: rollLocked_def Let_def)
      have e6': "io_same (qio q) (w6\<lparr>wopen := False\<rparr>)"
        using io_same_trans [OF e6 io_same_wopen] .
      have "quiet q ((q\<lparr>qio := w6\<lparr>wopen := False\<rparr>\<rparr>)\<lparr>syncedOffset := offset (q\<lparr>qio := w6\<lparr>wopen := False\<rparr>\<rparr>),
          unsyncedEvents := 0\<rparr>)"
        by (rule quiet_synced [OF quiet_io [OF I e6']]) (use d5 in \<open>simp add: active_durable_def w6\<close>)
      then have "quiet q ?q5" by (cases q) simp
      then show thesis using fail quiet_latch [OF _ L] L by (auto simp: latch_eq)
    next
      case True
      have "r = None" "q' = enforceCapLocked (rolled q w6)"
        using True f r steps
        by (simp_all add: rollLocked_def Let_def rolled_def new_segment_def)
      moreover have "wbuf w6 = []"
        "file_synced (dir w6) (wname w6) = length (file_data (dir w6) (wname w6))"
        using d5 by (simp_all add: w6)
      ultimately show thesis using success [of w6] e6 ex6 by simp
    qed
  qed
qed

lemma seg_bytes_rolled:
  assumes I: "wal_inv q" and S: "io_same (qio q) w" and b: "wbuf w = []"
    and s: "s \<in> set (segments q)"
  shows "seg_bytes (switch_file (segmentFileName (Suc (activeIdx q))) w) s = seg_bytes (qio q) s"
proof -
  let ?n = "segmentFileName (Suc (activeIdx q))"
  have n: "?n = seg_file_name (Suc (activeIdx q))" by (simp add: seg_file_name_def)
  have le: "seg_idx s \<le> activeIdx q"
    using I s by (cases "segments q" rule: rev_cases)
      (auto simp: wal_inv_def table_ok_def sorted_wrt_append)
  have nm: "seg_name s = seg_file_name (seg_idx s)" using I s by (simp add: wal_inv_def seg_ok_def)
  then have ne: "seg_name s \<noteq> ?n" using le n by (auto dest: seg_file_name_inj)
  have "seg_bytes (switch_file ?n w) s = seg_bytes w s"
    using ne b by (simp add: seg_bytes_def switch_file_def wbytes_def)
  also have "\<dots> = seg_bytes (qio q) s"
    using seg_bytes_same [OF S] nm by simp
  finally show ?thesis .
qed

lemma new_file_empty:
  assumes I: "wal_inv q" and S: "io_same (qio q) w"
  shows "file_data (dir w) (segmentFileName (Suc (activeIdx q))) = []"
proof -
  have n: "segmentFileName (Suc (activeIdx q)) = seg_file_name (Suc (activeIdx q))"
    by (simp add: seg_file_name_def)
  have "seg_file_name (Suc (activeIdx q)) \<noteq> wname (qio q)"
    using wal_inv_active_name [OF I] by (auto dest: seg_file_name_inj)
  then show ?thesis
    using I io_sameD(4) [OF S] unfolding n wal_inv_def by simp
qed

lemma rolled_inv:
  assumes I: "wal_inv q" and S: "io_same (qio q) w" and b: "wbuf w = []"
    and ex: "file_exists (dir w) (segmentFileName (Suc (activeIdx q)))"
  shows "wal_inv (rolled q w)"
proof -
  let ?n = "segmentFileName (Suc (activeIdx q))"
  let ?w = "switch_file ?n w"
  have n: "?n = seg_file_name (Suc (activeIdx q))" by (simp add: seg_file_name_def)
  have T: "table_ok (segments q)" and A: "activeIdx q = seg_idx (last (segments q))"
    using I by (simp_all add: wal_inv_def)
  have T': "table_ok (segments q @ [new_segment q])"
    by (rule table_ok_append [OF T]) (simp_all add: new_segment_def A)
  have old: "seg_ok ?w s" if "s \<in> set (segments q)" for s
  proof -
    have ok: "seg_ok w s" using I S that seg_ok_same by (auto simp: wal_inv_def)
    have "seg_bytes ?w s = seg_bytes w s"
      using seg_bytes_rolled [OF I S b that] seg_bytes_same [OF S seg_ok_not_checkpoint [OF ok]]
      by simp
    with ok show ?thesis by (auto simp: seg_ok_def switch_file_def)
  qed
  have new: "seg_ok ?w (new_segment q)"
    using ex new_file_empty [OF I S]
    by (simp add: seg_ok_def new_segment_def seg_bytes_def switch_file_def wbytes_def n)
  have fut: "file_data (dir w) (seg_file_name i) = []" if "i > Suc (activeIdx q)" for i
  proof -
    have "seg_file_name i \<noteq> wname (qio q)"
      using that wal_inv_active_name [OF I] by (auto dest: seg_file_name_inj)
    then show ?thesis using I that io_sameD(4) [OF S] by (simp add: wal_inv_def)
  qed
  have "synced_ok ?w"
    using I io_sameD(3) [OF S] by (simp add: wal_inv_def switch_file_def synced_ok_def)
  moreover have "cp_ok (cpSeg q) (cpOff q) (segments q @ [new_segment q])"
    using I by (auto simp: wal_inv_def cp_ok_def hd_append table_ok_def)
  ultimately show ?thesis
    using T' old new I fut
    by (auto simp: rolled_def wal_inv_def new_segment_def switch_file_def)
qed

lemma rolled_pend:
  assumes I: "wal_inv q" and S: "io_same (qio q) w" and b: "wbuf w = []"
  shows "s \<in> set (segments q) \<Longrightarrow> pend_seg (cpSeg q) (cpOff q) (qio (rolled q w)) s
      = pend_seg (cpSeg q) (cpOff q) (qio q) s"
    and "pend_seg (cpSeg q) (cpOff q) (qio (rolled q w)) (new_segment q) = []"
proof -
  show "s \<in> set (segments q) \<Longrightarrow> pend_seg (cpSeg q) (cpOff q) (qio (rolled q w)) s
      = pend_seg (cpSeg q) (cpOff q) (qio q) s"
    using seg_bytes_rolled [OF I S b] by (simp add: pend_seg_def rolled_def)
  have "seg_bytes (qio (rolled q w)) (new_segment q) = []"
    using new_file_empty [OF I S]
    by (simp add: rolled_def new_segment_def seg_bytes_def switch_file_def wbytes_def)
  then show "pend_seg (cpSeg q) (cpOff q) (qio (rolled q w)) (new_segment q) = []"
    by (simp add: pend_seg_def)
qed

lemma rolled_durable:
  assumes I: "wal_inv q" and D: "wal_durable o0 q" and S: "io_same (qio q) w" and b: "wbuf w = []"
    and y: "file_synced (dir w) (wname w) = length (file_data (dir w) (wname w))"
  shows "wal_durable o0 (rolled q w)"
proof -
  let ?q1 = "q\<lparr>qio := w\<rparr>"
  have I1: "wal_inv ?q1" by (rule wal_inv_io [OF I S])
  have D1: "wal_durable o0 ?q1" by (rule wal_durable_io [OF I D S])
  have sz: "file_synced (dir w) (seg_name (last (segments q))) = seg_size (last (segments q))"
    using active_durable_size [OF I1] b y by (simp add: active_durable_def)
  have ne: "segments q \<noteq> []" using I by (simp add: wal_inv_def table_ok_def)
  have "seg_size s \<le> file_synced (dir w) (seg_name s)"
    if "s \<in> set (segments q)" "o0 < seg_base s + seg_size s" for s
    using that D1 sz ne by (cases "segments q" rule: rev_cases) (auto simp: wal_durable_def)
  moreover have "offset q = seg_base (last (segments q)) + seg_size (last (segments q))"
    using I by (simp add: wal_inv_def)
  ultimately show ?thesis
    by (simp add: wal_durable_def rolled_def covered_to_def new_segment_def switch_file_def)
qed

lemma enforceCapLocked_spec:
  obtains k w1 where "enforceCapLocked q = q\<lparr>qio := w1, segments := drop k (segments q),
        droppedUnackedSegments := droppedUnackedSegments q
          + length (unacked (cpSeg q) (take k (segments q))),
        droppedUnackedBytes := droppedUnackedBytes q
          + totalBytes (unacked (cpSeg q) (take k (segments q)))\<rparr>"
    "drops k q w1" "totalBytes (segments q) \<le> maxTotalBytes q \<longrightarrow> k = 0"
  unfolding enforceCapLocked_def using enforceCap_spec [of "totalBytes (segments q)" q] by blast

text \<open>
  A successful roll: the table loses a prefix (nothing when the total fits), gains an empty
  active segment, and the bytes of the segments that stay are untouched.
\<close>

lemma rollLocked_ok:
  assumes I: "wal_inv q" and r: "rollLocked q = (None, q')"
  obtains k where "k \<le> length (segments q)" "wal_inv q'"
    "segments q' = drop k (segments q @ [new_segment q])"
    "pend q' = concat (map (pend_seg (cpSeg q) (cpOff q) (qio q)) (drop k (segments q)))"
    "offset q' = offset q" "cpSeg q' = cpSeg q" "cpOff q' = cpOff q" "same_config q q'"
    "activeIdx q' = Suc (activeIdx q)" "syncedOffset q' = offset q" "lastErr q' = lastErr q"
    "unsyncedEvents q' = 0" "wbuf (qio q') = []" "\<not> werr (qio q')" "wopen (qio q')"
    "refusedHighWater q' = refusedHighWater q"
    "totalBytes (segments q) \<le> maxTotalBytes q \<Longrightarrow> k = 0"
    "droppedUnackedSegments q' = droppedUnackedSegments q
      + length (unacked (cpSeg q) (take k (segments q)))"
    "\<And>o0. wal_durable o0 q \<Longrightarrow> wal_durable o0 q'" "framed q \<Longrightarrow> framed q'"
  using I r
proof (cases rule: rollLocked_cases)
  case (success w)
  let ?q1 = "rolled q w"
  have I1: "wal_inv ?q1" by (rule rolled_inv [OF I success(2,3,5)])
  obtain k w1 where e: "enforceCapLocked ?q1 = ?q1\<lparr>qio := w1, segments := drop k (segments ?q1),
        droppedUnackedSegments := droppedUnackedSegments ?q1
          + length (unacked (cpSeg ?q1) (take k (segments ?q1))),
        droppedUnackedBytes := droppedUnackedBytes ?q1
          + totalBytes (unacked (cpSeg ?q1) (take k (segments ?q1)))\<rparr>"
    "drops k ?q1 w1" "totalBytes (segments ?q1) \<le> maxTotalBytes ?q1 \<longrightarrow> k = 0"
    by (rule enforceCapLocked_spec [of ?q1])
  have seg1: "segments ?q1 = segments q @ [new_segment q]" by (simp add: rolled_def)
  have k: "k \<le> length (segments q)" using e(2) by (auto simp: drops_def seg1)
  have io: "wbuf w1 = []" "\<not> werr w1" "wopen w1"
    using e(2) by (simp_all add: drops_def io_drop_def rolled_def switch_file_def)
  have "pend q' = pend (?q1\<lparr>qio := w1, segments := drop k (segments ?q1)\<rparr>)"
    unfolding success(6) e(1) by (simp add: pend_def)
  also have "\<dots> = concat (map (pend_seg (cpSeg q) (cpOff q) (qio ?q1)) (drop k (segments q @ [new_segment q])))"
    using drops_pend [OF I1 e(2)] by (simp add: seg1) (simp add: rolled_def)
  also have "\<dots> = concat (map (pend_seg (cpSeg q) (cpOff q) (qio ?q1)) (drop k (segments q)))"
    using k rolled_pend(2) [OF I success(2,3)] by simp
  also have "\<dots> = concat (map (pend_seg (cpSeg q) (cpOff q) (qio q)) (drop k (segments q)))"
    using rolled_pend(1) [OF I success(2,3)]
    by (auto intro!: arg_cong [of _ _ concat] map_cong dest: in_set_dropD)
  finally have P: "pend q' = concat (map (pend_seg (cpSeg q) (cpOff q) (qio q)) (drop k (segments q)))" .
  have "wal_inv (?q1\<lparr>qio := w1, segments := drop k (segments ?q1)\<rparr>)" by (rule drops_inv [OF I1 e(2)])
  then have I': "wal_inv q'" unfolding success(6) e(1) by simp
  have D': "wal_durable o0 q'" if "wal_durable o0 q" for o0
    using drops_durable [OF I1 e(2) rolled_durable [OF I that success(2-4)]]
    unfolding success(6) e(1) by simp
  have F': "framed q'" if "framed q"
  proof -
    have "framed ?q1"
      unfolding framed_def
    proof
      fix s assume s: "s \<in> set (segments ?q1)"
      show "ends_nl (seg_bytes (qio ?q1) s)"
      proof (cases "s \<in> set (segments q)")
        case True
        have "seg_bytes (qio ?q1) s = seg_bytes (qio q) s"
          using seg_bytes_rolled [OF I success(2,3) True] by (simp add: rolled_def)
        then show ?thesis using that True by (simp add: framed_def)
      next
        case False
        then have "seg_size s = 0" using s seg1 by (auto simp: new_segment_def)
        moreover have "seg_size s = length (seg_bytes (qio ?q1) s)"
          using I1 s unfolding wal_inv_def seg_ok_def by blast
        ultimately show ?thesis by (simp add: ends_nl_def)
      qed
    qed
    from drops_framed [OF I1 e(2) this] show ?thesis unfolding success(6) e(1) by simp
  qed
  have z: "totalBytes (segments q) \<le> maxTotalBytes q \<Longrightarrow> k = 0"
    using e(3) by (simp add: rolled_def totalBytes_def new_segment_def)
  show thesis
    by (rule that [of k])
      (use k I' P D' F' z io e(1) success(6) in
        \<open>simp_all add: seg1 same_config_def\<close>, simp_all add: rolled_def)
qed (use r in simp)

section \<open>Appending\<close>

lemma table_ok_grow: "table_ok ss \<Longrightarrow> table_ok (set_last (grow n) ss)"
proof (cases ss rule: rev_cases)
  case (snoc ys y)
  moreover assume "table_ok ss"
  ultimately have t: "table_ok (ys @ [y])" by simp
  have "table_ok (ys @ [grow n y])"
  proof (cases ys)
    case Nil
    then show ?thesis by (simp add: table_ok_def)
  next
    case (Cons z zs)
    then have "ys \<noteq> []" by simp
    then show ?thesis
      using t by (simp add: table_ok_def grow_def chained_append sorted_wrt_append)
  qed
  then show ?thesis by (simp add: snoc)
qed (simp add: table_ok_def)

text \<open>The active segment grows by \<open>x\<close>; nothing else changes.\<close>

lemma grow_inv:
  assumes I: "wal_inv q" and E: "io_ext (qio q) w1" and B: "wbytes w1 = wbytes (qio q) @ x"
    and Y: "synced_ok w1"
  defines "q1 \<equiv> q\<lparr>qio := w1, offset := offset q + length x,
                  segments := set_last (grow (length x)) (segments q)\<rparr>"
  shows "wal_inv q1" "pend q1 = pend q @ x" "\<And>o0. wal_durable o0 q \<Longrightarrow> wal_durable o0 q1"
    "framed q \<Longrightarrow> ends_nl x \<Longrightarrow> framed q1"
proof -
  obtain ys a where ss: "segments q = ys @ [a]"
    using I by (cases "segments q" rule: rev_cases) (auto simp: wal_inv_def table_ok_def)
  have wn: "wname (qio q) = seg_name a" "wname w1 = wname (qio q)"
    using I E by (simp_all add: wal_inv_def ss io_ext_def)
  have other: "n \<noteq> seg_name a \<Longrightarrow> file_data (dir w1) n = file_data (dir (qio q)) n
      \<and> file_synced (dir w1) n = file_synced (dir (qio q)) n
      \<and> file_exists (dir w1) n = file_exists (dir (qio q)) n" for n
    using E wn by (simp add: io_ext_def)
  have act: "file_exists (dir (qio q)) (seg_name a) \<Longrightarrow> file_exists (dir w1) (seg_name a)"
    "file_synced (dir (qio q)) (seg_name a) \<le> file_synced (dir w1) (seg_name a)"
    using E wn by (simp_all add: io_ext_def)
  have d: "distinct (map seg_name (ys @ [a]))" using wal_inv_names_distinct [OF I] ss by simp
  then have ne: "s \<in> set ys \<Longrightarrow> seg_name s \<noteq> seg_name a" for s
    by (auto simp: image_iff)
  have old_bytes: "s \<in> set ys \<Longrightarrow> seg_bytes w1 s = seg_bytes (qio q) s" for s
    using ne other wn by (simp add: seg_bytes_def)
  have new_bytes: "seg_bytes w1 (grow n a) = seg_bytes (qio q) a @ x" for n
    using wn B by (simp add: seg_bytes_def grow_def)
  have oks: "s \<in> set (ys @ [a]) \<Longrightarrow> seg_ok (qio q) s" for s
    using I by (auto simp: wal_inv_def ss)
  have ok_old: "s \<in> set ys \<Longrightarrow> seg_ok w1 s" for s
    using oks [of s] old_bytes [of s] other [OF ne, of s] by (auto simp: seg_ok_def)
  have ok_new: "seg_ok w1 (grow (length x) a)"
    using oks [of a] new_bytes act(1) by (auto simp: seg_ok_def grow_def)
  have fut: "file_data (dir w1) (seg_file_name i) = []" if "i > activeIdx q" for i
  proof -
    have "seg_file_name i \<noteq> seg_name a"
      using that wal_inv_active_name [OF I] wn by (auto dest: seg_file_name_inj)
    then show ?thesis using I that other by (simp add: wal_inv_def)
  qed
  have T: "table_ok (ys @ [grow (length x) a])"
    using table_ok_grow [of "segments q" "length x"] I by (simp add: wal_inv_def ss)
  have "cp_ok (cpSeg q) (cpOff q) (ys @ [a])" using I by (simp add: wal_inv_def ss)
  then have "cp_ok (cpSeg q) (cpOff q) (ys @ [grow (length x) a])"
    by (cases ys) (auto simp: cp_ok_def grow_def)
  then show "wal_inv q1"
    using I ok_old ok_new T fut Y wn
    by (auto simp: q1_def wal_inv_def ss grow_def)
  have le: "cpSeg q \<le> seg_idx a" "seg_idx a = cpSeg q \<Longrightarrow> cpOff q \<le> length (seg_bytes (qio q) a)"
    using I oks [of a] cp_ok_le_last [of "segments q"] cp_ok_in [of "segments q" _ _ a]
    by (auto simp: wal_inv_def ss seg_ok_def)
  have "pend_seg (cpSeg q) (cpOff q) w1 (grow (length x) a) = pend_seg (cpSeg q) (cpOff q) (qio q) a @ x"
    using le new_bytes by (auto simp: pend_seg_def) (simp_all add: grow_def)
  moreover have "map (pend_seg (cpSeg q) (cpOff q) w1) ys = map (pend_seg (cpSeg q) (cpOff q) (qio q)) ys"
    using old_bytes by (simp add: pend_seg_def)
  ultimately show "pend q1 = pend q @ x"
    by (simp add: q1_def pend_def ss del: map_eq_conv)
  show "framed q1" if F: "framed q" "ends_nl x"
  proof -
    have "ends_nl (seg_bytes (qio q) a @ x)" using F by (cases "x = []") (auto simp: framed_def ss ends_nl_def)
    then show ?thesis using F old_bytes new_bytes by (simp add: q1_def framed_def ss)
  qed
  show "wal_durable o0 q1" if D: "wal_durable o0 q" for o0
  proof -
    have "covered_to q1 (grow (length x) a) = covered_to q a"
      using I by (auto simp: covered_to_def q1_def wal_inv_def ss grow_def)
    then show ?thesis
      using D act(2) other ne by (auto simp: wal_durable_def ss q1_def grow_def)
  qed
qed

lemma append_write_spec:
  assumes I: "wal_inv q" and r: "append_write raw u q = ((off, r), q')"
  obtains n where "n \<le> length raw" "wal_inv q'" "pend q' = pend q @ take n raw"
    "offset q' = offset q + n" "off = offset q'" "r = None \<longrightarrow> n = length raw"
    "segments q' = set_last (grow n) (segments q)" "same_config q q'"
    "cpSeg q' = cpSeg q" "cpOff q' = cpOff q" "syncedOffset q' = syncedOffset q"
    "activeIdx q' = activeIdx q" "refusedHighWater q' = refusedHighWater q"
    "droppedUnackedSegments q' = droppedUnackedSegments q"
    "r = None \<longrightarrow> lastErr q' = lastErr q \<and> \<not> werr (qio q')"
    "r \<noteq> None \<longrightarrow> lastErr q' \<noteq> None"
    "\<forall>o0. wal_durable o0 q \<longrightarrow> wal_durable o0 q'" "r = None \<longrightarrow> ends_nl raw \<longrightarrow> framed q \<longrightarrow> framed q'"
proof -
  obtain n ok w1 where w: "bufio_write raw (qio q) = (n, ok, w1)" by (metis prod_cases3)
  note W = bufio_write_spec [OF w]
  have Y: "synced_ok w1" using W I by (simp add: wal_inv_def)
  let ?x = "take n raw"
  let ?q1 = "q\<lparr>qio := w1, offset := offset q + n, segments := set_last (grow n) (segments q)\<rparr>"
  have len: "length ?x = n" using W by simp
  have B: "wbytes w1 = wbytes (qio q) @ ?x" and E: "io_ext (qio q) w1" using W by simp_all
  note G = grow_inv [OF I E B Y, unfolded len]
  have q': "q' = (if ok then ?q1\<lparr>dirtySinceFlush := True, unsyncedEvents := unsyncedEvents q + u\<rparr>
      else snd (latch ErrAppend ?q1))" "off = offset q'" "r = (if ok then None else fst (latch ErrAppend ?q1))"
    using r w by (cases ok; auto simp: append_write_def Let_def latch_eq)+
  show thesis
    by (rule that [of n]) (use W G q' in \<open>auto simp: latch_eq same_config_def\<close>)
qed

end
