(* ===== verification/WalContract.thy ===== *)
theory WalContract
  imports WalOps
begin

text \<open>
  The contract of the write-ahead log as its clients use it: what an append, a refused append and
  a checkpoint do to the bytes a replay would read.
\<close>

section \<open>Positions\<close>

lemma pos_scan_sound:
  assumes "chained b ss" "sorted_wrt (<) (map seg_idx ss)" "\<forall>s \<in> set ss. seg_size s = length (c s)"
    and "t \<le> b + totalBytes ss"
  shows "(case pos_scan t fl (rev ss) of
      None \<Rightarrow> t \<le> b
    | Some (i, p) \<Rightarrow> (\<exists>s \<in> set ss. seg_idx s = i \<and> p \<le> seg_size s)
        \<and> concat (map (\<lambda>s. if seg_idx s < i then [] else if seg_idx s = i then drop p (c s) else c s) ss)
          = drop (t - b) (concat (map c ss)))"
  using assms
proof (induction ss arbitrary: fl rule: rev_induct)
  case Nil
  then show ?case by (simp add: totalBytes_def)
next
  case (snoc a ys)
  have E: "seg_base a = b + totalBytes ys"
    using snoc.prems(1) by (induction ys arbitrary: b) (auto simp: totalBytes_def)
  have L: "length (concat (map c ys)) = totalBytes ys"
    using snoc.prems(3) by (simp add: length_concat totalBytes_def comp_def cong: map_cong)
  have lt: "s \<in> set ys \<Longrightarrow> seg_idx s < seg_idx a" for s
    using snoc.prems(2) by (auto simp: sorted_wrt_append)
  have ch: "chained b ys" using snoc.prems(1) by (cases "ys = []") (simp_all add: chained_append)
  have so: "sorted_wrt (<) (map seg_idx ys)" using snoc.prems(2) by (simp add: sorted_wrt_append)
  show ?case
  proof (cases "t > seg_base a \<or> (t = seg_base a \<and> seg_size a = 0 \<and> fl)")
    case True
    then have ge: "t \<ge> b + totalBytes ys" using E by auto
    have "concat (map (\<lambda>s. if seg_idx s < seg_idx a then [] else if seg_idx s = seg_idx a
        then drop (t - seg_base a) (c s) else c s) ys) = []"
      using lt by auto
    moreover have "t - seg_base a \<le> seg_size a" using snoc.prems(4) E by (simp add: totalBytes_def)
    ultimately show ?thesis
      using True ge L E by simp
  next
    case False
    then have le: "t \<le> b + totalBytes ys" using E by auto
    have IH: "(case pos_scan t False (rev ys) of
      None \<Rightarrow> t \<le> b
    | Some (i, p) \<Rightarrow> (\<exists>s \<in> set ys. seg_idx s = i \<and> p \<le> seg_size s)
        \<and> concat (map (\<lambda>s. if seg_idx s < i then [] else if seg_idx s = i then drop p (c s) else c s) ys)
          = drop (t - b) (concat (map c ys)))"
      using snoc.IH [OF ch so _ le] snoc.prems(3) by simp
    have pc: "pos_scan t fl (rev (ys @ [a])) = pos_scan t False (rev ys)" using False by auto
    show ?thesis
    proof (cases "pos_scan t False (rev ys)")
      case None
      then show ?thesis unfolding pc using IH by simp
    next
      case (Some ip)
      obtain i p where ip: "ip = (i, p)" by fastforce
      obtain s where s: "s \<in> set ys" "seg_idx s = i" "p \<le> seg_size s"
        using IH Some ip by auto
      have "t - b - length (concat (map c ys)) = 0" using le L by simp
      then show ?thesis
        unfolding pc using IH Some ip s lt [OF s(1)] by auto
    qed
  qed
qed

lemma chained_end: "chained b ss \<Longrightarrow> ss \<noteq> [] \<Longrightarrow>
    seg_base (last ss) + seg_size (last ss) = b + totalBytes ss"
  by (induction ss arbitrary: b) (auto simp: totalBytes_def)

lemma pend_alt: "pend q = concat (map (\<lambda>s. if seg_idx s < cpSeg q then [] else
    if seg_idx s = cpSeg q then drop (cpOff q) (seg_bytes (qio q) s) else seg_bytes (qio q) s) (segments q))"
proof -
  have "pend_seg (cpSeg q) (cpOff q) (qio q) = (\<lambda>s. if seg_idx s < cpSeg q then [] else
    if seg_idx s = cpSeg q then drop (cpOff q) (seg_bytes (qio q) s) else seg_bytes (qio q) s)"
    by (rule ext) (simp add: pend_seg_def)
  then show ?thesis by (simp add: pend_def)
qed

text \<open>All the bytes of the table, and the position where the table starts.\<close>

definition log_bytes :: "diskQueue \<Rightarrow> bytes" where
  "log_bytes q = concat (map (seg_bytes (qio q)) (segments q))"

definition log_base :: "diskQueue \<Rightarrow> nat" where
  "log_base q = seg_base (hd (segments q))"

lemma wal_inv_log:
  assumes "wal_inv q"
  shows "chained (log_base q) (segments q)" "sorted_wrt (<) (map seg_idx (segments q))"
    "\<forall>s \<in> set (segments q). seg_size s = length (seg_bytes (qio q) s)"
    "offset q = log_base q + totalBytes (segments q)"
    "length (log_bytes q) = totalBytes (segments q)"
proof -
  show a: "chained (log_base q) (segments q)" "sorted_wrt (<) (map seg_idx (segments q))"
    "\<forall>s \<in> set (segments q). seg_size s = length (seg_bytes (qio q) s)"
    using assms by (simp_all add: wal_inv_def table_ok_def seg_ok_def log_base_def)
  show "offset q = log_base q + totalBytes (segments q)"
    using assms chained_end [OF a(1)] by (simp add: wal_inv_def table_ok_def)
  show "length (log_bytes q) = totalBytes (segments q)"
    using a(3) by (simp add: log_bytes_def length_concat totalBytes_def comp_def cong: map_cong)
qed

text \<open>Where the pending bytes start.\<close>

definition pend_start :: "diskQueue \<Rightarrow> nat" where
  "pend_start q = (if segmentExists (cpSeg q) (segments q) then cpLogical q else log_base q)"

lemma find_unique:
  "distinct (map f ss) \<Longrightarrow> s \<in> set ss \<Longrightarrow> f s = i \<Longrightarrow> find (\<lambda>s. f s = i) ss = Some s"
  by (induction ss) (auto simp: image_iff)

lemma concat_skip:
  assumes "chained b ss" "sorted_wrt (<) (map seg_idx ss)" "\<forall>s \<in> set ss. seg_size s = length (c s)"
    and "a \<in> set ss" "p \<le> seg_size a"
  shows "concat (map (\<lambda>s. if seg_idx s < seg_idx a then [] else if seg_idx s = seg_idx a
      then drop p (c s) else c s) ss) = drop (seg_base a + p - b) (concat (map c ss))
    \<and> b \<le> seg_base a"
  using assms
proof (induction ss arbitrary: b)
  case (Cons x xs)
  show ?case
  proof (cases "x = a")
    case True
    then have "\<forall>s \<in> set xs. seg_idx a < seg_idx s" using Cons.prems by auto
    then have "map (\<lambda>s. if seg_idx s < seg_idx a then [] else if seg_idx s = seg_idx a
      then drop p (c s) else c s) xs = map c xs" by auto
    then have m: "concat (map (\<lambda>s. if seg_idx s < seg_idx a then [] else if seg_idx s = seg_idx a
      then drop p (c s) else c s) xs) = concat (map c xs)" by (rule arg_cong)
    have "b = seg_base a" "p \<le> length (c a)" using True Cons.prems by auto
    then show ?thesis using True by (simp add: m)
  next
    case False
    then have a: "a \<in> set xs" "seg_idx x < seg_idx a" using Cons.prems by auto
    have IH: "concat (map (\<lambda>s. if seg_idx s < seg_idx a then [] else if seg_idx s = seg_idx a
      then drop p (c s) else c s) xs) = drop (seg_base a + p - (b + seg_size x)) (concat (map c xs))
      \<and> b + seg_size x \<le> seg_base a"
      using Cons.IH [of "b + seg_size x"] Cons.prems a by simp
    moreover have "b + seg_size x \<le> seg_base a + p" using IH by simp
    ultimately show ?thesis using a Cons.prems by auto
  qed
qed simp

lemma chained_seg_le: "chained b ss \<Longrightarrow> a \<in> set ss \<Longrightarrow> seg_base a + seg_size a \<le> b + totalBytes ss"
  by (induction ss arbitrary: b) (fastforce simp: totalBytes_def)+

lemma pend_suffix:
  assumes I: "wal_inv q"
  shows "pend q = drop (pend_start q - log_base q) (log_bytes q)"
    and "log_base q \<le> pend_start q" and "pend_start q \<le> offset q"
proof -
  note L = wal_inv_log [OF I]
  have C: "cp_ok (cpSeg q) (cpOff q) (segments q)" and T: "table_ok (segments q)"
    using I by (simp_all add: wal_inv_def)
  have A: "pend q = drop (pend_start q - log_base q) (log_bytes q) \<and> log_base q \<le> pend_start q
    \<and> pend_start q \<le> offset q"
  proof (cases "segmentExists (cpSeg q) (segments q)")
    case True
    then obtain a where a: "a \<in> set (segments q)" "seg_idx a = cpSeg q"
      by (auto simp: segmentExists_def list_ex_iff)
    have p: "cpOff q \<le> seg_size a" using cp_ok_in [OF T C a] .
    have "find (\<lambda>s. seg_idx s = cpSeg q) (segments q) = Some a"
      using find_unique [OF table_ok_distinct [OF T] a] .
    then have s: "pend_start q = seg_base a + cpOff q" using True by (simp add: pend_start_def cpLogical_def)
    have e: "seg_base a + seg_size a \<le> log_base q + totalBytes (segments q)"
      using chained_seg_le [OF L(1) a(1)] .
    show ?thesis
      using concat_skip [OF L(1-3) a(1) p] s p e L(4)
      unfolding pend_alt log_bytes_def a(2) by auto
  next
    case False
    then have "cpSeg q < seg_idx (hd (segments q))"
      using C by (auto simp: cp_ok_def segmentExists_def list_ex_iff)
    then have "\<forall>s \<in> set (segments q). cpSeg q < seg_idx s"
      using T by (cases "segments q") (auto simp: table_ok_def)
    then have "map (pend_seg (cpSeg q) (cpOff q) (qio q)) (segments q) = map (seg_bytes (qio q)) (segments q)"
      by (auto simp: pend_seg_def)
    then have "pend q = log_bytes q" by (simp only: pend_def log_bytes_def)
    then show ?thesis using False L(4) by (simp add: pend_start_def)
  qed
  then show "pend q = drop (pend_start q - log_base q) (log_bytes q)"
    "log_base q \<le> pend_start q" "pend_start q \<le> offset q" by blast+
qed

lemma pend_length: "wal_inv q \<Longrightarrow> length (pend q) = offset q - pend_start q"
  using pend_suffix [of q] wal_inv_log(4,5) [of q] by simp

lemma pend_nil_iff: "pend q = [] \<longleftrightarrow> (\<forall>s \<in> set (segments q). pend_seg (cpSeg q) (cpOff q) (qio q) s = [])"
  by (simp add: pend_def)

section \<open>Checkpoint\<close>

lemma cpLogical_le_start: "wal_inv q \<Longrightarrow> cpLogical q < t \<Longrightarrow> log_base q \<le> t \<Longrightarrow> pend_start q \<le> t"
  by (simp add: pend_start_def)

text \<open>Moving the checkpoint to a position of the log drops exactly the bytes before it.\<close>

lemma move_checkpoint:
  assumes I: "wal_inv q" and lt: "cpLogical q < t" and p: "logicalToPos t q = (i, p)"
  defines "q1 \<equiv> q\<lparr>cpSeg := i, cpOff := p\<rparr>"
  shows "wal_inv q1" "pend q1 = drop (min t (offset q) - pend_start q) (pend q)"
    "log_base q \<le> t \<Longrightarrow> cpLogical q1 = min t (offset q)"
proof -
  note L = wal_inv_log [OF I] and S = pend_suffix [OF I]
  let ?t = "min t (offset q)"
  have t: "(if t > offset q then offset q else t) = ?t" by auto
  have le: "?t \<le> log_base q + totalBytes (segments q)" using L(4) by simp
  note P = pos_scan_sound [OF L(1-3) le, of True]
  have T: "table_ok (segments q)" using I by (simp add: wal_inv_def)
  have start: "log_base q \<le> ?t \<Longrightarrow> pend_start q \<le> ?t"
    using lt S(3) by (auto simp: pend_start_def split: if_splits)
  have "cp_ok i p (segments q) \<and> pend q1 = drop (?t - log_base q) (log_bytes q)
    \<and> (log_base q \<le> ?t \<longrightarrow> cpLogical q1 = ?t)"
  proof (cases "pos_scan ?t True (rev (segments q))")
    case None
    let ?h = "hd (segments q)"
    have ip: "i = seg_idx ?h" "p = 0" using p None by (simp_all add: logicalToPos_def t)
    have h: "?h \<in> set (segments q)" using T by (simp add: table_ok_def)
    then have c: "cp_ok i p (segments q)" using ip by (auto simp: cp_ok_def)
    have le0: "?t \<le> log_base q" using P None by simp
    have "\<forall>s \<in> set (segments q). i \<le> seg_idx s"
      using T ip by (cases "segments q") (auto simp: table_ok_def)
    then have "map (pend_seg i p (qio q)) (segments q) = map (seg_bytes (qio q)) (segments q)"
      using ip by (auto simp: pend_seg_def)
    then have "pend q1 = log_bytes q" by (simp add: pend_def q1_def log_bytes_def del: map_eq_conv)
    moreover have "cpLogical q1 = log_base q"
      using find_unique [OF table_ok_distinct [OF T] h, of i] ip
      by (simp add: cpLogical_def q1_def log_base_def)
    moreover have "?t - log_base q = 0" "log_base q \<le> ?t \<longrightarrow> log_base q = ?t"
      using le0 by linarith+
    ultimately show ?thesis using c by simp
  next
    case (Some ip)
    then have ip: "ip = (i, p)" using p by (simp add: logicalToPos_def t)
    obtain s where s: "s \<in> set (segments q)" "seg_idx s = i" "p \<le> seg_size s"
      using P Some ip by auto
    have c: "cp_ok i p (segments q)" using s by (auto simp: cp_ok_def)
    have eq: "pend q1 = drop (?t - log_base q) (log_bytes q)"
      using P Some ip by (simp add: pend_alt q1_def log_bytes_def cong: if_cong)
    have "cpLogical q1 = seg_base s + p"
      using find_unique [OF table_ok_distinct [OF T] s(1,2)] by (simp add: cpLogical_def q1_def)
    moreover have "\<exists>a \<in> set ss. i = seg_idx a \<and> p = u - seg_base a \<and> seg_base a \<le> u"
      if "pos_scan u fl ss = Some (i, p)" for u fl ss
      using that by (induction u fl ss rule: pos_scan.induct) (auto split: if_splits)
    then obtain a where a: "a \<in> set (segments q)" "i = seg_idx a" "p = ?t - seg_base a" "seg_base a \<le> ?t"
      using Some ip by force
    moreover have "a = s" using a s table_ok_distinct [OF T] by (metis distinct_map inj_onD)
    ultimately show ?thesis using c eq by simp
  qed
  then have c: "cp_ok i p (segments q)" and e: "pend q1 = drop (?t - log_base q) (log_bytes q)"
    and cl: "log_base q \<le> ?t \<longrightarrow> cpLogical q1 = ?t" by blast+
  show "wal_inv q1" using I c by (simp add: wal_inv_def q1_def)
  have "?t - log_base q = (?t - pend_start q) + (pend_start q - log_base q)"
    if "log_base q \<le> ?t" using start [OF that] S(2) that by simp
  moreover have "?t - pend_start q = 0 \<and> ?t - log_base q = 0 \<and> pend_start q = log_base q"
    if "\<not> log_base q \<le> ?t" 
  proof -
    have "segmentExists (cpSeg q) (segments q) \<Longrightarrow> log_base q \<le> cpLogical q"
      using S(2) by (simp add: pend_start_def)
    then show ?thesis using that lt L(4) by (auto simp: pend_start_def)
  qed
  ultimately show "pend q1 = drop (?t - pend_start q) (pend q)"
    unfolding e S(1) by (cases "log_base q \<le> ?t") (auto simp: add.commute)
  show "log_base q \<le> t \<Longrightarrow> cpLogical q1 = ?t" using cl L(4) by simp
qed

lemma quiet_inv: "quiet q q1 \<Longrightarrow> wal_inv q1"
  by (simp add: quiet_def)

lemma quiet_trans: "quiet q q1 \<Longrightarrow> quiet q1 q2 \<Longrightarrow> quiet q q2"
  unfolding quiet_def using same_config_trans by (metis order_trans)

lemma quiet_dirty: "quiet q (q1\<lparr>dirtySinceFlush := b\<rparr>) = quiet q q1"
  by (simp add: quiet_def same_config_def)

lemma writeCheckpoint_quiet:
  assumes I: "wal_inv q" and w: "writeCheckpoint i p q = (ok, q1)"
  shows "quiet q q1" "lastErr q1 = lastErr q"
proof -
  obtain d w1 ok' where a: "atomicWrite0600 checkpointName d (qio q) = (ok', w1)"
    and q1: "q1 = (if ok' then q\<lparr>qio := w1, dirtySinceFlush := False\<rparr> else q\<lparr>qio := w1\<rparr>)"
    using w by (auto simp: writeCheckpoint_def Let_def split: prod.splits if_splits)
  have "quiet q (q\<lparr>qio := w1\<rparr>)"
    using quiet_io [OF I io_same_atomicWrite [OF a wal_inv_not_checkpoint [OF I]]] .
  then show "quiet q q1" using q1 quiet_dirty [of q False "q\<lparr>qio := w1\<rparr>"] by (auto split: if_splits)
  show "lastErr q1 = lastErr q" using q1 by (auto split: if_splits)
qed

lemma move_checkpoint_frame:
  "wal_durable o0 q \<Longrightarrow> wal_durable o0 (q\<lparr>cpSeg := i, cpOff := p\<rparr>)"
  by (simp add: wal_durable_def covered_to_def)

text \<open>The end of a checkpoint keeps the pending bytes: what it reclaims is acknowledged.\<close>

lemma reclaim_pend_nil:
  assumes I: "wal_inv q" and c: "cpSeg q = seg_idx (last (segments q))"
    "cpOff q \<ge> seg_size (last (segments q))" and s: "s \<in> set (segments q)"
  shows "pend_seg (cpSeg q) (cpOff q) (qio q) s = []"
proof -
  have T: "table_ok (segments q)" using I by (simp add: wal_inv_def)
  have le: "seg_idx s \<le> cpSeg q" using table_idx_le_last [OF T s] c by simp
  have "s = last (segments q)" if "seg_idx s = cpSeg q"
    using that c(1) s T table_ok_distinct [OF T] by (metis distinct_map inj_onD last_in_set table_ok_def)
  moreover have "length (seg_bytes (qio q) s) = seg_size s"
    using I s by (simp add: wal_inv_def seg_ok_def)
  ultimately show ?thesis using le c(2) by (auto simp: pend_seg_def)
qed

lemma checkpoint_reclaim_spec:
  assumes I: "wal_inv q" and r: "checkpoint_reclaim q = (r, q')"
  shows "wal_inv q' \<and> pend q' = pend q \<and> offset q' = offset q \<and> same_config q q'
    \<and> (\<forall>o0. wal_durable o0 q \<longrightarrow> wal_durable o0 q') \<and> syncedOffset q \<le> syncedOffset q'
    \<and> (framed q \<longrightarrow> framed q') \<and> (r \<noteq> None \<longrightarrow> lastErr q' \<noteq> None)"
proof (cases "seg_size (last (segments q)) \<ge> maxBytes q \<and> cpSeg q = seg_idx (last (segments q))
    \<and> cpOff q \<ge> seg_size (last (segments q))")
  case False
  then have "r = None" "q' = q" using r by (auto simp: checkpoint_reclaim_def Let_def)
  then show ?thesis using I by simp
next
  case True
  then have N: "\<And>s. s \<in> set (segments q) \<Longrightarrow> pend_seg (cpSeg q) (cpOff q) (qio q) s = []"
    using reclaim_pend_nil [OF I] by blast
  then have nil: "pend q = []" by (simp add: pend_nil_iff)
  obtain e q1 where roll: "rollLocked q = (e, q1)" by fastforce
  show ?thesis
  proof (cases e)
    case (Some e0)
    from I roll have "quiet q q1" by (cases rule: rollLocked_cases) (use Some in auto)
    moreover have "r = None" "q' = q1" using r True roll Some by (auto simp: checkpoint_reclaim_def Let_def)
    ultimately show ?thesis unfolding quiet_def by blast
  next
    case None
    with roll have roll': "rollLocked q = (None, q1)" by simp
    from I roll' obtain k where k: "k \<le> length (segments q)" and I1: "wal_inv q1"
      and sg: "segments q1 = drop k (segments q @ [new_segment q])"
      and P: "pend q1 = concat (map (pend_seg (cpSeg q) (cpOff q) (qio q)) (drop k (segments q)))"
      and f: "offset q1 = offset q" "same_config q q1" "syncedOffset q1 = offset q"
      and D: "\<And>o0. wal_durable o0 q \<Longrightarrow> wal_durable o0 q1" and F: "framed q \<Longrightarrow> framed q1"
      by (rule rollLocked_ok) blast
    have P1: "pend q1 = []" using P N by (auto dest: in_set_dropD)
    obtain ok q2 where w: "writeCheckpoint (activeIdx q1) 0 q1 = (ok, q2)" by fastforce
    note W = writeCheckpoint_quiet [OF I1 w]
    have y: "syncedOffset q \<le> syncedOffset q1" using I f by (simp add: wal_inv_def)
    show ?thesis
    proof (cases ok)
      case False
      then have q': "(r, q') = latch ErrCheckpointPostRoll q2"
        using r True roll' w by (simp add: checkpoint_reclaim_def Let_def)
      have "quiet q1 q'" using quiet_latch [OF W(1) q' [symmetric]] .
      moreover have "r \<noteq> None \<longrightarrow> lastErr q' \<noteq> None" using q' by (simp add: latch_eq)
      ultimately show ?thesis using P1 nil f D F y
        unfolding quiet_def by (metis order_trans same_config_trans)
    next
      case True2: True
      let ?q3 = "q2\<lparr>cpSeg := activeIdx q2, cpOff := 0\<rparr>"
      have q': "r = None" "q' = gcSegmentsLocked ?q3"
        using r True roll' w True2 by (simp_all add: checkpoint_reclaim_def Let_def)
      have I2: "wal_inv q2" by (rule quiet_inv [OF W(1)])
      have T2: "table_ok (segments q2)" and A2: "activeIdx q2 = seg_idx (last (segments q2))"
        using I2 by (simp_all add: wal_inv_def)
      have l: "last (segments q2) \<in> set (segments q2)" using T2 by (simp add: table_ok_def)
      have I3: "wal_inv ?q3" using I2 l A2 by (auto simp: wal_inv_def cp_ok_def)
      have "segments q2 = segments q1" using W(1) unfolding quiet_def by blast
      then have z: "seg_size (last (segments q2)) = 0"
        using sg k by (simp add: new_segment_def)
      have "pend ?q3 = []"
        using reclaim_pend_nil [OF I3] A2 z by (simp add: pend_nil_iff)
      then have "pend q' = []" using q'(2) gcSegments_pend [OF I3] by simp
      moreover have "wal_inv q'" using q'(2) gcSegments_inv [OF I3] by simp
      moreover have "same_config q1 q2" "syncedOffset q1 \<le> syncedOffset q2" "offset q2 = offset q1"
        using W(1) unfolding quiet_def by blast+
      moreover have "same_config q2 q'" "syncedOffset q' = syncedOffset q2" "offset q' = offset q2"
        using q'(2) by (simp_all add: same_config_def frame_simps)
      moreover have "wal_durable o0 q'" if "wal_durable o0 q" for o0
      proof -
        have "wal_durable o0 q2" using D [OF that] W(1) unfolding quiet_def by blast
        then have "wal_durable o0 ?q3" by (rule move_checkpoint_frame)
        then show ?thesis unfolding q'(2) by (rule gcSegments_durable [OF I3])
      qed
      moreover have "framed q'" if "framed q"
      proof -
        have "framed ?q3" using F [OF that] W(1) unfolding quiet_def by simp
        then show ?thesis unfolding q'(2) by (rule gcSegments_framed [OF I3])
      qed
      ultimately show ?thesis
        using nil f y q'(1) by (metis order_trans same_config_trans)
    qed
  qed
qed

text \<open>What \<^verbatim>\<open>Checkpoint\<close> may do to a queue: nothing, or drop the acknowledged bytes.\<close>

definition cp_effect :: "nat \<Rightarrow> diskQueue \<Rightarrow> diskQueue \<Rightarrow> bool" where
  "cp_effect t q q' \<longleftrightarrow> wal_inv q' \<and> offset q' = offset q \<and> same_config q q'
     \<and> (\<forall>o0. wal_durable o0 q \<longrightarrow> wal_durable o0 q') \<and> syncedOffset q \<le> syncedOffset q'
     \<and> (framed q \<longrightarrow> framed q') \<and> pend q' = drop (min t (offset q) - pend_start q) (pend q)"

lemma quiet_cp_effect: "quiet q q' \<Longrightarrow> min t (offset q) \<le> pend_start q \<Longrightarrow> cp_effect t q q'"
  by (auto simp: quiet_def cp_effect_def)

lemma logicalToPos_clamp:
  assumes "segments q1 = segments q2" "offset q1 = offset q2"
  shows "logicalToPos (min t (offset q2)) q2 = logicalToPos t q1"
proof -
  have c: "(if o' < t then o' else t) = min t o'" "(if o' < min t o' then o' else min t o') = min t o'"
    for o' :: nat by auto
  show ?thesis unfolding logicalToPos_def Let_def c assms by (rule refl)
qed

lemma Checkpoint_spec:
  assumes I: "wal_inv q" and r: "Checkpoint t q = (r, q')" and lt: "cpLogical q < t" and st: "\<not> stopped q"
  shows "cp_effect t q q' \<or> (quiet q q' \<and> r \<noteq> None)" "r \<noteq> None \<Longrightarrow> lastErr q' \<noteq> None"
proof -
  have "(cp_effect t q q' \<or> (quiet q q' \<and> r \<noteq> None)) \<and> (r \<noteq> None \<longrightarrow> lastErr q' \<noteq> None)"
  proof -
    obtain ok1 w1 where w1: "bufio_flush (qio q) = (ok1, w1)" by fastforce
    have Q1: "quiet q (q\<lparr>qio := w1\<rparr>)" by (rule quiet_io [OF I io_same_flush [OF w1]])
    obtain ok2 w2 where w2: "os_sync w1 = (ok2, w2)" by fastforce
    have "synced_ok w1" using quiet_inv [OF Q1] by (simp add: wal_inv_def)
    from quiet_io [OF quiet_inv [OF Q1], of w2] io_same_sync [OF w2 this]
    have Q2: "quiet q (q\<lparr>qio := w2\<rparr>)" using quiet_trans [OF Q1] by simp
    show ?thesis
    proof (cases "ok1 \<and> ok2")
      case False
      then have "\<exists>e p. (r, q') = latch e p \<and> quiet q p"
        using r st lt w1 w2 Q1 Q2
        by (cases ok1) (auto simp: Checkpoint_def Let_def dest!: sym [of _ "(r, q')"])
      then obtain e p where p: "latch e p = (r, q')" "quiet q p" by metis
      have "r \<noteq> None" "lastErr q' \<noteq> None" using p(1) by (auto simp: latch_eq)
      then show ?thesis using quiet_latch [OF p(2,1)] by blast
    next
      case True
      let ?q2 = "q\<lparr>qio := w2, syncedOffset := offset q, unsyncedEvents := 0\<rparr>"
      have fs: "bufio_flush (qio q) = (True, w1)" "os_sync w1 = (True, w2)" using w1 w2 True by simp_all
      have "active_durable (q\<lparr>qio := w2\<rparr>)"
        using flush_sync_active [OF fs] by (simp add: active_durable_def)
      from quiet_synced [OF Q2 this, of 0] have Q2': "quiet q ?q2" by simp
      have I2: "wal_inv ?q2" by (rule quiet_inv [OF Q2'])
      obtain sg off where lp: "logicalToPos (min t (offset q)) ?q2 = (sg, off)" by fastforce
      obtain ok3 q3 where w3: "writeCheckpoint sg off ?q2 = (ok3, q3)" by fastforce
      note W3 = writeCheckpoint_quiet [OF I2 w3]
      have Q3: "quiet q q3" by (rule quiet_trans [OF Q2' W3(1)])
      have t: "(if t > offset q then offset q else t) = min t (offset q)" by auto
      show ?thesis
      proof (cases ok3)
        case False
        then have p: "latch ErrCheckpoint q3 = (r, q')"
          using r st lt fs lp w3 by (simp add: Checkpoint_def Let_def t)
        have "r \<noteq> None" "lastErr q' \<noteq> None" using p by (auto simp: latch_eq)
        then show ?thesis using quiet_latch [OF Q3 p] by blast
      next
        case ok3: True
        let ?q4 = "q3\<lparr>cpSeg := sg, cpOff := off\<rparr>"
        have r': "checkpoint_reclaim (gcSegmentsLocked ?q4) = (r, q')"
          using r st lt fs lp w3 ok3 by (simp add: Checkpoint_def Let_def t)
        have I3: "wal_inv q3" by (rule quiet_inv [OF Q3])
        have s3: "segments q3 = segments q" "offset q3 = offset q" "cpSeg q3 = cpSeg q"
          "cpOff q3 = cpOff q" "pend q3 = pend q" "same_config q q3" "syncedOffset q \<le> syncedOffset q3"
          using Q3 unfolding quiet_def by blast+
        have ps: "pend_start q3 = pend_start q" "cpLogical q3 = cpLogical q"
          unfolding pend_start_def cpLogical_def log_base_def s3(1,3,4) by (rule refl)+
        have lp3: "logicalToPos t q3 = (sg, off)"
          using lp logicalToPos_clamp [of q3 ?q2 t] s3(1,2) by simp
        have lt3: "cpLogical q3 < t" using ps lt by simp
        note M = move_checkpoint [OF I3 lt3 lp3]
        have I5: "wal_inv (gcSegmentsLocked ?q4)" by (rule gcSegments_inv [OF M(1)])
        note R = checkpoint_reclaim_spec [OF I5 r']
        have pd: "pend q' = drop (min t (offset q) - pend_start q) (pend q)"
          using R gcSegments_pend [OF M(1)] M(2) s3 ps by simp
        have cf: "same_config q q'" "offset q' = offset q" "syncedOffset q \<le> syncedOffset q'"
        proof -
          have "same_config q3 ?q4" by (simp add: same_config_def)
          then show "same_config q q'" using s3(6) R gc_config [of ?q4] same_config_trans by blast
          show "offset q' = offset q" using R s3 by (simp add: frame_simps)
          show "syncedOffset q \<le> syncedOffset q'" using R s3(7) by (simp add: frame_simps)
        qed
        have dd: "wal_durable o0 q'" if "wal_durable o0 q" for o0
        proof -
          have "wal_durable o0 q3" using that Q3 unfolding quiet_def by blast
          from gcSegments_durable [OF M(1) move_checkpoint_frame [OF this]] show ?thesis using R by blast
        qed
        have ff: "framed q'" if "framed q"
        proof -
          have "framed ?q4" using that Q3 unfolding quiet_def by simp
          from gcSegments_framed [OF M(1) this] show ?thesis using R by blast
        qed
        show ?thesis unfolding cp_effect_def using R pd cf dd ff by blast
      qed
    qed
  qed
  then show "cp_effect t q q' \<or> (quiet q q' \<and> r \<noteq> None)" "r \<noteq> None \<Longrightarrow> lastErr q' \<noteq> None"
    by blast+
qed

section \<open>Append\<close>

lemma drop_unacked_none:
  assumes "unacked (cpSeg q) (take k (segments q)) = []"
  shows "concat (map (pend_seg (cpSeg q) (cpOff q) (qio q)) (drop k (segments q))) = pend q"
  unfolding pend_def
  by (rule concat_map_drop_Nil) (use assms in \<open>auto simp: unacked_def filter_empty_conv pend_seg_def\<close>)

text \<open>A suffix of the pending bytes, shortened only with a dropped segment on the counter.\<close>

definition lost_counted :: "diskQueue \<Rightarrow> diskQueue \<Rightarrow> bytes \<Rightarrow> bool" where
  "lost_counted q q' p \<longleftrightarrow> (\<exists>j. p = drop j (pend q)
     \<and> (p \<noteq> pend q \<longrightarrow> droppedUnackedSegments q < droppedUnackedSegments q'))"

lemma concat_map_drop_suffix: "\<exists>j. concat (map f (drop k ss)) = drop j (concat (map f ss))"
proof -
  have "concat (map f ss) = concat (map f (take k ss)) @ concat (map f (drop k ss))"
    by (metis append_take_drop_id concat_append map_append)
  then have "concat (map f (drop k ss)) = drop (length (concat (map f (take k ss)))) (concat (map f ss))"
    by simp
  then show ?thesis by blast
qed

text \<open>The state in which the write happens: the queue itself or the queue after a roll.\<close>

definition ready :: "diskQueue \<Rightarrow> diskQueue \<Rightarrow> bool" where
  "ready q q1 \<longleftrightarrow> wal_inv q1 \<and> offset q1 = offset q \<and> same_config q q1 \<and> lastErr q1 = lastErr q
     \<and> cpSeg q1 = cpSeg q \<and> cpOff q1 = cpOff q \<and> refusedHighWater q1 = refusedHighWater q
     \<and> syncedOffset q \<le> syncedOffset q1 \<and> (\<forall>o0. wal_durable o0 q \<longrightarrow> wal_durable o0 q1)
     \<and> (framed q \<longrightarrow> framed q1) \<and> lost_counted q q1 (pend q1) \<and> (\<not> lossySync q \<longrightarrow> pend q1 = pend q
         \<and> droppedUnackedSegments q1 = droppedUnackedSegments q)"

lemma ready_refl: "wal_inv q \<Longrightarrow> ready q q"
  by (auto simp: ready_def lost_counted_def intro: exI [of _ 0])

lemma roll_ready:
  assumes I: "wal_inv q" and r: "rollLocked q = (None, q1)"
    and fit: "\<not> lossySync q \<longrightarrow> totalBytes (segments q) \<le> maxTotalBytes q"
  shows "ready q q1"
proof -
  from I r obtain k where k: "k \<le> length (segments q)" and I1: "wal_inv q1"
    and P: "pend q1 = concat (map (pend_seg (cpSeg q) (cpOff q) (qio q)) (drop k (segments q)))"
    and f: "offset q1 = offset q" "cpSeg q1 = cpSeg q" "cpOff q1 = cpOff q" "same_config q q1"
      "lastErr q1 = lastErr q" "refusedHighWater q1 = refusedHighWater q" "syncedOffset q1 = offset q"
    and z: "totalBytes (segments q) \<le> maxTotalBytes q \<Longrightarrow> k = 0"
    and d: "droppedUnackedSegments q1 = droppedUnackedSegments q
      + length (unacked (cpSeg q) (take k (segments q)))"
    and D: "\<And>o0. wal_durable o0 q \<Longrightarrow> wal_durable o0 q1" and F: "framed q \<Longrightarrow> framed q1"
    by (rule rollLocked_ok) blast
  have y: "syncedOffset q \<le> syncedOffset q1" using I f by (simp add: wal_inv_def)
  have "pend q1 = pend q" if "unacked (cpSeg q) (take k (segments q)) = []"
    using drop_unacked_none [OF that] P by simp
  then have c: "pend q1 \<noteq> pend q \<longrightarrow> droppedUnackedSegments q < droppedUnackedSegments q1"
    using d by auto
  have s: "\<exists>j. pend q1 = drop j (pend q)"
    using concat_map_drop_suffix [of "pend_seg (cpSeg q) (cpOff q) (qio q)" k "segments q"] P
    by (simp add: pend_def)
  have "pend q1 = pend q \<and> droppedUnackedSegments q1 = droppedUnackedSegments q" if "\<not> lossySync q"
    using z fit that P d by (simp add: pend_def unacked_def)
  then show ?thesis unfolding ready_def lost_counted_def using I1 f y c s D F by blast
qed

lemma gc_ready: "wal_inv q \<Longrightarrow> ready q (gcSegmentsLocked q)"
  unfolding ready_def lost_counted_def
  by (auto simp: frame_simps gcSegments_inv gcSegments_pend gcSegments_durable gcSegments_framed intro: exI [of _ 0])

lemma ready_trans: "\<not> lossySync q \<Longrightarrow> ready q q1 \<Longrightarrow> ready q1 q2 \<Longrightarrow> ready q q2"
proof -
  assume l: "\<not> lossySync q" and a: "ready q q1" and b: "ready q1 q2"
  have "\<not> lossySync q1" using l a by (simp add: ready_def same_config_def)
  then have p: "pend q2 = pend q" "droppedUnackedSegments q2 = droppedUnackedSegments q"
    using a b l by (simp_all add: ready_def)
  then have "lost_counted q q2 (pend q2)" by (auto simp: lost_counted_def intro: exI [of _ 0])
  then show ?thesis using a b p unfolding ready_def
    by (metis (no_types) order_trans same_config_trans)
qed

text \<open>
  The three outcomes of \<^verbatim>\<open>appendFrame\<close>: refused with the queue unchanged but for its counters,
  a failed roll or a write that failed after \<open>n\<close> bytes, with the error latched, and success.
\<close>

lemma appendFrame_cases:
  assumes I: "wal_inv q" and r: "appendFrame raw u q = ((off, r), q')"
  obtains (refused) q1 where "r \<noteq> None" "ready q q1" "pend q1 = pend q"
      "q' = q1\<lparr>refusedHighWater := refusedHighWater q'\<rparr>"
  | (rollfail) q1 where "r \<noteq> None" "ready q q1" "quiet q1 q'"
  | (written) q1 where "ready q q1" "append_write (raw @ [nl]) u q1 = ((off, r), q')"
      "length raw \<le> walMaxFrameBytes" "lastErr q = None" "\<not> stopped q"
proof -
  consider (early) "length raw > walMaxFrameBytes \<or> stopped q \<or> lastErr q \<noteq> None"
    | (direct) "length raw \<le> walMaxFrameBytes" "\<not> stopped q" "lastErr q = None"
        "\<not> (seg_size (last (segments q)) > 0
          \<and> seg_size (last (segments q)) + length (raw @ [nl]) > maxBytes q)"
    | (full) "length raw \<le> walMaxFrameBytes" "\<not> stopped q" "lastErr q = None"
        "seg_size (last (segments q)) > 0
          \<and> seg_size (last (segments q)) + length (raw @ [nl]) > maxBytes q"
    by fastforce
  then show thesis
  proof cases
    case early
    then have "q' = q \<and> r \<noteq> None" using r by (auto simp: appendFrame_def Let_def split: if_splits option.splits)
    then show thesis using refused [of q] ready_refl [OF I] by simp
  next
    case direct
    then have "append_write (raw @ [nl]) u q = ((off, r), q')"
      using r by (auto simp: appendFrame_def Let_def split: if_splits)
    then show thesis using written [OF ready_refl [OF I]] direct by blast
  next
    case full
    define q1 where "q1 = (if lossySync q then q else gcSegmentsLocked q)"
    have R1: "ready q q1" using gc_ready [OF I] ready_refl [OF I] by (simp add: q1_def)
    have r1: "(if \<not> lossySync q \<and> totalBytes (segments q1) + length (raw @ [nl]) > maxTotalBytes q1 then
         ((offset q1, Some ErrHighWaterRefused), q1\<lparr>refusedHighWater := refusedHighWater q1 + 1\<rparr>)
       else (case rollLocked q1 of
               (Some e, q2) \<Rightarrow> ((offset q2, Some e), q2)
             | (None, q2) \<Rightarrow> append_write (raw @ [nl]) u q2)) = ((off, r), q')"
      using r full unfolding appendFrame_def Let_def q1_def by simp
    have l1: "lossySync q1 = lossySync q" by (simp add: q1_def frame_simps)
    have I1: "wal_inv q1" using R1 by (simp add: ready_def)
    show thesis
    proof (cases "\<not> lossySync q \<and> totalBytes (segments q1) + length (raw @ [nl]) > maxTotalBytes q1")
      case True
      then have q': "q' = q1\<lparr>refusedHighWater := refusedHighWater q1 + 1\<rparr>" "r \<noteq> None"
        using r1 by (auto split: if_splits)
      have "pend q1 = pend q" using gcSegments_pend [OF I] by (simp add: q1_def)
      moreover have "q' = q1\<lparr>refusedHighWater := refusedHighWater q'\<rparr>" using q'(1) by simp
      ultimately show thesis using refused [of q1] q'(2) R1 by blast
    next
      case False
      obtain e q2 where roll: "rollLocked q1 = (e, q2)" by fastforce
      have fit: "\<not> lossySync q1 \<longrightarrow> totalBytes (segments q1) \<le> maxTotalBytes q1"
        using False l1 by auto
      show thesis
      proof (cases e)
        case None
        have roll': "rollLocked q1 = (None, q2)" using roll None by simp
        have R2: "ready q1 q2" by (rule roll_ready [OF I1 roll' fit])
        have "ready q q2"
          using R1 R2 ready_trans [of q q1 q2] by (cases "lossySync q") (auto simp: q1_def)
        moreover have "append_write (raw @ [nl]) u q2 = ((off, r), q')"
          using r1 False roll None by (auto split: if_splits)
        ultimately show thesis using written full by blast
      next
        case (Some e0)
        have "quiet q1 q2" using I1 roll by (cases rule: rollLocked_cases) (use Some in auto)
        moreover have "r \<noteq> None" "q' = q2"
          using r1 False roll Some by (auto split: if_splits)
        ultimately show thesis using rollfail R1 by blast
      qed
    qed
  qed
qed

end
