(* ===== verification/WalFrame.thy ===== *)
theory WalFrame
  imports Json WalContract "HOL-Library.Monad_Syntax"
begin

text \<open>
  The payload of the log: the \<^verbatim>\<open>Event\<close> of \<^verbatim>\<open>src/internal/ingest/buffer.go\<close> with its JSON form, the two
  versioned frames of \<^verbatim>\<open>src/internal/ingest/queue.go\<close>, and the appends that write them.  The opaque
  records of a records frame are JSON values: the raw text of one is its text up to white space.
\<close>

section \<open>Events\<close>

record Event =
  ev_event_id :: string
  ev_tenant_id :: string
  ev_site_id :: string
  ev_session_id :: string
  ev_visit_id :: string
  ev_event_type :: string
  ev_timestamp :: int
  ev_url :: string
  ev_referrer :: string
  ev_title :: string
  ev_hostname :: string
  ev_pathname :: string
  ev_language :: string
  ev_country :: string
  ev_region :: string
  ev_city :: string
  ev_browser :: string
  ev_browser_version :: string
  ev_os :: string
  ev_os_version :: string
  ev_device :: string
  ev_screen_width :: int
  ev_screen_height :: int
  ev_utm_source :: string
  ev_utm_medium :: string
  ev_utm_campaign :: string
  ev_utm_term :: string
  ev_utm_content :: string
  ev_properties :: "(string \<times> json) list option"
  ev_distinct_id :: string
  ev_release_tag :: string

definition zero_event :: Event where
  "zero_event = \<lparr>ev_event_id = [], ev_tenant_id = [], ev_site_id = [], ev_session_id = [], ev_visit_id = [], ev_event_type = [], ev_timestamp = 0, ev_url = [], ev_referrer = [], ev_title = [], ev_hostname = [], ev_pathname = [], ev_language = [], ev_country = [], ev_region = [], ev_city = [], ev_browser = [], ev_browser_version = [], ev_os = [], ev_os_version = [], ev_device = [], ev_screen_width = 0, ev_screen_height = 0, ev_utm_source = [], ev_utm_medium = [], ev_utm_campaign = [], ev_utm_term = [], ev_utm_content = [], ev_properties = None, ev_distinct_id = [], ev_release_tag = []\<rparr>"
text \<open>The members \<^verbatim>\<open>Marshal\<close> writes: 28 always, then the three with \<^verbatim>\<open>omitempty\<close>.\<close>

definition core_names :: "string list" where
  "core_names = [''event_id'', ''tenant_id'', ''site_id'', ''session_id'', ''visit_id'', ''event_type'', ''timestamp'', ''url'', ''referrer'', ''title'', ''hostname'', ''pathname'', ''language'', ''country'', ''region'', ''city'', ''browser'', ''browser_version'', ''os'', ''os_version'', ''device'', ''screen_width'', ''screen_height'', ''utm_source'', ''utm_medium'', ''utm_campaign'', ''utm_term'', ''utm_content'']"

definition core_members :: "Event \<Rightarrow> (string \<times> json) list" where
  "core_members e = zip core_names [JStr (ev_event_id e), JStr (ev_tenant_id e), JStr (ev_site_id e), JStr (ev_session_id e), JStr (ev_visit_id e), JStr (ev_event_type e), JNum (print_int (ev_timestamp e)), JStr (ev_url e), JStr (ev_referrer e), JStr (ev_title e), JStr (ev_hostname e), JStr (ev_pathname e), JStr (ev_language e), JStr (ev_country e), JStr (ev_region e), JStr (ev_city e), JStr (ev_browser e), JStr (ev_browser_version e), JStr (ev_os e), JStr (ev_os_version e), JStr (ev_device e), JNum (print_int (ev_screen_width e)), JNum (print_int (ev_screen_height e)), JStr (ev_utm_source e), JStr (ev_utm_medium e), JStr (ev_utm_campaign e), JStr (ev_utm_term e), JStr (ev_utm_content e)]"

definition opt_members :: "Event \<Rightarrow> (string \<times> json) list" where
  "opt_members e = (case ev_properties e of None \<Rightarrow> [] | Some ms \<Rightarrow> if ms = [] then [] else [(''properties'', JObj ms)])
     @ (if ev_distinct_id e = [] then [] else [(''distinct_id'', JStr (ev_distinct_id e))])
     @ (if ev_release_tag e = [] then [] else [(''release_tag'', JStr (ev_release_tag e))])"

definition event_members :: "Event \<Rightarrow> (string \<times> json) list" where
  "event_members e = core_members e @ opt_members e"

text \<open>A map field merges into the map that is there; \<^verbatim>\<open>null\<close> makes it nil.\<close>

fun merge_members :: "(string \<times> json) list \<Rightarrow> (string \<times> json) list \<Rightarrow> (string \<times> json) list" where
  "merge_members m [] = m"
| "merge_members m ((k, v) # ms) = merge_members (AList.update k v m) ms"

fun dec_map :: "(string \<times> json) list option \<Rightarrow> json \<Rightarrow> (string \<times> json) list option option" where
  "dec_map x JNull = Some None"
| "dec_map x (JObj ms) = Some (Some (merge_members (case x of None \<Rightarrow> [] | Some m \<Rightarrow> m) ms))"
| "dec_map x _ = None"

definition dec_event :: "Event \<Rightarrow> json \<Rightarrow> Event option" where
  "dec_event e j = (case j of
     JNull \<Rightarrow> Some e
   | JObj ms \<Rightarrow> do {
       v_event_id \<leftarrow> fill dec_string ''event_id'' (ev_event_id e) ms;
       v_tenant_id \<leftarrow> fill dec_string ''tenant_id'' (ev_tenant_id e) ms;
       v_site_id \<leftarrow> fill dec_string ''site_id'' (ev_site_id e) ms;
       v_session_id \<leftarrow> fill dec_string ''session_id'' (ev_session_id e) ms;
       v_visit_id \<leftarrow> fill dec_string ''visit_id'' (ev_visit_id e) ms;
       v_event_type \<leftarrow> fill dec_string ''event_type'' (ev_event_type e) ms;
       v_timestamp \<leftarrow> fill dec_int64 ''timestamp'' (ev_timestamp e) ms;
       v_url \<leftarrow> fill dec_string ''url'' (ev_url e) ms;
       v_referrer \<leftarrow> fill dec_string ''referrer'' (ev_referrer e) ms;
       v_title \<leftarrow> fill dec_string ''title'' (ev_title e) ms;
       v_hostname \<leftarrow> fill dec_string ''hostname'' (ev_hostname e) ms;
       v_pathname \<leftarrow> fill dec_string ''pathname'' (ev_pathname e) ms;
       v_language \<leftarrow> fill dec_string ''language'' (ev_language e) ms;
       v_country \<leftarrow> fill dec_string ''country'' (ev_country e) ms;
       v_region \<leftarrow> fill dec_string ''region'' (ev_region e) ms;
       v_city \<leftarrow> fill dec_string ''city'' (ev_city e) ms;
       v_browser \<leftarrow> fill dec_string ''browser'' (ev_browser e) ms;
       v_browser_version \<leftarrow> fill dec_string ''browser_version'' (ev_browser_version e) ms;
       v_os \<leftarrow> fill dec_string ''os'' (ev_os e) ms;
       v_os_version \<leftarrow> fill dec_string ''os_version'' (ev_os_version e) ms;
       v_device \<leftarrow> fill dec_string ''device'' (ev_device e) ms;
       v_screen_width \<leftarrow> fill dec_int64 ''screen_width'' (ev_screen_width e) ms;
       v_screen_height \<leftarrow> fill dec_int64 ''screen_height'' (ev_screen_height e) ms;
       v_utm_source \<leftarrow> fill dec_string ''utm_source'' (ev_utm_source e) ms;
       v_utm_medium \<leftarrow> fill dec_string ''utm_medium'' (ev_utm_medium e) ms;
       v_utm_campaign \<leftarrow> fill dec_string ''utm_campaign'' (ev_utm_campaign e) ms;
       v_utm_term \<leftarrow> fill dec_string ''utm_term'' (ev_utm_term e) ms;
       v_utm_content \<leftarrow> fill dec_string ''utm_content'' (ev_utm_content e) ms;
       v_properties \<leftarrow> fill dec_map ''properties'' (ev_properties e) ms;
       v_distinct_id \<leftarrow> fill dec_string ''distinct_id'' (ev_distinct_id e) ms;
       v_release_tag \<leftarrow> fill dec_string ''release_tag'' (ev_release_tag e) ms;
       Some \<lparr>ev_event_id = v_event_id, ev_tenant_id = v_tenant_id, ev_site_id = v_site_id, ev_session_id = v_session_id, ev_visit_id = v_visit_id, ev_event_type = v_event_type, ev_timestamp = v_timestamp, ev_url = v_url, ev_referrer = v_referrer, ev_title = v_title, ev_hostname = v_hostname, ev_pathname = v_pathname, ev_language = v_language, ev_country = v_country, ev_region = v_region, ev_city = v_city, ev_browser = v_browser, ev_browser_version = v_browser_version, ev_os = v_os, ev_os_version = v_os_version, ev_device = v_device, ev_screen_width = v_screen_width, ev_screen_height = v_screen_height, ev_utm_source = v_utm_source, ev_utm_medium = v_utm_medium, ev_utm_campaign = v_utm_campaign, ev_utm_term = v_utm_term, ev_utm_content = v_utm_content, ev_properties = v_properties, ev_distinct_id = v_distinct_id, ev_release_tag = v_release_tag\<rparr>}
   | _ \<Rightarrow> None)"

section \<open>Frames\<close>

definition walBatchVersion :: int where "walBatchVersion = 1"
definition walRecordVersion :: int where "walRecordVersion = 2"

record walFrame =
  isRecords :: bool
  events :: "Event list"
  records :: "json list"

datatype frame_error = BadJson | NoEvents | NoRecords | UnsupportedVersion int

text \<open>\<^verbatim>\<open>Unmarshal\<close> into the probe struct: a version pointer and two slices that may stay nil.\<close>

fun dec_ptr :: "int option \<Rightarrow> json \<Rightarrow> int option option" where
  "dec_ptr x JNull = Some None"
| "dec_ptr x (JNum l) = map_option Some (parse_int64 l)"
| "dec_ptr x _ = None"

fun dec_raw :: "json \<Rightarrow> json \<Rightarrow> json option" where
  "dec_raw x j = Some j"

definition dec_probe :: "json \<Rightarrow> (int option \<times> Event list option \<times> json list option) option" where
  "dec_probe j = (case j of
     JNull \<Rightarrow> Some (None, None, None)
   | JObj ms \<Rightarrow> do {
       v \<leftarrow> fill dec_ptr ''wal_version'' None ms;
       es \<leftarrow> fill (dec_slice dec_event zero_event) ''events'' None ms;
       rs \<leftarrow> fill (dec_slice dec_raw JNull) ''records'' None ms;
       Some (v, es, rs)}
   | _ \<Rightarrow> None)"

definition decodeWALFrame :: "bytes \<Rightarrow> frame_error + walFrame" where
  "decodeWALFrame line = (case parse_json line of
     None \<Rightarrow> Inl BadJson
   | Some j \<Rightarrow> (case dec_probe j of
       None \<Rightarrow> Inl BadJson
     | Some (version, es, rs) \<Rightarrow> (case version of
         None \<Rightarrow> (case dec_event zero_event j of
             None \<Rightarrow> Inl BadJson
           | Some e \<Rightarrow> Inr \<lparr>isRecords = False, events = [e], records = []\<rparr>)
       | Some v \<Rightarrow>
           if v = walBatchVersion then
             (case es of None \<Rightarrow> Inl NoEvents
              | Some l \<Rightarrow> Inr \<lparr>isRecords = False, events = l, records = []\<rparr>)
           else if v = walRecordVersion then
             (case rs of None \<Rightarrow> Inl NoRecords
              | Some l \<Rightarrow> Inr \<lparr>isRecords = True, events = [], records = l\<rparr>)
           else Inl (UnsupportedVersion v))))"

definition batch_frame :: "Event list \<Rightarrow> json" where
  "batch_frame es = JObj [(''wal_version'', JNum (print_int walBatchVersion)),
     (''events'', JArr (map (\<lambda>e. JObj (event_members e)) es))]"

definition record_frame :: "json list \<Rightarrow> json" where
  "record_frame rs = JObj [(''wal_version'', JNum (print_int walRecordVersion)), (''records'', JArr rs)]"

definition AppendBatch :: "Event list \<Rightarrow> diskQueue \<Rightarrow> (nat \<times> wal_error option) \<times> diskQueue" where
  "AppendBatch es q = (if es = [] then ((offset q, None), q)
     else appendFrame (print_json (batch_frame es)) (length es) q)"

definition Append :: "Event \<Rightarrow> diskQueue \<Rightarrow> (nat \<times> wal_error option) \<times> diskQueue" where
  "Append e q = AppendBatch [e] q"

definition AppendRecords :: "json list \<Rightarrow> diskQueue \<Rightarrow> (nat \<times> wal_error option) \<times> diskQueue" where
  "AppendRecords rs q = (if rs = [] then ((offset q, None), q)
     else appendFrame (print_json (record_frame rs)) (length rs) q)"

section \<open>A written frame is read back\<close>

definition event_ok :: "Event \<Rightarrow> bool" where
  "event_ok e \<longleftrightarrow> (\<forall>n \<in> {ev_timestamp e, ev_screen_width e, ev_screen_height e}. - (2 ^ 63) \<le> n \<and> n < 2 ^ 63)
     \<and> (case ev_properties e of None \<Rightarrow> True
        | Some ms \<Rightarrow> ms \<noteq> [] \<and> distinct (map fst ms) \<and> members_ok ms)"

lemma merge_members_new: "distinct (map fst (m @ ms)) \<Longrightarrow> merge_members m ms = m @ ms"
proof (induction ms arbitrary: m)
  case (Cons kv ms)
  obtain k v where kv: "kv = (k, v)" by fastforce
  have "k \<notin> fst ` set m" using Cons.prems kv by auto
  then have "AList.update k v m = m @ [(k, v)]" by (induction m) auto
  moreover have "merge_members (m @ [(k, v)]) ms = (m @ [(k, v)]) @ ms"
    by (rule Cons.IH) (use Cons.prems kv in auto)
  ultimately show ?case using kv by simp
qed simp

lemma fill_append: "fill dec f x (xs @ ys) = (case fill dec f x xs of None \<Rightarrow> None | Some y \<Rightarrow> fill dec f y ys)"
  by (induction dec f x xs rule: fill.induct) (auto split: option.splits)

lemma lower_idem: "list_all (\<lambda>c. \<not> (65 \<le> (of_char c :: nat) \<and> of_char c \<le> (90 :: nat))) s \<Longrightarrow> map lower s = s"
  by (induction s) (auto simp: lower_def Let_def)

lemma key_match_low: "map lower f = f \<Longrightarrow> map lower k = k \<Longrightarrow> key_match f k \<longleftrightarrow> f = k"
  by (simp add: key_match_def)

lemma low_names:
  "map lower ''event_id'' = ''event_id''"
  "map lower ''tenant_id'' = ''tenant_id''"
  "map lower ''site_id'' = ''site_id''"
  "map lower ''session_id'' = ''session_id''"
  "map lower ''visit_id'' = ''visit_id''"
  "map lower ''event_type'' = ''event_type''"
  "map lower ''timestamp'' = ''timestamp''"
  "map lower ''url'' = ''url''"
  "map lower ''referrer'' = ''referrer''"
  "map lower ''title'' = ''title''"
  "map lower ''hostname'' = ''hostname''"
  "map lower ''pathname'' = ''pathname''"
  "map lower ''language'' = ''language''"
  "map lower ''country'' = ''country''"
  "map lower ''region'' = ''region''"
  "map lower ''city'' = ''city''"
  "map lower ''browser'' = ''browser''"
  "map lower ''browser_version'' = ''browser_version''"
  "map lower ''os'' = ''os''"
  "map lower ''os_version'' = ''os_version''"
  "map lower ''device'' = ''device''"
  "map lower ''screen_width'' = ''screen_width''"
  "map lower ''screen_height'' = ''screen_height''"
  "map lower ''utm_source'' = ''utm_source''"
  "map lower ''utm_medium'' = ''utm_medium''"
  "map lower ''utm_campaign'' = ''utm_campaign''"
  "map lower ''utm_term'' = ''utm_term''"
  "map lower ''utm_content'' = ''utm_content''"
  "map lower ''properties'' = ''properties''"
  "map lower ''distinct_id'' = ''distinct_id''"
  "map lower ''release_tag'' = ''release_tag''"
  by (rule lower_idem, simp)+

lemma fill_absent: "\<forall>k \<in> fst ` set ms. \<not> key_match f k \<Longrightarrow> fill dec f x ms = Some x"
  by (induction dec f x ms rule: fill.induct) auto

lemma fill_mem:
  assumes "distinct (map fst ms)" "\<forall>k \<in> fst ` set ms. map lower k = k" "map lower f = f" "(f, v) \<in> set ms"
  shows "fill dec f x ms = dec x v"
proof -
  obtain xs ys where ms: "ms = xs @ (f, v) # ys" using assms(4) by (auto simp: in_set_conv_decomp)
  have "\<forall>k \<in> fst ` set (xs @ ys). \<not> key_match f k"
    using assms(1-3) unfolding ms by (auto simp: key_match_low)
  then have "fill dec f x xs = Some x" "\<And>y. fill dec f y ys = Some y"
    by (auto intro!: fill_absent)
  then show ?thesis
    by (simp add: ms fill_append key_match_def split: option.split)
qed

lemma fill_not_mem:
  "\<forall>k \<in> fst ` set ms. map lower k = k \<Longrightarrow> map lower f = f \<Longrightarrow> f \<notin> fst ` set ms \<Longrightarrow> fill dec f x ms = Some x"
  by (rule fill_absent) (auto simp: key_match_low)

lemma event_members_split: "event_members e = core_members e @ opt_members e"
  by (simp add: event_members_def)

lemma core_keys: "map fst (core_members e) = core_names"
  by (simp add: core_members_def core_names_def)

lemma core_names_distinct: "distinct core_names"
  by (simp add: core_names_def)

definition opt_names :: "string list" where
  "opt_names = [''properties'', ''distinct_id'', ''release_tag'']"

lemma opt_keys: "set (map fst (opt_members e)) \<subseteq> set opt_names"
  by (auto simp: opt_members_def opt_names_def split: option.splits if_splits)

lemma opt_distinct: "distinct (map fst (opt_members e))"
  by (auto simp: opt_members_def split: option.splits)

lemma core_not_opt: "set core_names \<inter> set opt_names = {}"
  by (simp add: core_names_def opt_names_def)

lemma opt_names_low: "k \<in> set opt_names \<Longrightarrow> map lower k = k"
  by (auto simp: opt_names_def lower_def)

lemma event_keys:
  "distinct (map fst (event_members e))" "\<forall>k \<in> fst ` set (event_members e). map lower k = k"
proof -
  have "set (map fst (core_members e)) \<inter> set (map fst (opt_members e)) = {}"
    using opt_keys [of e] core_not_opt core_keys [of e] by (metis disjoint_iff subsetD)
  then show "distinct (map fst (event_members e))"
    unfolding event_members_split map_append distinct_append
    using core_names_distinct core_keys [of e] opt_distinct [of e] by simp
  have "list_all (\<lambda>k. map lower k = k) core_names" by (simp add: core_names_def lower_def)
  then have "\<forall>k \<in> set (map fst (core_members e)). map lower k = k"
    unfolding core_keys by (simp add: list_all_iff)
  moreover have "\<forall>k \<in> set (map fst (opt_members e)). map lower k = k"
    using opt_keys [of e] opt_names_low by blast
  ultimately show "\<forall>k \<in> fst ` set (event_members e). map lower k = k"
    unfolding event_members_split by auto
qed

lemmas event_fill = fill_mem [OF event_keys]

lemma event_mem:
  "(''event_id'', JStr (ev_event_id e)) \<in> set (event_members e)"
  "(''tenant_id'', JStr (ev_tenant_id e)) \<in> set (event_members e)"
  "(''site_id'', JStr (ev_site_id e)) \<in> set (event_members e)"
  "(''session_id'', JStr (ev_session_id e)) \<in> set (event_members e)"
  "(''visit_id'', JStr (ev_visit_id e)) \<in> set (event_members e)"
  "(''event_type'', JStr (ev_event_type e)) \<in> set (event_members e)"
  "(''timestamp'', JNum (print_int (ev_timestamp e))) \<in> set (event_members e)"
  "(''url'', JStr (ev_url e)) \<in> set (event_members e)"
  "(''referrer'', JStr (ev_referrer e)) \<in> set (event_members e)"
  "(''title'', JStr (ev_title e)) \<in> set (event_members e)"
  "(''hostname'', JStr (ev_hostname e)) \<in> set (event_members e)"
  "(''pathname'', JStr (ev_pathname e)) \<in> set (event_members e)"
  "(''language'', JStr (ev_language e)) \<in> set (event_members e)"
  "(''country'', JStr (ev_country e)) \<in> set (event_members e)"
  "(''region'', JStr (ev_region e)) \<in> set (event_members e)"
  "(''city'', JStr (ev_city e)) \<in> set (event_members e)"
  "(''browser'', JStr (ev_browser e)) \<in> set (event_members e)"
  "(''browser_version'', JStr (ev_browser_version e)) \<in> set (event_members e)"
  "(''os'', JStr (ev_os e)) \<in> set (event_members e)"
  "(''os_version'', JStr (ev_os_version e)) \<in> set (event_members e)"
  "(''device'', JStr (ev_device e)) \<in> set (event_members e)"
  "(''screen_width'', JNum (print_int (ev_screen_width e))) \<in> set (event_members e)"
  "(''screen_height'', JNum (print_int (ev_screen_height e))) \<in> set (event_members e)"
  "(''utm_source'', JStr (ev_utm_source e)) \<in> set (event_members e)"
  "(''utm_medium'', JStr (ev_utm_medium e)) \<in> set (event_members e)"
  "(''utm_campaign'', JStr (ev_utm_campaign e)) \<in> set (event_members e)"
  "(''utm_term'', JStr (ev_utm_term e)) \<in> set (event_members e)"
  "(''utm_content'', JStr (ev_utm_content e)) \<in> set (event_members e)"
  unfolding event_members_split core_members_def core_names_def by simp_all

lemma event_fill_core:
  "fill dec ''event_id'' x (event_members e) = dec x (JStr (ev_event_id e))"
  "fill dec ''tenant_id'' x (event_members e) = dec x (JStr (ev_tenant_id e))"
  "fill dec ''site_id'' x (event_members e) = dec x (JStr (ev_site_id e))"
  "fill dec ''session_id'' x (event_members e) = dec x (JStr (ev_session_id e))"
  "fill dec ''visit_id'' x (event_members e) = dec x (JStr (ev_visit_id e))"
  "fill dec ''event_type'' x (event_members e) = dec x (JStr (ev_event_type e))"
  "fill dec ''timestamp'' x (event_members e) = dec x (JNum (print_int (ev_timestamp e)))"
  "fill dec ''url'' x (event_members e) = dec x (JStr (ev_url e))"
  "fill dec ''referrer'' x (event_members e) = dec x (JStr (ev_referrer e))"
  "fill dec ''title'' x (event_members e) = dec x (JStr (ev_title e))"
  "fill dec ''hostname'' x (event_members e) = dec x (JStr (ev_hostname e))"
  "fill dec ''pathname'' x (event_members e) = dec x (JStr (ev_pathname e))"
  "fill dec ''language'' x (event_members e) = dec x (JStr (ev_language e))"
  "fill dec ''country'' x (event_members e) = dec x (JStr (ev_country e))"
  "fill dec ''region'' x (event_members e) = dec x (JStr (ev_region e))"
  "fill dec ''city'' x (event_members e) = dec x (JStr (ev_city e))"
  "fill dec ''browser'' x (event_members e) = dec x (JStr (ev_browser e))"
  "fill dec ''browser_version'' x (event_members e) = dec x (JStr (ev_browser_version e))"
  "fill dec ''os'' x (event_members e) = dec x (JStr (ev_os e))"
  "fill dec ''os_version'' x (event_members e) = dec x (JStr (ev_os_version e))"
  "fill dec ''device'' x (event_members e) = dec x (JStr (ev_device e))"
  "fill dec ''screen_width'' x (event_members e) = dec x (JNum (print_int (ev_screen_width e)))"
  "fill dec ''screen_height'' x (event_members e) = dec x (JNum (print_int (ev_screen_height e)))"
  "fill dec ''utm_source'' x (event_members e) = dec x (JStr (ev_utm_source e))"
  "fill dec ''utm_medium'' x (event_members e) = dec x (JStr (ev_utm_medium e))"
  "fill dec ''utm_campaign'' x (event_members e) = dec x (JStr (ev_utm_campaign e))"
  "fill dec ''utm_term'' x (event_members e) = dec x (JStr (ev_utm_term e))"
  "fill dec ''utm_content'' x (event_members e) = dec x (JStr (ev_utm_content e))"
  by (rule event_fill [OF low_names(1) event_mem(1)],
    rule event_fill [OF low_names(2) event_mem(2)],
    rule event_fill [OF low_names(3) event_mem(3)],
    rule event_fill [OF low_names(4) event_mem(4)],
    rule event_fill [OF low_names(5) event_mem(5)],
    rule event_fill [OF low_names(6) event_mem(6)],
    rule event_fill [OF low_names(7) event_mem(7)],
    rule event_fill [OF low_names(8) event_mem(8)],
    rule event_fill [OF low_names(9) event_mem(9)],
    rule event_fill [OF low_names(10) event_mem(10)],
    rule event_fill [OF low_names(11) event_mem(11)],
    rule event_fill [OF low_names(12) event_mem(12)],
    rule event_fill [OF low_names(13) event_mem(13)],
    rule event_fill [OF low_names(14) event_mem(14)],
    rule event_fill [OF low_names(15) event_mem(15)],
    rule event_fill [OF low_names(16) event_mem(16)],
    rule event_fill [OF low_names(17) event_mem(17)],
    rule event_fill [OF low_names(18) event_mem(18)],
    rule event_fill [OF low_names(19) event_mem(19)],
    rule event_fill [OF low_names(20) event_mem(20)],
    rule event_fill [OF low_names(21) event_mem(21)],
    rule event_fill [OF low_names(22) event_mem(22)],
    rule event_fill [OF low_names(23) event_mem(23)],
    rule event_fill [OF low_names(24) event_mem(24)],
    rule event_fill [OF low_names(25) event_mem(25)],
    rule event_fill [OF low_names(26) event_mem(26)],
    rule event_fill [OF low_names(27) event_mem(27)],
    rule event_fill [OF low_names(28) event_mem(28)])

lemma event_fill_opt:
  "fill dec ''properties'' x (event_members e) = (case ev_properties e of None \<Rightarrow> Some x
     | Some ms \<Rightarrow> if ms = [] then Some x else dec x (JObj ms))"
  "fill dec ''distinct_id'' x (event_members e) =
     (if ev_distinct_id e = [] then Some x else dec x (JStr (ev_distinct_id e)))"
  "fill dec ''release_tag'' x (event_members e) =
     (if ev_release_tag e = [] then Some x else dec x (JStr (ev_release_tag e)))"
proof -
  have c: "f \<in> set opt_names \<Longrightarrow> f \<notin> fst ` set (core_members e)" for f
    using core_not_opt core_keys [of e] by (metis disjoint_iff set_map)
  have a: "fill dec f x (event_members e) = dec x v" if "map lower f = f" "(f, v) \<in> set (opt_members e)" for f v
    by (rule event_fill [OF that(1)]) (use that in \<open>simp add: event_members_split\<close>)
  have b: "fill dec f x (event_members e) = Some x"
    if "map lower f = f" "f \<notin> fst ` set (opt_members e)" "f \<in> set opt_names" for f
    by (rule fill_not_mem [OF event_keys(2) that(1)])
      (use that(2) c [OF that(3)] in \<open>simp add: event_members_split image_Un\<close>)
  have opt_mem: "''properties'' \<in> set opt_names" "''distinct_id'' \<in> set opt_names"
    "''release_tag'' \<in> set opt_names" by (simp_all add: opt_names_def)
  show "fill dec ''properties'' x (event_members e) = (case ev_properties e of None \<Rightarrow> Some x
     | Some ms \<Rightarrow> if ms = [] then Some x else dec x (JObj ms))"
  proof (cases "\<exists>m ms. ev_properties e = Some (m # ms)")
    case True
    then obtain m ms where p: "ev_properties e = Some (m # ms)" by blast
    have "(''properties'', JObj (m # ms)) \<in> set (opt_members e)" by (simp add: opt_members_def p)
    from a [OF low_names(29) this] show ?thesis by (simp add: p)
  next
    case False
    then have p: "ev_properties e = None \<or> ev_properties e = Some []"
      by (metis neq_Nil_conv option.exhaust)
    then have "''properties'' \<notin> fst ` set (opt_members e)"
      by (auto simp: opt_members_def)
    from b [OF low_names(29) this] opt_mem p show ?thesis by auto
  qed
  show "fill dec ''distinct_id'' x (event_members e) =
     (if ev_distinct_id e = [] then Some x else dec x (JStr (ev_distinct_id e)))"
  proof (cases "ev_distinct_id e = []")
    case False
    then have "(''distinct_id'', JStr (ev_distinct_id e)) \<in> set (opt_members e)" by (simp add: opt_members_def)
    from a [OF low_names(30) this] False show ?thesis by simp
  next
    case True
    then have "''distinct_id'' \<notin> fst ` set (opt_members e)"
      by (auto simp: opt_members_def split: option.splits)
    from b [OF low_names(30) this] opt_mem True show ?thesis by simp
  qed
  show "fill dec ''release_tag'' x (event_members e) =
     (if ev_release_tag e = [] then Some x else dec x (JStr (ev_release_tag e)))"
  proof (cases "ev_release_tag e = []")
    case False
    then have "(''release_tag'', JStr (ev_release_tag e)) \<in> set (opt_members e)" by (simp add: opt_members_def)
    from a [OF low_names(31) this] False show ?thesis by simp
  next
    case True
    then have "''release_tag'' \<notin> fst ` set (opt_members e)"
      by (auto simp: opt_members_def split: option.splits)
    from b [OF low_names(31) this] opt_mem True show ?thesis by simp
  qed
qed

lemma dec_event_members:
  assumes "event_ok e"
  shows "dec_event zero_event (JObj (event_members e)) = Some e"
proof -
  have n: "parse_int64 (print_int (ev_timestamp e)) = Some (ev_timestamp e)"
    "parse_int64 (print_int (ev_screen_width e)) = Some (ev_screen_width e)"
    "parse_int64 (print_int (ev_screen_height e)) = Some (ev_screen_height e)"
    using assms by (auto simp: event_ok_def intro!: parse_print_int)
  have p: "(case ev_properties e of None \<Rightarrow> Some None | Some ms \<Rightarrow> if ms = [] then Some None
      else dec_map None (JObj ms)) = Some (ev_properties e)"
    using assms merge_members_new [of "[]"] by (auto simp: event_ok_def split: option.splits)
  have d: "(if ev_distinct_id e = [] then Some [] else Some (ev_distinct_id e)) = Some (ev_distinct_id e)"
    "(if ev_release_tag e = [] then Some [] else Some (ev_release_tag e)) = Some (ev_release_tag e)"
    by simp_all
  have z: "fill dec_int64 f (ev_timestamp zero_event) ms = fill dec_int64 f 0 ms" for f ms
    by (simp add: zero_event_def)
  show ?thesis
    apply (simp only: dec_event_def json.case zero_event_def Event.simps event_fill_core)
    apply (simp only: event_fill_opt dec_string.simps dec_int64.simps n)
    apply (simp only: p d)
    apply (simp only: Option.bind.simps)
    apply (simp only: option.inject)
    apply (rule Event.equality)
    apply (simp_all only: Event.simps)
    apply simp
    done
qed

text \<open>Members of the probe: the fixed names of the two frames.\<close>

lemma frame_keys:
  "key_match ''wal_version'' ''wal_version''" "\<not> key_match ''wal_version'' ''events''"
  "\<not> key_match ''wal_version'' ''records''" "key_match ''events'' ''events''"
  "\<not> key_match ''events'' ''wal_version''" "\<not> key_match ''events'' ''records''"
  "key_match ''records'' ''records''" "\<not> key_match ''records'' ''wal_version''"
  "\<not> key_match ''records'' ''events''"
  by (simp_all add: key_match_def lower_def)

lemma dec_list_map: "(\<And>x. x \<in> set xs \<Longrightarrow> dec z (g x) = Some x) \<Longrightarrow> dec_list dec z (map g xs) = Some xs"
  by (induction xs) auto

lemma dec_list_raw: "dec_list dec_raw z rs = Some rs"
  by (induction rs) auto

lemma elems_ok_iff: "elems_ok vs = list_all json_ok vs"
  by (induction vs) auto

lemma members_ok_iff: "members_ok ms = list_all (json_ok \<circ> snd) ms"
  by (induction ms) auto

lemma core_members_ok: "list_all (json_ok \<circ> snd) (core_members e)"
  unfolding core_members_def core_names_def by (simp add: print_int_number_ok)

lemma event_members_ok: "event_ok e \<Longrightarrow> members_ok (event_members e)"
  using core_members_ok [of e]
  by (auto simp: members_ok_iff event_members_def opt_members_def event_ok_def split: option.splits)

lemma batch_frame_ok: "list_all event_ok es \<Longrightarrow> json_ok (batch_frame es)"
  by (auto simp: batch_frame_def elems_ok_iff list_all_iff event_members_ok print_int_number_ok)

lemma record_frame_ok: "list_all json_ok rs \<Longrightarrow> json_ok (record_frame rs)"
  by (simp add: record_frame_def elems_ok_iff print_int_number_ok)

lemma versions: "parse_int64 (print_int walBatchVersion) = Some 1"
  "parse_int64 (print_int walRecordVersion) = Some 2"
  using parse_print_int [of 1] parse_print_int [of 2] by (simp_all add: walBatchVersion_def walRecordVersion_def)

lemma decode_batch:
  assumes "list_all event_ok es"
  shows "decodeWALFrame (print_json (batch_frame es)) = Inr \<lparr>isRecords = False, events = es, records = []\<rparr>"
proof -
  have l: "dec_list dec_event zero_event (map (\<lambda>e. JObj (event_members e)) es) = Some es"
    by (rule dec_list_map) (use assms in \<open>simp add: list_all_iff dec_event_members\<close>)
  have "dec_probe (batch_frame es) = Some (Some 1, Some es, None)"
    by (simp add: dec_probe_def batch_frame_def frame_keys versions l)
  then show ?thesis
    by (simp add: decodeWALFrame_def parse_json_print [OF batch_frame_ok [OF assms]] walBatchVersion_def)
qed

lemma decode_record:
  assumes "list_all json_ok rs"
  shows "decodeWALFrame (print_json (record_frame rs)) = Inr \<lparr>isRecords = True, events = [], records = rs\<rparr>"
proof -
  have "dec_probe (record_frame rs) = Some (Some 2, None, Some rs)"
    by (simp add: dec_probe_def record_frame_def frame_keys versions dec_list_raw)
  then show ?thesis
    by (simp add: decodeWALFrame_def parse_json_print [OF record_frame_ok [OF assms]]
        walBatchVersion_def walRecordVersion_def)
qed

end
