(* ===== verification/WalReplay.thy ===== *)
theory WalReplay
  imports WalFrame
begin

text \<open>
  The replay walk of \<^verbatim>\<open>src/internal/ingest/queue.go\<close>: \<^verbatim>\<open>streamFrames\<close> reads every segment from the
  checkpoint on, line by line through a \<^verbatim>\<open>bufio.Scanner\<close>, decodes each line and hands it to a
  consumer with the log offset after it.  The consumer threads a state of its own and may fail.
  The main result: a log that holds a sequence of frames is replayed as exactly that sequence.
\<close>

section \<open>The walk\<close>

datatype stream_error =
    SE_Closed | SE_Flush | SE_Open | SE_Seek | SE_Corrupt frame_error | SE_Identity
  | SE_Consumer | SE_TooLong | SE_Read

text \<open>The second argument of \<^verbatim>\<open>scanner.Buffer\<close>.\<close>

definition scannerMax :: nat where "scannerMax = walMaxFrameBytes + 2 ^ 20"

text \<open>\<^verbatim>\<open>ScanLines\<close> drops a trailing carriage return.\<close>

definition drop_cr :: "bytes \<Rightarrow> bytes" where
  "drop_cr l = (if l \<noteq> [] \<and> last l = cr then butlast l else l)"

definition has_identity :: "walFrame \<Rightarrow> bool" where
  "has_identity f \<longleftrightarrow> isRecords f \<or> list_all (\<lambda>e. ev_event_id e \<noteq> [] \<and> ev_site_id e \<noteq> []) (events f)"

type_synonym 's consumer = "walFrame \<Rightarrow> nat \<Rightarrow> 's \<Rightarrow> bool \<times> 's"

text \<open>
  The scan of one file from some position on.  The scanner gives up when its buffer of
  \<open>scannerMax\<close> bytes is full and holds no newline.
\<close>

function scan_loop :: "'s consumer \<Rightarrow> bytes \<Rightarrow> nat \<Rightarrow> 's \<Rightarrow> stream_error option \<times> 's" where
  "scan_loop fn d pos st =
     (if d = [] then (None, st)
      else let l = takeWhile (\<lambda>c. c \<noteq> nl) d; rest = drop (length l + 1) d; line = drop_cr l in
        if length l \<ge> scannerMax then (Some SE_TooLong, st)
        else if line = [] then scan_loop fn rest (pos + 1) st
        else (case decodeWALFrame line of
                Inl e \<Rightarrow> (Some (SE_Corrupt e), st)
              | Inr f \<Rightarrow>
                  if \<not> has_identity f then (Some SE_Identity, st)
                  else (case fn f (pos + length line + 1) st of
                          (ok, st') \<Rightarrow> if \<not> ok then (Some SE_Consumer, st')
                                      else scan_loop fn rest (pos + length line + 1) st')))"
  by pat_completeness auto
termination
  by (relation "measure (\<lambda>(fn, d, pos, st). length d)") auto

declare scan_loop.simps [simp del]

text \<open>
  A file is opened, positioned, read and closed; a read that fails after \<open>k\<close> bytes still delivers
  the lines of those bytes, the last one possibly incomplete.
\<close>

definition stream_file :: "'s consumer \<Rightarrow> string \<Rightarrow> nat \<Rightarrow> nat \<Rightarrow> 's \<Rightarrow> wal_io
    \<Rightarrow> (stream_error option \<times> 's) \<times> wal_io" where
  "stream_file fn name start pos st w =
     (if \<not> file_exists (dir w) name then ((Some SE_Open, st), w) else
      case os_call w of (ok1, w1) \<Rightarrow>
      if \<not> ok1 then ((Some SE_Open, st), w1) else
      case os_call w1 of (ok2, w2) \<Rightarrow>
      if \<not> ok2 then ((Some SE_Seek, st), w2) else
      let data = drop start (file_data (dir w2) name) in
      case next_io w2 of (r, w3) \<Rightarrow>
      (case r of
         IoOk \<Rightarrow> (case scan_loop fn data pos st of
                    (Some e, st') \<Rightarrow> ((Some e, st'), w3)
                  | (None, st') \<Rightarrow> (case os_call w3 of (ok4, w4) \<Rightarrow>
                      if ok4 then ((None, st'), w4) else ((Some SE_Read, st'), w4)))
       | IoErr k \<Rightarrow> (case scan_loop fn (take k data) pos st of
                    (Some e, st') \<Rightarrow> ((Some e, st'), w3)
                  | (None, st') \<Rightarrow> ((Some SE_Read, st'), w3))))"

fun stream_segs :: "'s consumer \<Rightarrow> nat \<Rightarrow> nat \<Rightarrow> walSegment list \<Rightarrow> 's \<Rightarrow> wal_io
    \<Rightarrow> (stream_error option \<times> 's) \<times> wal_io" where
  "stream_segs fn cs co [] st w = ((None, st), w)"
| "stream_segs fn cs co (seg # ss) st w =
     (if seg_idx seg < cs then stream_segs fn cs co ss st w
      else let start = (if seg_idx seg = cs then co else 0) in
        if start \<ge> seg_size seg then stream_segs fn cs co ss st w
        else (case stream_file fn (seg_name seg) start (seg_base seg + start) st w of
                ((Some e, st'), w') \<Rightarrow> ((Some e, st'), w')
              | ((None, st'), w') \<Rightarrow> stream_segs fn cs co ss st' w'))"

definition streamFrames :: "'s consumer \<Rightarrow> 's \<Rightarrow> diskQueue \<Rightarrow> (stream_error option \<times> 's) \<times> diskQueue" where
  "streamFrames fn st q =
     (if stopped q then ((Some SE_Closed, st), q)
      else if cpLogical q \<ge> offset q then ((None, st), q)
      else case bufio_flush (qio q) of (ok, w1) \<Rightarrow>
        if \<not> ok then ((Some SE_Flush, st), q\<lparr>qio := w1\<rparr>)
        else (case stream_segs fn (cpSeg q) (cpOff q) (segments q) st w1 of
                (r, w2) \<Rightarrow> (r, q\<lparr>qio := w2\<rparr>)))"

definition StreamPending :: "(Event list \<Rightarrow> 's \<Rightarrow> bool \<times> 's) \<Rightarrow> 's \<Rightarrow> diskQueue
    \<Rightarrow> (stream_error option \<times> 's) \<times> diskQueue" where
  "StreamPending fn st q =
     streamFrames (\<lambda>f off s. if isRecords f then (False, s) else fn (events f) s) st q"

definition StreamRecordFrames :: "(json list \<Rightarrow> nat \<Rightarrow> 's \<Rightarrow> bool \<times> 's) \<Rightarrow> 's \<Rightarrow> diskQueue
    \<Rightarrow> (stream_error option \<times> 's) \<times> diskQueue" where
  "StreamRecordFrames fn st q =
     streamFrames (\<lambda>f off s. if \<not> isRecords f then (False, s) else fn (records f) off s) st q"

definition Pending :: "diskQueue \<Rightarrow> (stream_error + Event list) \<times> diskQueue" where
  "Pending q = (case StreamPending (\<lambda>es out. (True, out @ es)) [] q of
     ((None, out), q1) \<Rightarrow> (Inr out, q1)
   | ((Some e, out), q1) \<Rightarrow> (Inl e, q1))"

section \<open>What a replay should deliver\<close>

text \<open>A frame with its text; the log is the texts, each ended by a newline.\<close>

type_synonym entry = "bytes \<times> walFrame"

definition log_of :: "entry list \<Rightarrow> bytes" where
  "log_of rs = concat (map (\<lambda>(r, f). r @ [nl]) rs)"

definition entry_ok :: "entry \<Rightarrow> bool" where
  "entry_ok x \<longleftrightarrow> (case x of (r, f) \<Rightarrow> r \<noteq> [] \<and> nl \<notin> set r \<and> last r \<noteq> cr \<and> length r < scannerMax
     \<and> decodeWALFrame r = Inr f \<and> has_identity f)"

fun frame_ends :: "nat \<Rightarrow> entry list \<Rightarrow> (walFrame \<times> nat) list" where
  "frame_ends pos [] = []"
| "frame_ends pos ((r, f) # rs) = (f, pos + length r + 1) # frame_ends (pos + length r + 1) rs"

fun deliver :: "'s consumer \<Rightarrow> (walFrame \<times> nat) list \<Rightarrow> 's \<Rightarrow> stream_error option \<times> 's" where
  "deliver fn [] st = (None, st)"
| "deliver fn ((f, p) # xs) st = (case fn f p st of
     (ok, st') \<Rightarrow> if \<not> ok then (Some SE_Consumer, st') else deliver fn xs st')"

lemma log_of_simps [simp]: "log_of [] = []" "log_of ((r, f) # rs) = r @ nl # log_of rs"
  "log_of (xs @ ys) = log_of xs @ log_of ys"
  by (simp_all add: log_of_def)

lemma frame_ends_append:
  "frame_ends p (xs @ ys) = frame_ends p xs @ frame_ends (p + length (log_of xs)) ys"
  by (induction p xs rule: frame_ends.induct) (auto simp: algebra_simps)

lemma deliver_append: "deliver fn (xs @ ys) st = (case deliver fn xs st of
    (Some e, st') \<Rightarrow> (Some e, st') | (None, st') \<Rightarrow> deliver fn ys st')"
  by (induction fn xs st rule: deliver.induct) (auto split: prod.splits option.splits)

lemma scan_loop_log: "list_all entry_ok rs \<Longrightarrow> scan_loop fn (log_of rs) p st = deliver fn (frame_ends p rs) st"
proof (induction rs arbitrary: p st)
  case Nil
  then show ?case by (simp add: scan_loop.simps)
next
  case (Cons x rs)
  obtain r f where x: "x = (r, f)" by fastforce
  have ok: "r \<noteq> []" "nl \<notin> set r" "drop_cr r = r" "length r < scannerMax"
    "decodeWALFrame r = Inr f" "has_identity f"
    using Cons.prems x by (auto simp: entry_ok_def drop_cr_def)
  have tw: "takeWhile (\<lambda>c. c \<noteq> nl) (r @ nl # log_of rs) = r"
    using ok(2) by (subst takeWhile_append2) auto
  have IH: "scan_loop fn (log_of rs) p' st' = deliver fn (frame_ends p' rs) st'" for p' st'
    using Cons by simp
  show ?case
    unfolding x log_of_simps
    by (subst scan_loop.simps) (use ok in \<open>simp add: tw IH Let_def split: prod.splits\<close>)
qed

section \<open>Frames end at newlines\<close>

lemma ends_nl_drop: "ends_nl d \<Longrightarrow> ends_nl (drop n d)"
  by (cases "n < length d") (auto simp: ends_nl_def)

lemma log_of_split:
  "list_all entry_ok rs \<Longrightarrow> log_of rs = a @ b \<Longrightarrow> ends_nl a \<Longrightarrow>
    \<exists>xs ys. rs = xs @ ys \<and> log_of xs = a \<and> log_of ys = b"
proof (induction rs arbitrary: a)
  case Nil
  then show ?case by simp
next
  case (Cons x rs)
  obtain r f where x: "x = (r, f)" by fastforce
  show ?case
  proof (cases "a = []")
    case True
    then have "x # rs = [] @ (x # rs) \<and> log_of [] = a \<and> log_of (x # rs) = b" using Cons.prems(2) by simp
    then show ?thesis by blast
  next
    case False
    have nn: "nl \<notin> set r" using Cons.prems(1) x by (simp add: entry_ok_def)
    have e: "(r @ [nl]) @ log_of rs = a @ b" using Cons.prems(2) x by simp
    have "length r + 1 \<le> length a"
    proof (rule ccontr)
      assume "\<not> length r + 1 \<le> length a"
      then have l: "length a \<le> length r" by simp
      then have "a = take (length a) r" using e
        by (metis append_eq_append_conv_if append_eq_conv_conj length_append nat_le_linear
            take_all take_append diff_is_0_eq' append_Nil2 take0)
      then have "last a \<in> set r" using False by (metis in_set_takeD last_in_set)
      then show False using Cons.prems(3) False nn by (auto simp: ends_nl_def)
    qed
    then obtain us where us: "a = r @ us" "nl # log_of rs = us @ b" "us \<noteq> []"
      using e by (auto simp: append_eq_append_conv2 Suc_le_eq)
    then obtain a' where a': "a = (r @ [nl]) @ a'" "log_of rs = a' @ b"
      by (cases us) auto
    have "ends_nl a'" using Cons.prems(3) a'(1) by (cases "a' = []") (auto simp: ends_nl_def)
    then obtain xs ys where "rs = xs @ ys" "log_of xs = a'" "log_of ys = b"
      using Cons.IH [OF _ a'(2)] Cons.prems(1) by auto
    then have "x # rs = (x # xs) @ ys \<and> log_of (x # xs) = a \<and> log_of ys = b" using a' x by simp
    then show ?thesis by blast
  qed
qed

section \<open>The replay of a whole log\<close>

lemma os_call_ok: "env w = [] \<Longrightarrow> os_call w = (True, w\<lparr>env := []\<rparr>)"
  by (simp add: os_call_eq next_io_def)

lemma stream_file_ok:
  assumes "env w = []" "file_exists (dir w) name" "drop start (file_data (dir w) name) = log_of rs"
    "list_all entry_ok rs"
  shows "fst (stream_file fn name start pos st w) = deliver fn (frame_ends pos rs) st"
    "dir (snd (stream_file fn name start pos st w)) = dir w" "env (snd (stream_file fn name start pos st w)) = []"
  using assms
  by (auto simp: stream_file_def os_call_ok next_io_def scan_loop_log split: prod.splits option.splits)

text \<open>Where in the log the first delivered byte of a table suffix stands.\<close>

fun pos_of :: "nat \<Rightarrow> nat \<Rightarrow> walSegment list \<Rightarrow> nat" where
  "pos_of cs co [] = 0"
| "pos_of cs co (s # ss) = (if seg_idx s < cs then pos_of cs co ss
     else if seg_idx s = cs then seg_base s + co else seg_base s)"

lemma pos_of_chained: "chained b ss \<Longrightarrow> ss \<noteq> [] \<Longrightarrow> \<forall>s \<in> set ss. cs < seg_idx s \<Longrightarrow> pos_of cs co ss = b"
  by (cases ss) auto

lemma stream_segs_ok:
  assumes "chained b ss" "sorted_wrt (<) (map seg_idx ss)"
    and "\<forall>s \<in> set ss. file_exists (dir w) (seg_name s) \<and> file_data (dir w) (seg_name s) = c s
      \<and> length (c s) = seg_size s \<and> ends_nl (c s) \<and> (seg_idx s = cs \<longrightarrow> co \<le> seg_size s)"
    and "concat (map (\<lambda>s. if seg_idx s < cs then [] else if seg_idx s = cs then drop co (c s) else c s) ss)
      = log_of rs" "list_all entry_ok rs" "env w = []"
  shows "fst (stream_segs fn cs co ss st w) = deliver fn (frame_ends (pos_of cs co ss) rs) st"
  using assms
proof (induction ss arbitrary: b rs st w)
  case Nil
  then have "rs = []" by (cases rs) auto
  then show ?case by simp
next
  case (Cons s ss)
  let ?f = "\<lambda>s. if seg_idx s < cs then [] else if seg_idx s = cs then drop co (c s) else c s"
  let ?start = "if seg_idx s = cs then co else 0"
  have S: "file_exists (dir w) (seg_name s)" "file_data (dir w) (seg_name s) = c s"
    "length (c s) = seg_size s" "ends_nl (c s)" "seg_idx s = cs \<longrightarrow> co \<le> seg_size s"
    using Cons.prems(3) by simp_all
  have later: "cs < seg_idx x" if "\<not> seg_idx s < cs" "x \<in> set ss" for x
    using Cons.prems(2) that by auto
  have IH: "fst (stream_segs fn cs co ss st' w') = deliver fn (frame_ends (pos_of cs co ss) ys) st'"
    if "concat (map ?f ss) = log_of ys" "list_all entry_ok ys" "dir w' = dir w" "env w' = []" for ys st' w'
    by (rule Cons.IH [of "b + seg_size s"]) (use Cons.prems that in auto)
  show ?case
  proof (cases "seg_idx s < cs")
    case True
    then show ?thesis using IH [of rs w] Cons.prems by simp
  next
    case False
    have e: "?f s = drop ?start (c s)" using False by simp
    have pos: "pos_of cs co (s # ss) = seg_base s + ?start" using False by simp
    have nlf: "ends_nl (?f s)" unfolding e by (rule ends_nl_drop [OF S(4)])
    have "log_of rs = ?f s @ concat (map ?f ss)"
      using Cons.prems(4) unfolding list.map concat.simps by (rule sym)
    from log_of_split [OF Cons.prems(5) this nlf]
    obtain xs ys where r: "rs = xs @ ys" "log_of xs = ?f s" "log_of ys = concat (map ?f ss)"
      by (elim exE conjE)
    have ok: "list_all entry_ok xs" "list_all entry_ok ys" using Cons.prems(5) r(1) by simp_all
    have len: "length (log_of xs) = seg_size s - ?start" using r(2) e S(3) by simp
    have next_pos: "pos_of cs co ss = seg_base s + ?start + length (log_of xs)" if "ss \<noteq> []"
    proof -
      have "chained (b + seg_size s) ss" "seg_base s = b" using Cons.prems(1) by simp_all
      then have "pos_of cs co ss = b + seg_size s" using pos_of_chained that later [OF False] by blast
      then show ?thesis using len S(5) \<open>seg_base s = b\<close> by auto
    qed
    have ys_nil: "ys = []" if "ss = []" using r(3) that by (cases ys) auto
    have app: "frame_ends (seg_base s + ?start) rs = frame_ends (seg_base s + ?start) xs
        @ frame_ends (seg_base s + ?start + length (log_of xs)) ys"
      unfolding r(1) by (rule frame_ends_append)
    have tail: "frame_ends (seg_base s + ?start + length (log_of xs)) ys = frame_ends (pos_of cs co ss) ys"
    proof (cases "ss = []")
      case True
      from ys_nil [OF this] show ?thesis by (simp only: frame_ends.simps)
    next
      case False
      from next_pos [OF this] show ?thesis by (simp only:)
    qed
    have split: "deliver fn (frame_ends (pos_of cs co (s # ss)) rs) st =
        (case deliver fn (frame_ends (seg_base s + ?start) xs) st of
           (Some e, st') \<Rightarrow> (Some e, st')
         | (None, st') \<Rightarrow> deliver fn (frame_ends (pos_of cs co ss) ys) st')"
      unfolding pos app tail deliver_append by (rule refl)
    show ?thesis
    proof (cases "?start \<ge> seg_size s")
      case True
      then have "xs = []" using len by (cases xs) auto
      then have "fst (stream_segs fn cs co ss st w) = deliver fn (frame_ends (pos_of cs co (s # ss)) rs) st"
        using IH [of ys w st] r ok Cons.prems(6) split by simp
      then show ?thesis using True False by simp
    next
      case go: False
      have "drop ?start (file_data (dir w) (seg_name s)) = log_of xs" using r(2) e S(2) by simp
      note F = stream_file_ok [OF Cons.prems(6) S(1) this ok(1)]
      obtain r1 st1 w1 where f: "stream_file fn (seg_name s) ?start (seg_base s + ?start) st w = ((r1, st1), w1)"
        by (metis prod.exhaust)
      have d: "deliver fn (frame_ends (seg_base s + ?start) xs) st = (r1, st1)" "dir w1 = dir w" "env w1 = []"
        using F [of fn "seg_base s + ?start" st] f by simp_all
      have go': "stream_segs fn cs co (s # ss) st w = (case ((r1, st1), w1) of
          ((Some e, st'), w') \<Rightarrow> ((Some e, st'), w')
        | ((None, st'), w') \<Rightarrow> stream_segs fn cs co ss st' w')"
        using False go f by simp
      show ?thesis
        unfolding go' split d(1) using IH [OF r(3) [symmetric] ok(2) d(2,3)]
        by (auto split: option.splits)
    qed
  qed
qed

lemma pos_of_start:
  assumes "wal_inv q"
  shows "pos_of (cpSeg q) (cpOff q) (segments q) = pend_start q"
proof -
  have T: "table_ok (segments q)" and C: "cp_ok (cpSeg q) (cpOff q) (segments q)"
    using assms by (simp_all add: wal_inv_def)
  have so: "sorted_wrt (<) (map seg_idx (segments q))" using T by (simp add: table_ok_def)
  show ?thesis
  proof (cases "segmentExists (cpSeg q) (segments q)")
    case True
    then have "pos_of (cpSeg q) (cpOff q) ss = (case find (\<lambda>s. seg_idx s = cpSeg q) ss of
        None \<Rightarrow> 0 | Some s \<Rightarrow> seg_base s + cpOff q)"
      if "sorted_wrt (<) (map seg_idx ss)" "segmentExists (cpSeg q) ss" for ss
      using that by (induction ss) (fastforce simp: segmentExists_def list_ex_iff)+
    then show ?thesis using True so by (simp add: pend_start_def cpLogical_def)
  next
    case False
    then have "cpSeg q < seg_idx (hd (segments q))"
      using C by (auto simp: cp_ok_def segmentExists_def list_ex_iff)
    then show ?thesis using T False
      by (cases "segments q") (auto simp: pend_start_def log_base_def table_ok_def)
  qed
qed

lemma cp_past_end:
  assumes I: "wal_inv q" and True: "cpLogical q \<ge> offset q"
  shows "pend q = []"
proof -
  have "pend_start q = offset q \<or> cpLogical q = 0"
  proof (cases "segmentExists (cpSeg q) (segments q)")
    case in_table: True
    then show ?thesis using True pend_suffix(3) [OF I] by (simp add: pend_start_def)
  next
    case False
    then have "find (\<lambda>s. seg_idx s = cpSeg q) (segments q) = None"
      by (auto simp: segmentExists_def list_ex_iff find_None_iff)
    then show ?thesis by (simp add: cpLogical_def)
  qed
  then have "length (pend q) = 0" using pend_length [OF I] True by auto
  then show ?thesis by simp
qed

lemma streamFrames_log:
  assumes I: "wal_inv q" and F: "framed q" and st: "\<not> stopped q"
    and io: "env (qio q) = []" "\<not> werr (qio q)" "wopen (qio q)"
    and p: "pend q = log_of rs" and ok: "list_all entry_ok rs"
  shows "fst (streamFrames fn st q) = deliver fn (frame_ends (pend_start q) rs) st"
proof (cases "cpLogical q \<ge> offset q")
  case True
  then have "pend q = []" by (rule cp_past_end [OF I])
  then have "rs = []" using p by (cases rs) auto
  then show ?thesis using st True by (simp add: streamFrames_def)
next
  case False
  obtain w1 where w1: "bufio_flush (qio q) = (True, w1)" "env w1 = []"
    using io by (cases "wbuf (qio q) = []")
      (auto simp: bufio_flush_def os_write_def next_io_def append_file_def)
  have S: "io_same (qio q) w1" by (rule io_same_flush [OF w1(1)])
  have b: "wbuf w1 = []" using bufio_flush_spec [OF w1(1)] by simp
  have I1: "wal_inv (q\<lparr>qio := w1\<rparr>)" by (rule wal_inv_io [OF I S])
  note L = wal_inv_log [OF I]
  have fb: "file_data (dir w1) (seg_name s) = seg_bytes (qio q) s" if "s \<in> set (segments q)" for s
  proof -
    have "seg_name s \<noteq> checkpointName" using I that by (auto simp: wal_inv_def seg_ok_def)
    then have "seg_bytes w1 s = seg_bytes (qio q) s" by (rule seg_bytes_same [OF S])
    then show ?thesis using b by (auto simp: seg_bytes_def wbytes_def split: if_splits)
  qed
  have all: "\<forall>s \<in> set (segments q). file_exists (dir w1) (seg_name s)
      \<and> file_data (dir w1) (seg_name s) = seg_bytes (qio q) s
      \<and> length (seg_bytes (qio q) s) = seg_size s \<and> ends_nl (seg_bytes (qio q) s)
      \<and> (seg_idx s = cpSeg q \<longrightarrow> cpOff q \<le> seg_size s)"
  proof
    fix s assume s: "s \<in> set (segments q)"
    have "seg_ok w1 s" using I1 s by (simp add: wal_inv_def)
    moreover have "seg_idx s = cpSeg q \<longrightarrow> cpOff q \<le> seg_size s"
      using I s unfolding wal_inv_def by (blast intro: cp_ok_in)
    ultimately show "file_exists (dir w1) (seg_name s)
      \<and> file_data (dir w1) (seg_name s) = seg_bytes (qio q) s
      \<and> length (seg_bytes (qio q) s) = seg_size s \<and> ends_nl (seg_bytes (qio q) s)
      \<and> (seg_idx s = cpSeg q \<longrightarrow> cpOff q \<le> seg_size s)"
      using fb [OF s] L(3) s F unfolding seg_ok_def framed_def by metis
  qed
  have "fst (stream_segs fn (cpSeg q) (cpOff q) (segments q) st w1)
      = deliver fn (frame_ends (pos_of (cpSeg q) (cpOff q) (segments q)) rs) st"
    by (rule stream_segs_ok [OF L(1,2) all p [unfolded pend_alt] ok w1(2)])
  then show ?thesis
    using st False w1 pos_of_start [OF I]
    by (cases "stream_segs fn (cpSeg q) (cpOff q) (segments q) st w1") (simp add: streamFrames_def)
qed

end
