(* ===== verification/WalOpen.thy ===== *)
theory WalOpen
  imports WalReplay
begin

text \<open>
  Opening the log after a start or a crash (\<^verbatim>\<open>newDiskQueueWithDirSync\<close> of
  \<^verbatim>\<open>src/internal/ingest/queue.go\<close>): discovery of the segment files, repair of a torn tail, the
  segment table, the checkpoint file and its validation.  The directory is the \<open>dir\<close> of the given
  \<open>wal_io\<close>; a failed open still has its effects on the disk.
\<close>

section \<open>Torn tails\<close>

text \<open>\<^verbatim>\<open>ReadAt\<close>: all the bytes asked for, or an error after the first \<open>k\<close> of them.\<close>

definition os_read_at :: "string \<Rightarrow> nat \<Rightarrow> nat \<Rightarrow> wal_io \<Rightarrow> (bytes \<times> bool) \<times> wal_io" where
  "os_read_at name start len w =
     (let d = take len (drop start (file_data (dir w) name)) in
      case next_io w of (r, w1) \<Rightarrow>
        (case r of IoOk \<Rightarrow> ((d, length d = len), w1) | IoErr k \<Rightarrow> ((take k d, False), w1)))"

definition os_truncate :: "string \<Rightarrow> nat \<Rightarrow> wal_io \<Rightarrow> bool \<times> wal_io" where
  "os_truncate name n w = (case os_call w of (ok, w1) \<Rightarrow>
     if ok then (True, w1\<lparr>dir := put_file name (take n (file_data (dir w1) name))
                              (min n (file_synced (dir w1) name)) (dir w1)\<rparr>)
     else (False, w1))"

text \<open>The scan of a chunk from its end: how many bytes up to and with the last newline.\<close>

fun chunk_scan :: "bytes \<Rightarrow> nat \<Rightarrow> nat option" where
  "chunk_scan buf 0 = None"
| "chunk_scan buf (Suc i) = (if buf ! i = nl then Some (Suc i) else chunk_scan buf i)"

definition scanChunk :: nat where "scanChunk = 4096"

datatype torn_result = TornError | TornKeep nat

function torn_scan :: "string \<Rightarrow> nat \<Rightarrow> wal_io \<Rightarrow> torn_result \<times> wal_io" where
  "torn_scan name endp w =
     (if endp = 0 then
        (case os_truncate name 0 w of (ok, w1) \<Rightarrow> (if ok then TornKeep 0 else TornError, w1))
      else let start = endp - scanChunk in
        case os_read_at name start (endp - start) w of ((buf, ok), w1) \<Rightarrow>
        if \<not> ok \<and> buf = [] then (TornError, w1)
        else (case chunk_scan buf (length buf) of
                Some i \<Rightarrow> (case os_truncate name (start + i) w1 of (ok2, w2) \<Rightarrow>
                             (if ok2 then TornKeep (start + i) else TornError, w2))
              | None \<Rightarrow> torn_scan name start w1))"
  by pat_completeness auto
termination
  by (relation "measure (\<lambda>(name, endp, w). endp)") (auto simp: scanChunk_def)

declare torn_scan.simps [simp del]

definition repairTornTail :: "string \<Rightarrow> nat \<Rightarrow> wal_io \<Rightarrow> torn_result \<times> wal_io" where
  "repairTornTail name sz w =
     (if sz = 0 then (TornKeep 0, w)
      else case os_read_at name (sz - 1) 1 w of ((buf, ok), w1) \<Rightarrow>
        if \<not> ok then (TornError, w1)
        else if buf ! 0 = nl then (TornKeep sz, w1)
        else torn_scan name sz w1)"

section \<open>The checkpoint file\<close>

datatype open_error =
    OE_Limits | OE_Mkdir | OE_Chmod | OE_ReadDir | OE_Open | OE_DirSync | OE_Stat | OE_Secure
  | OE_Torn | OE_ReadCheckpoint | OE_ParseCheckpoint | OE_NegativeCheckpoint | OE_RemoveStale
  | OE_BoundaryMissing | OE_BoundaryOpen | OE_BoundaryRead | OE_BoundaryMisaligned

text \<open>\<^verbatim>\<open>Unmarshal\<close> into \<^verbatim>\<open>checkpointFile\<close>.\<close>

definition dec_checkpoint :: "json \<Rightarrow> (int \<times> int) option" where
  "dec_checkpoint j = (case j of
     JNull \<Rightarrow> Some (0, 0)
   | JObj ms \<Rightarrow> do {
       s \<leftarrow> fill dec_int64 ''segment'' 0 ms;
       off \<leftarrow> fill dec_int64 ''offset'' 0 ms;
       Some (s, off)}
   | _ \<Rightarrow> None)"

definition parse_checkpoint :: "bytes \<Rightarrow> open_error + (nat \<times> nat)" where
  "parse_checkpoint raw =
     (let trimmed = TrimSpace raw in
      if has_prefix trimmed ''{'' then
        (case Option.bind (parse_json trimmed) dec_checkpoint of
           None \<Rightarrow> Inl OE_ParseCheckpoint
         | Some (sg, off) \<Rightarrow>
             if sg < 0 \<or> off < 0 then Inl OE_NegativeCheckpoint else Inr (nat sg, nat off))
      else (case parse_int64 trimmed of
              None \<Rightarrow> Inl OE_ParseCheckpoint
            | Some n \<Rightarrow> if n < 0 then Inl OE_NegativeCheckpoint else Inr (0, nat n)))"

definition readCheckpoint :: "wal_io \<Rightarrow> (open_error + (nat \<times> nat)) \<times> wal_io" where
  "readCheckpoint w =
     (if \<not> file_exists (dir w) checkpointName then (Inr (0, 0), w)
      else case os_call w of (ok, w1) \<Rightarrow>
        if \<not> ok then (Inl OE_ReadCheckpoint, w1)
        else (parse_checkpoint (file_data (dir w1) checkpointName), w1))"

definition validateCheckpointBoundary :: "nat \<Rightarrow> nat \<Rightarrow> walSegment list \<Rightarrow> wal_io
    \<Rightarrow> open_error option \<times> wal_io" where
  "validateCheckpointBoundary sg off ss w =
     (if off = 0 then (None, w)
      else case find (\<lambda>s. seg_idx s = sg) (rev ss) of
        None \<Rightarrow> (Some OE_BoundaryMissing, w)
      | Some s \<Rightarrow>
          case os_call w of (ok1, w1) \<Rightarrow>
          if \<not> ok1 \<or> \<not> file_exists (dir w1) (seg_name s) then (Some OE_BoundaryOpen, w1) else
          case os_read_at (seg_name s) (off - 1) 1 w1 of ((buf, ok2), w2) \<Rightarrow>
          if \<not> ok2 then (Some OE_BoundaryRead, w2)
          else if buf ! 0 \<noteq> nl then (Some OE_BoundaryMisaligned, w2)
          else (None, w2))"

section \<open>The constructor\<close>

text \<open>\<^verbatim>\<open>syncQueueDirs\<close>: the queue directory and its ancestors, \<open>n\<close> of them.\<close>

fun syncQueueDirs :: "nat \<Rightarrow> wal_io \<Rightarrow> bool \<times> wal_io" where
  "syncQueueDirs 0 w = (True, w)"
| "syncQueueDirs (Suc n) w = (case syncDir w of (ok, w1) \<Rightarrow>
     if ok then syncQueueDirs n w1 else (False, w1))"

definition discover :: "string list \<Rightarrow> bool \<times> nat list" where
  "discover names = (legacySegmentName \<in> set names,
     sort (List.map_filter parseSegmentFileName (filter (\<lambda>n. n \<noteq> legacySegmentName) names)))"

text \<open>
  The table: every sealed segment is sized by a \<^verbatim>\<open>Stat\<close> (the legacy one by an earlier one), the
  active one by the repair.
\<close>

fun build_table :: "nat \<Rightarrow> nat \<Rightarrow> nat \<Rightarrow> nat list \<Rightarrow> wal_io \<Rightarrow> walSegment list option \<times> wal_io" where
  "build_table active sz base [] w = (Some [], w)"
| "build_table active sz base (i # js) w =
     (case (if i = active \<or> i = 0 then (True, w) else os_call w) of (ok, w1) \<Rightarrow>
      if \<not> ok then (None, w1)
      else let n = (if i = active then sz else length (file_data (dir w1) (seg_file_name i)))
        in case build_table active sz (base + n) js w1 of
             (None, w2) \<Rightarrow> (None, w2)
           | (Some ss, w2) \<Rightarrow>
               (Some (\<lparr>seg_idx = i, seg_base = base, seg_size = n, seg_name = seg_file_name i\<rparr> # ss), w2))"

text \<open>The checkpoint the queue starts from: a position beyond the log is discarded with its file.\<close>

definition adopt_checkpoint :: "walSegment list \<Rightarrow> wal_io \<Rightarrow> (open_error + (nat \<times> nat)) \<times> wal_io" where
  "adopt_checkpoint ss w =
     (case readCheckpoint w of
        (Inl e, w1) \<Rightarrow> (Inl e, w1)
      | (Inr (cs, co), w1) \<Rightarrow>
          (case (if \<not> segmentExists cs ss \<or> co > segmentSize cs ss
                 then (case os_remove checkpointName w1 of (ok, w2) \<Rightarrow>
                         (if ok then Inr (0, 0) else Inl OE_RemoveStale, w2))
                 else (Inr (cs, co), w1)) of
             (Inl e, w2) \<Rightarrow> (Inl e, w2)
           | (Inr (cs', co'), w2) \<Rightarrow>
               (case validateCheckpointBoundary cs' co' ss w2 of
                  (Some e, w3) \<Rightarrow> (Inl e, w3)
                | (None, w3) \<Rightarrow> (Inr (cs', co'), w3))))"

definition opened :: "nat \<Rightarrow> nat \<Rightarrow> nat \<Rightarrow> walSegment list \<Rightarrow> nat \<times> nat \<Rightarrow> wal_io \<Rightarrow> diskQueue" where
  "opened mb mt active ss cp w =
     (let q = \<lparr>qio = w\<lparr>wname := seg_file_name active, wopen := True, wbuf := [], werr := False\<rparr>,
        maxBytes = mb, maxTotalBytes = mt, segments = ss, activeIdx = active,
        offset = segmentEnd active ss, cpSeg = fst cp, cpOff = snd cp, stopped = False,
        dirtySinceFlush = False, droppedUnackedSegments = 0, droppedUnackedBytes = 0,
        lossySync = False, groupDelay = DefaultGroupCommitDelay, waiters = [], syncedOffset = 0,
        refusedHighWater = 0, unsyncedEvents = 0, lastErr = None\<rparr>
      in gcSegmentsLocked (q\<lparr>syncedOffset := cpLogical q\<rparr>))"

definition newDiskQueueWithDirSync :: "nat \<Rightarrow> int \<Rightarrow> int \<Rightarrow> wal_io \<Rightarrow> (open_error + diskQueue) \<times> wal_io" where
  "newDiskQueueWithDirSync depth mb mt w0 =
     (if mb \<le> 0 \<or> mt < mb then (Inl OE_Limits, w0) else
      case os_call w0 of (ok1, w1) \<Rightarrow> if \<not> ok1 then (Inl OE_Mkdir, w1) else
      case os_call w1 of (ok2, w2) \<Rightarrow> if \<not> ok2 then (Inl OE_Chmod, w2) else
      case os_call w2 of (ok3, w3) \<Rightarrow> if \<not> ok3 then (Inl OE_ReadDir, w3) else
      let (has_legacy, idxs) = discover (map fst (dir w3));
          active = (if idxs = [] then 0 else last idxs) in
      case os_create (seg_file_name active) w3 of (ok4, w4) \<Rightarrow> if \<not> ok4 then (Inl OE_Open, w4) else
      case syncQueueDirs depth w4 of (ok5, w5) \<Rightarrow> if \<not> ok5 then (Inl OE_DirSync, w5) else
      case os_call w5 of (ok6, w6) \<Rightarrow> if \<not> ok6 then (Inl OE_Stat, w6) else
      case os_call w6 of (ok7, w7) \<Rightarrow> if \<not> ok7 then (Inl OE_Secure, w7) else
      case repairTornTail (seg_file_name active) (length (file_data (dir w7) (seg_file_name active))) w7 of
        (TornError, w8) \<Rightarrow> (Inl OE_Torn, w8)
      | (TornKeep sz, w8) \<Rightarrow>
          (case (if has_legacy then os_call w8 else (True, w8)) of (ok9, w9) \<Rightarrow>
           if \<not> ok9 then (Inl OE_Stat, w9) else
           let order = (if has_legacy then 0 # idxs else if idxs = [] then [0] else idxs) in
           case build_table active sz 0 order w9 of
             (None, w10) \<Rightarrow> (Inl OE_Stat, w10)
           | (Some ss, w10) \<Rightarrow>
               (case adopt_checkpoint ss w10 of
                  (Inl e, w11) \<Rightarrow> (Inl e, w11)
                | (Inr cp, w11) \<Rightarrow>
                    let q = opened (nat mb) (nat mt) active ss cp w11 in (Inr q, qio q))))"

definition NewDiskQueueWithLimits :: "nat \<Rightarrow> int \<Rightarrow> int \<Rightarrow> wal_io \<Rightarrow> (open_error + diskQueue) \<times> wal_io" where
  "NewDiskQueueWithLimits depth mb mt w = newDiskQueueWithDirSync depth mb mt w"

definition NewDiskQueue :: "nat \<Rightarrow> int \<Rightarrow> wal_io \<Rightarrow> (open_error + diskQueue) \<times> wal_io" where
  "NewDiskQueue depth mb w =
     (let tot = (if mb > int DefaultWALMaxTotalBytes then mb else int DefaultWALMaxTotalBytes)
      in NewDiskQueueWithLimits depth mb tot w)"

section \<open>Names and checkpoints read back\<close>

lemma parse_int64_pad6: "n < 2 ^ 63 \<Longrightarrow> parse_int64 (pad6 (dec_nat n)) = Some (int n)"
proof -
  assume n: "n < 2 ^ 63"
  have "list_all is_digit (pad6 (dec_nat n))"
    using dec_nat_digits [of n] by (auto simp: pad6_def digit_char_facts list_all_iff)
  moreover have "pad6 (dec_nat n) \<noteq> []" using dec_nat_digits [of n] by (simp add: pad6_def)
  ultimately show ?thesis using parse_int64_digits [of "pad6 (dec_nat n)"] n by (simp add: parse_dec_pad6)
qed

lemma parse_segmentFileName:
  assumes "1 \<le> i" "i < 2 ^ 63"
  shows "parseSegmentFileName (segmentFileName i) = Some i"
proof -
  have s: "has_suffix (segmentFileName i) segmentFileSuffix"
    using trim_affixes(3) [of "segmentFilePrefix @ pad6 (dec_nat i)"] by (simp add: segmentFileName_def)
  have t: "trim_suffix (trim_prefix (segmentFileName i) segmentFilePrefix) segmentFileSuffix = pad6 (dec_nat i)"
    by (simp add: segmentFileName_def trim_affixes)
  have "has_prefix (segmentFileName i) segmentFilePrefix" by (simp add: segmentFileName_def)
  then show ?thesis using assms s by (simp add: parseSegmentFileName_def t parse_int64_pad6)
qed

lemma parse_checkpoint_decimal:
  assumes "n < 2 ^ 63"
  shows "parse_checkpoint (dec_nat n) = Inr (0, n)"
proof -
  have d: "list_all is_digit (dec_nat n)" "dec_nat n \<noteq> []" by (simp_all add: dec_nat_digits)
  then have "is_digit (hd (dec_nat n))" "is_digit (last (dec_nat n))" by (simp_all add: list_all_iff)
  moreover have "TrimSpace (dec_nat n) = dec_nat n"
    using TrimSpace_id d calculation digit_not_space by blast
  moreover have "\<not> has_prefix (dec_nat n) ''{''"
    using d calculation(1) by (cases "dec_nat n") (auto simp: has_prefix_def is_digit_def)
  ultimately show ?thesis using assms by (simp add: parse_checkpoint_def)
qed

definition checkpoint_value :: "nat \<Rightarrow> nat \<Rightarrow> json" where
  "checkpoint_value sg off = JObj [(''segment'', JNum (print_int (int sg))), (''offset'', JNum (print_int (int off)))]"

lemma checkpoint_text: "checkpoint_json sg off = print_json (checkpoint_value sg off)"
proof -
  have "escape_string ''segment'' = ''segment''" "escape_string ''offset'' = ''offset''" "byte 34 = CHR 0x22"
    by code_simp+
  then show ?thesis
    by (simp add: checkpoint_json_def checkpoint_value_def print_string_def print_int_def)
qed

lemma is_space_byte: "is_space c \<longleftrightarrow> c \<in> {byte 9, byte 10, byte 11, byte 12, byte 13, byte 32}"
  by (simp add: is_space_def byte_def)

lemma parse_checkpoint_json:
  assumes "sg < 2 ^ 63" "off < 2 ^ 63"
  shows "parse_checkpoint (checkpoint_json sg off) = Inr (sg, off)"
proof -
  have j: "parse_json (checkpoint_json sg off) = Some (checkpoint_value sg off)"
    unfolding checkpoint_text by (rule parse_json_print) (simp add: checkpoint_value_def print_int_number_ok)
  have "parse_int64 (print_int (int sg)) = Some (int sg)" "parse_int64 (print_int (int off)) = Some (int off)"
    using assms by (simp_all add: print_int_def)
  then have d: "dec_checkpoint (checkpoint_value sg off) = Some (int sg, int off)"
    by (simp add: dec_checkpoint_def checkpoint_value_def key_match_def lower_def)
  have t: "TrimSpace (checkpoint_json sg off) = checkpoint_json sg off"
    by (rule TrimSpace_id) (simp_all add: checkpoint_json_def is_space_byte CHR_byte)
  have p: "has_prefix (checkpoint_json sg off) ''{''" by (simp add: checkpoint_json_def has_prefix_def)
  show ?thesis by (simp add: parse_checkpoint_def t p j d)
qed

section \<open>The repair keeps the complete records\<close>

definition complete_prefix :: "bytes \<Rightarrow> bytes" where
  "complete_prefix d = rev (dropWhile (\<lambda>c. c \<noteq> nl) (rev d))"

lemma complete_prefix_append:
  "nl \<in> set b \<Longrightarrow> complete_prefix (a @ b) = a @ complete_prefix b"
  "nl \<notin> set b \<Longrightarrow> complete_prefix (a @ b) = complete_prefix a"
proof -
  assume "nl \<in> set b"
  then show "complete_prefix (a @ b) = a @ complete_prefix b"
    by (auto simp: complete_prefix_def dropWhile_append1)
next
  assume "nl \<notin> set b"
  then have "\<And>c. c \<in> set (rev b) \<Longrightarrow> c \<noteq> nl" by auto
  then have "dropWhile (\<lambda>c. c \<noteq> nl) (rev b @ rev a) = dropWhile (\<lambda>c. c \<noteq> nl) (rev a)"
    by (rule dropWhile_append2)
  then show "complete_prefix (a @ b) = complete_prefix a"
    by (simp add: complete_prefix_def)
qed

lemma complete_prefix_ends: "ends_nl (complete_prefix d)"
  by (induction d rule: rev_induct) (auto simp: complete_prefix_def ends_nl_def)

lemma complete_prefix_id: "ends_nl d \<Longrightarrow> complete_prefix d = d"
  by (cases d rule: rev_cases) (auto simp: complete_prefix_def ends_nl_def)

lemma complete_prefix_take: "\<exists>n \<le> length d. complete_prefix d = take n d"
proof (induction d rule: rev_induct)
  case Nil
  show ?case by (simp add: complete_prefix_def)
next
  case (snoc c d)
  show ?case
  proof (cases "c = nl")
    case True
    then have "complete_prefix (d @ [c]) = take (length (d @ [c])) (d @ [c])"
      by (simp add: complete_prefix_def)
    then show ?thesis by blast
  next
    case False
    then have "complete_prefix (d @ [c]) = complete_prefix d" by (simp add: complete_prefix_append)
    with snoc obtain n where n: "n \<le> length d" "complete_prefix (d @ [c]) = take n d" by auto
    then show ?thesis by (intro exI [of _ n]) simp
  qed
qed

lemma chunk_scan_complete: "n \<le> length b \<Longrightarrow> chunk_scan b n =
    (if nl \<in> set (take n b) then Some (length (complete_prefix (take n b))) else None)"
proof (induction b n rule: chunk_scan.induct)
  case (2 b i)
  then have t: "take (Suc i) b = take i b @ [b ! i]" by (simp add: take_Suc_conv_app_nth)
  show ?case using 2 unfolding t
    by (cases "b ! i = nl") (auto simp: complete_prefix_append complete_prefix_def)
qed simp

lemma os_ok_simps: "env w = [] \<Longrightarrow> next_io w = (IoOk, w\<lparr>env := []\<rparr>)"
  "env w = [] \<Longrightarrow> w\<lparr>env := []\<rparr> = w"
  by (simp_all add: next_io_def)

lemma truncate_ok: "env w = [] \<Longrightarrow> os_truncate name n w = (True,
    w\<lparr>dir := put_file name (take n (file_data (dir w) name)) (min n (file_synced (dir w) name)) (dir w)\<rparr>)"
  by (simp add: os_truncate_def os_call_ok os_ok_simps)

lemma read_ok: "env w = [] \<Longrightarrow> start + n \<le> length (file_data (dir w) name) \<Longrightarrow>
    os_read_at name start n w = ((take n (drop start (file_data (dir w) name)), True), w)"
  by (simp add: os_read_at_def os_ok_simps)

lemma torn_scan_ok:
  assumes "env w = []" "endp \<le> length (file_data (dir w) name)"
    and "nl \<notin> set (drop endp (file_data (dir w) name))"
  shows "torn_scan name endp w = (TornKeep (length (complete_prefix (file_data (dir w) name))),
    w\<lparr>dir := put_file name (complete_prefix (file_data (dir w) name))
      (min (length (complete_prefix (file_data (dir w) name))) (file_synced (dir w) name)) (dir w)\<rparr>)"
  using assms
proof (induction endp rule: less_induct)
  case (less endp)
  let ?d = "file_data (dir w) name"
  have cp: "complete_prefix ?d = complete_prefix (take endp ?d)"
    using complete_prefix_append(2) [OF less.prems(3), of "take endp ?d"] by simp
  show ?case
  proof (cases "endp = 0")
    case True
    then have "complete_prefix ?d = []" using cp by (simp add: complete_prefix_def)
    then show ?thesis using True truncate_ok [OF less.prems(1)] by (simp add: torn_scan.simps)
  next
    case False
    define start where "start = endp - scanChunk"
    define b where "b = take (endp - start) (drop start ?d)"
    have lt: "start < endp" using False by (simp add: start_def scanChunk_def)
    have split: "take endp ?d = take start ?d @ b"
      using lt by (simp add: b_def take_add [symmetric] less_imp_le)
    have r: "os_read_at name start (endp - start) w = ((b, True), w)"
      using read_ok [OF less.prems(1), of start "endp - start" name] less.prems(2) lt by (simp add: b_def)
    have step: "torn_scan name endp w = (case chunk_scan b (length b) of
        Some i \<Rightarrow> (case os_truncate name (start + i) w of (ok2, w2) \<Rightarrow>
                     (if ok2 then TornKeep (start + i) else TornError, w2))
      | None \<Rightarrow> torn_scan name start w)"
      using False r unfolding start_def by (subst torn_scan.simps) (simp add: Let_def)
    have sl: "length (take start ?d) = start" using lt less.prems(2) by simp
    show ?thesis
    proof (cases "nl \<in> set b")
      case True
      have c: "complete_prefix ?d = take start ?d @ complete_prefix b"
        using cp split complete_prefix_append(1) [OF True] by simp
      have len: "length (complete_prefix ?d) = start + length (complete_prefix b)" using c sl by simp
      obtain n where n: "n \<le> length ?d" "complete_prefix ?d = take n ?d"
        using complete_prefix_take by blast
      then have "take (start + length (complete_prefix b)) ?d = complete_prefix ?d"
        using len by simp
      then show ?thesis
        using True step truncate_ok [OF less.prems(1)] len by (simp add: chunk_scan_complete)
    next
      case False
      have "drop start ?d = b @ drop endp ?d"
        using lt by (simp add: b_def) (metis add_diff_cancel_right' append_take_drop_id drop_drop
            le_add_diff_inverse2 less_imp_le add.commute)
      then have "nl \<notin> set (drop start ?d)" using False less.prems(3) by simp
      then show ?thesis
        using less.IH [OF lt] less.prems lt step False by (simp add: chunk_scan_complete)
    qed
  qed
qed

text \<open>The whole repair: the active file becomes its complete prefix, nothing else changes.\<close>

lemma repair_ok:
  assumes e: "env w = []"
  shows "repairTornTail name (length (file_data (dir w) name)) w
    = (TornKeep (length (complete_prefix (file_data (dir w) name))),
       if ends_nl (file_data (dir w) name) then w
       else w\<lparr>dir := put_file name (complete_prefix (file_data (dir w) name))
         (min (length (complete_prefix (file_data (dir w) name))) (file_synced (dir w) name)) (dir w)\<rparr>)"
proof (cases "file_data (dir w) name = []")
  case True
  then show ?thesis by (simp add: repairTornTail_def ends_nl_def complete_prefix_def)
next
  case False
  let ?d = "file_data (dir w) name"
  have "os_read_at name (length ?d - 1) 1 w = ((take 1 (drop (length ?d - 1) ?d), True), w)"
    using False by (intro read_ok [OF e]) (simp add: Suc_leI)
  moreover have "take 1 (drop (length ?d - 1) ?d) = [last ?d]"
    using False by (cases ?d rule: rev_cases) simp_all
  ultimately show ?thesis
    using False torn_scan_ok [OF e, of "length ?d" name] complete_prefix_id [of ?d]
    by (simp add: repairTornTail_def ends_nl_def)
qed

section \<open>A queue on an empty directory\<close>

definition fresh_wal :: "nat \<Rightarrow> nat \<Rightarrow> diskQueue" where
  "fresh_wal mb mt = \<lparr>qio = \<lparr>env = [], dir = [(legacySegmentName, \<lparr>f_data = [], f_synced = 0\<rparr>)],
       wname = legacySegmentName, wopen = True, wbuf = [], werr = False\<rparr>,
     maxBytes = mb, maxTotalBytes = mt,
     segments = [\<lparr>seg_idx = 0, seg_base = 0, seg_size = 0, seg_name = legacySegmentName\<rparr>],
     activeIdx = 0, offset = 0, cpSeg = 0, cpOff = 0, stopped = False, dirtySinceFlush = False,
     droppedUnackedSegments = 0, droppedUnackedBytes = 0, lossySync = False,
     groupDelay = DefaultGroupCommitDelay, waiters = [], syncedOffset = 0, refusedHighWater = 0,
     unsyncedEvents = 0, lastErr = None\<rparr>"

lemma os_calls_ok: "env w = [] \<Longrightarrow> os_calls n w = (True, w)"
proof (induction n)
  case (Suc n)
  have "os_call w = (True, w)" using os_call_ok [OF Suc.prems] os_ok_simps(2) [OF Suc.prems] by simp
  then show ?case using Suc by simp
qed simp

lemma syncQueueDirs_ok: "env w = [] \<Longrightarrow> syncQueueDirs n w = (True, w)"
  by (induction n) (simp_all add: syncDir_def os_calls_ok)

lemma os_call_ok': "env w = [] \<Longrightarrow> os_call w = (True, w)"
  by (simp add: os_call_ok os_ok_simps(2))

lemma open_empty:
  assumes "0 < mb" "mb \<le> mt"
  shows "newDiskQueueWithDirSync depth (int mb) (int mt)
     \<lparr>env = [], dir = [], wname = [], wopen = False, wbuf = [], werr = False\<rparr>
     = (Inr (fresh_wal mb mt), qio (fresh_wal mb mt))"
  using assms
  by (simp add: newDiskQueueWithDirSync_def os_call_ok' discover_def os_create_def seg_file_name_def
      file_exists_def put_file_def syncQueueDirs_ok file_data_def repairTornTail_def map_filter_def
      adopt_checkpoint_def readCheckpoint_def checkpointName_def legacySegmentName_def segmentExists_def
      segmentSize_def validateCheckpointBoundary_def opened_def segmentEnd_def cpLogical_def
      gcSegmentsLocked.simps fresh_wal_def Let_def)

lemma fresh_wal_inv: "wal_inv (fresh_wal mb mt)"
proof -
  have "file_data [(legacySegmentName, \<lparr>f_data = [], f_synced = 0\<rparr>)] n = []" for n
    by (simp add: file_data_def)
  then show ?thesis
    by (simp add: wal_inv_def fresh_wal_def table_ok_def seg_ok_def seg_file_name_def seg_bytes_def
        wbytes_def file_exists_def synced_ok_def file_synced_def cp_ok_def)
qed

lemma fresh_wal_facts [simp]:
  "lossySync (fresh_wal mb mt) = False" "stopped (fresh_wal mb mt) = False" "offset (fresh_wal mb mt) = 0"
  "env (qio (fresh_wal mb mt)) = []" "werr (qio (fresh_wal mb mt)) = False"
  "wopen (qio (fresh_wal mb mt)) = True" "lastErr (fresh_wal mb mt) = None"
  "droppedUnackedSegments (fresh_wal mb mt) = 0" "syncedOffset (fresh_wal mb mt) = 0"
  "waiters (fresh_wal mb mt) = []" "cpSeg (fresh_wal mb mt) = 0" "cpOff (fresh_wal mb mt) = 0"
  by (simp_all add: fresh_wal_def)

lemma fresh_wal_empty: "pend (fresh_wal mb mt) = []" "framed (fresh_wal mb mt)"
  by (simp_all add: pend_def pend_seg_def seg_bytes_def framed_def ends_nl_def fresh_wal_def wbytes_def
      file_data_def)

text \<open>An append that fits is buffered and accepted.\<close>

lemma fresh_append:
  assumes "length raw < walWriterSize"
  shows "appendFrame raw n (fresh_wal mb mt) = ((length raw + 1, None),
    (fresh_wal mb mt)\<lparr>qio := (qio (fresh_wal mb mt))\<lparr>wbuf := raw @ [nl]\<rparr>, offset := length raw + 1,
       segments := [\<lparr>seg_idx = 0, seg_base = 0, seg_size = length raw + 1, seg_name = legacySegmentName\<rparr>],
       dirtySinceFlush := True, unsyncedEvents := n\<rparr>)"
proof -
  have "length raw \<le> walMaxFrameBytes" using assms by (simp add: walWriterSize_def walMaxFrameBytes_def)
  moreover have "bufio_write (raw @ [nl]) (qio (fresh_wal mb mt))
      = (length raw + 1, True, (qio (fresh_wal mb mt))\<lparr>wbuf := raw @ [nl]\<rparr>)"
    using assms by (subst bufio_write.simps) (simp add: fresh_wal_def)
  ultimately show ?thesis
    by (simp add: appendFrame_def append_write_def grow_def set_last_def Let_def)
      (simp add: fresh_wal_def grow_def)
qed

end
