(* ===== verification/WalProps.thy ===== *)
theory WalProps
  imports WalOpen
begin

text \<open>
  The properties of the write-ahead log as its clients rely on them, over the operations of
  \<^verbatim>\<open>src/internal/ingest/queue.go\<close>.
\<close>

section \<open>Appending\<close>

lemma append_accepted_aux:
  assumes I: "wal_inv q" and r: "appendFrame raw u q = ((off, None), q')" and l: "\<not> lossySync q"
  shows "wal_inv q' \<and> pend q' = pend q @ raw @ [nl] \<and> off = offset q + length raw + 1 \<and> offset q' = off
    \<and> droppedUnackedSegments q' = droppedUnackedSegments q \<and> same_config q q' \<and> lastErr q' = None
    \<and> (framed q \<longrightarrow> framed q') \<and> (\<forall>o0. wal_durable o0 q \<longrightarrow> wal_durable o0 q')
    \<and> syncedOffset q \<le> syncedOffset q' \<and> cpSeg q' = cpSeg q \<and> cpOff q' = cpOff q
    \<and> length raw \<le> walMaxFrameBytes"
  using I r
proof (cases rule: appendFrame_cases)
  case (written q1)
  have R: "wal_inv q1" "pend q1 = pend q" "offset q1 = offset q"
    "droppedUnackedSegments q1 = droppedUnackedSegments q" "same_config q q1" "lastErr q1 = lastErr q"
    "framed q \<longrightarrow> framed q1" "\<forall>o0. wal_durable o0 q \<longrightarrow> wal_durable o0 q1"
    "syncedOffset q \<le> syncedOffset q1" "cpSeg q1 = cpSeg q" "cpOff q1 = cpOff q"
    using written(1) l by (simp_all add: ready_def)
  from R(1) written(2) obtain n where A: "wal_inv q'" "pend q' = pend q1 @ take n (raw @ [nl])"
    "offset q' = offset q1 + n" "off = offset q'" "n = length (raw @ [nl])" "same_config q1 q'"
    "cpSeg q' = cpSeg q1" "cpOff q' = cpOff q1" "syncedOffset q' = syncedOffset q1"
    "droppedUnackedSegments q' = droppedUnackedSegments q1" "lastErr q' = lastErr q1"
    "ends_nl (raw @ [nl]) \<longrightarrow> framed q1 \<longrightarrow> framed q'" "\<forall>o0. wal_durable o0 q1 \<longrightarrow> wal_durable o0 q'"
    by (rule append_write_spec) simp
  have "ends_nl (raw @ [nl])" by (simp add: ends_nl_def)
  moreover have "same_config q q'" using same_config_trans [OF R(5) A(6)] .
  ultimately show ?thesis using R A written(3,4) by simp
qed simp_all

text \<open>C6: In durable mode an accepted append puts exactly the frame and its newline behind the bytes
  a replay would read, returns the offset after them, and drops no segment that is not acknowledged;
  the invariant of the log, its framing and its durable prefix are kept.\<close>

theorem append_accepted:
  assumes "wal_inv q" "\<not> lossySync q" "appendFrame raw u q = ((off, None), q')"
  shows "wal_inv q' \<and> pend q' = pend q @ raw @ [nl] \<and> off = offset q + length raw + 1 \<and> offset q' = off
    \<and> droppedUnackedSegments q' = droppedUnackedSegments q \<and> (framed q \<longrightarrow> framed q')
    \<and> (\<forall>o0. wal_durable o0 q \<longrightarrow> wal_durable o0 q')"
  using append_accepted_aux [OF assms(1,3,2)] by blast

theorem append_accepted_witness:
  "\<exists>q'. appendFrame ''{}'' 1 (fresh_wal 100 1000) = ((3, None), q') \<and> pend q' = ''{}'' @ [nl] \<and> wal_inv q'"
proof -
  obtain q' where q': "appendFrame ''{}'' 1 (fresh_wal 100 1000) = ((3, None), q')"
    using fresh_append [of "''{}''" 1 100 1000] by (simp add: walWriterSize_def)
  show ?thesis
    using append_accepted [OF fresh_wal_inv _ q'] q' by (simp add: fresh_wal_empty)
qed

text \<open>C10: An append that is not accepted leaves the bytes a replay reads as they were, unless it
  failed in the middle of the write: then a prefix of the frame may follow them and the error is
  latched, so no later append can come after it.  In durable mode no segment is dropped.\<close>

theorem append_rejected:
  assumes I: "wal_inv q" and r: "appendFrame raw u q = ((off, Some e), q')" and l: "\<not> lossySync q"
  shows "wal_inv q' \<and> droppedUnackedSegments q' = droppedUnackedSegments q
    \<and> (pend q' = pend q \<or> (lastErr q' \<noteq> None \<and> (\<exists>n \<le> length raw + 1. pend q' = pend q @ take n (raw @ [nl]))))"
  using I r
proof (cases rule: appendFrame_cases)
  case (refused q1)
  have R: "wal_inv q1" "droppedUnackedSegments q1 = droppedUnackedSegments q"
    using refused(2) l by (simp_all add: ready_def)
  obtain n where q': "q' = q1\<lparr>refusedHighWater := n\<rparr>" using refused(4) by metis
  show ?thesis using R refused(3) unfolding q' by simp
next
  case (rollfail q1)
  then show ?thesis using l unfolding ready_def quiet_def by metis
next
  case (written q1)
  have R: "wal_inv q1" "pend q1 = pend q" "droppedUnackedSegments q1 = droppedUnackedSegments q"
    using written(1) l by (simp_all add: ready_def)
  from R(1) written(2) obtain n where "wal_inv q'" "pend q' = pend q1 @ take n (raw @ [nl])"
    "n \<le> length (raw @ [nl])" "droppedUnackedSegments q' = droppedUnackedSegments q1" "lastErr q' \<noteq> None"
    by (rule append_write_spec) simp
  then show ?thesis using R by auto
qed

theorem append_rejected_witness:
  "appendFrame ''{}'' 1 ((fresh_wal 100 1000)\<lparr>stopped := True\<rparr>)
     = ((0, Some ErrClosed), (fresh_wal 100 1000)\<lparr>stopped := True\<rparr>)
   \<and> pend ((fresh_wal 100 1000)\<lparr>stopped := True\<rparr>) = []"
proof -
  let ?q = "(fresh_wal 100 1000)\<lparr>stopped := True\<rparr>"
  have r: "appendFrame ''{}'' 1 ?q = ((0, Some ErrClosed), ?q)"
    by (simp add: appendFrame_def walMaxFrameBytes_def fresh_wal_def)
  have "wal_inv ?q" using fresh_wal_inv by simp
  from append_rejected [OF this r] r show ?thesis by (simp add: fresh_wal_empty)
qed

text \<open>In lossy mode a roll may delete segments that were not acknowledged, and every loss is
  counted: the bytes a replay reads stay a suffix of what they were, followed by the new frame, and
  they can only be a proper suffix when the dropped-segment counter has grown.\<close>

theorem append_loss_counted:
  assumes I: "wal_inv q" and r: "appendFrame raw u q = ((off, None), q')"
  shows "\<exists>j. pend q' = drop j (pend q) @ raw @ [nl]
    \<and> (drop j (pend q) = pend q \<or> droppedUnackedSegments q < droppedUnackedSegments q')"
  using I r
proof (cases rule: appendFrame_cases)
  case (written q1)
  have R: "wal_inv q1" "lost_counted q q1 (pend q1)" using written(1) by (simp_all add: ready_def)
  from R(1) written(2) obtain n where A: "pend q' = pend q1 @ take n (raw @ [nl])"
    "n = length (raw @ [nl])" "droppedUnackedSegments q' = droppedUnackedSegments q1"
    by (rule append_write_spec) simp
  obtain j where "pend q1 = drop j (pend q)"
    "pend q1 \<noteq> pend q \<longrightarrow> droppedUnackedSegments q < droppedUnackedSegments q1"
    using R(2) by (auto simp: lost_counted_def)
  then show ?thesis using A by (intro exI [of _ j]) auto
qed simp_all

theorem append_loss_counted_witness:
  "\<exists>q'. appendFrame ''{}'' 1 (fresh_wal 100 1000) = ((3, None), q') \<and> (\<exists>j. pend q' = drop j [] @ ''{}'' @ [nl])"
proof -
  obtain q' where q': "appendFrame ''{}'' 1 (fresh_wal 100 1000) = ((3, None), q')"
    using fresh_append [of "''{}''" 1 100 1000] by (simp add: walWriterSize_def)
  from append_loss_counted [OF fresh_wal_inv q'] q' show ?thesis by (auto simp: fresh_wal_empty)
qed

section \<open>Checkpoints\<close>

text \<open>C8: A checkpoint to an offset beyond the current one either drops exactly the bytes up to that
  offset (clamped to the end of the log) from what a replay reads, never more, or fails with the
  error latched and that content unchanged; the log's invariant, framing and durable prefix are
  kept, and success never leaves it in the failed state.\<close>

theorem checkpoint_exact:
  assumes "wal_inv q" "\<not> stopped q" "cpLogical q < t" "Checkpoint t q = (r, q')"
  shows "wal_inv q' \<and> offset q' = offset q \<and> (framed q \<longrightarrow> framed q')
    \<and> (\<forall>o0. wal_durable o0 q \<longrightarrow> wal_durable o0 q')
    \<and> (pend q' = drop (min t (offset q) - pend_start q) (pend q)
       \<or> (pend q' = pend q \<and> r \<noteq> None)) \<and> (r \<noteq> None \<longrightarrow> lastErr q' \<noteq> None)"
  using Checkpoint_spec [OF assms(1,4,3,2)] unfolding cp_effect_def quiet_def by blast

lemma checkpoint_noop: "\<not> stopped q \<Longrightarrow> t \<le> cpLogical q \<Longrightarrow> Checkpoint t q = (None, q)"
  by (simp add: Checkpoint_def)

theorem checkpoint_exact_witness:
  "\<exists>r q'. Checkpoint 3 (snd (appendFrame ''{}'' 1 (fresh_wal 100 1000))) = (r, q') \<and> wal_inv q'
     \<and> (pend q' = [] \<or> r \<noteq> None)"
proof -
  obtain q where q: "appendFrame ''{}'' 1 (fresh_wal 100 1000) = ((3, None), q)"
    using fresh_append [of "''{}''" 1 100 1000] by (simp add: walWriterSize_def)
  have A: "wal_inv q" "pend q = ''{}'' @ [nl]" "offset q = 3" "stopped q = False" "cpSeg q = 0" "cpOff q = 0"
    using append_accepted_aux [OF fresh_wal_inv q] by (simp_all add: fresh_wal_empty same_config_def)
  have q0: "q = snd (appendFrame ''{}'' 1 (fresh_wal 100 1000))" using q by simp
  have s: "cpLogical q = 0" "pend_start q = 0"
    unfolding q0 using fresh_append [of "''{}''" 1 100 1000]
    by (simp_all add: walWriterSize_def cpLogical_def pend_start_def segmentExists_def fresh_wal_def)
  obtain r q' where c: "Checkpoint 3 q = (r, q')" by fastforce
  have lt: "cpLogical q < 3" by (simp add: s)
  from checkpoint_exact [OF A(1) _ lt c] have "wal_inv q' \<and> (pend q' = [] \<or> r \<noteq> None)"
    using A s by auto
  then show ?thesis using c unfolding q0 by blast
qed

section \<open>Replay\<close>



section \<open>From an appended batch to its replay\<close>

definition frame_of :: "Event list \<Rightarrow> walFrame" where
  "frame_of es = \<lparr>isRecords = False, events = es, records = []\<rparr>"

definition batch_ok :: "Event list \<Rightarrow> bool" where
  "batch_ok es \<longleftrightarrow> es \<noteq> [] \<and> list_all event_ok es
     \<and> list_all (\<lambda>e. ev_event_id e \<noteq> [] \<and> ev_site_id e \<noteq> []) es"

lemma print_json_obj: "print_json (JObj ms) = CHR ''{'' # print_members ms @ ''}''"
  by simp

lemma clean_no_nl: "clean s \<Longrightarrow> nl \<notin> set s" "clean s \<Longrightarrow> s \<noteq> [] \<Longrightarrow> last s \<noteq> cr"
proof -
  assume c: "clean s"
  then show "nl \<notin> set s" by (auto simp: clean_def)
  assume "s \<noteq> []"
  then have "32 \<le> (of_char (last s) :: nat)" using c by (simp add: clean_def)
  then show "last s \<noteq> cr" by auto
qed

lemma batch_entry_ok:
  assumes "batch_ok es" "length (print_json (batch_frame es)) \<le> walMaxFrameBytes"
  shows "entry_ok (print_json (batch_frame es), frame_of es)"
proof -
  have ok: "list_all event_ok es" using assms(1) by (simp add: batch_ok_def)
  have ne: "print_json (batch_frame es) \<noteq> []" by (simp add: batch_frame_def)
  show ?thesis
    using clean_no_nl [OF print_clean(1) [OF batch_frame_ok [OF ok]]] decode_batch [OF ok] ne assms
    by (simp add: entry_ok_def frame_of_def has_identity_def batch_ok_def scannerMax_def)
qed

definition events_of :: "entry list \<Rightarrow> Event list" where
  "events_of rs = concat (map (\<lambda>(r, f). events f) rs)"

lemma deliver_events:
  assumes "list_all (\<lambda>(r, f). \<not> isRecords f) rs"
  shows "deliver (\<lambda>f off s. if isRecords f then (False, s) else (True, s @ events f)) (frame_ends p rs) out
    = (None, out @ events_of rs)"
  using assms by (induction rs arbitrary: p out) (auto simp: events_of_def)

lemma Pending_log:
  assumes "wal_inv q" "framed q" "\<not> stopped q" "env (qio q) = []" "\<not> werr (qio q)" "wopen (qio q)"
    and "pend q = log_of rs" "list_all entry_ok rs" "list_all (\<lambda>(r, f). \<not> isRecords f) rs"
  shows "fst (Pending q) = Inr (events_of rs)"
proof -
  have "fst (StreamPending (\<lambda>es out. (True, out @ es)) [] q) = (None, events_of rs)"
    unfolding StreamPending_def streamFrames_log [OF assms(1-8)] deliver_events [OF assms(9)] by simp
  then show ?thesis
    by (cases "StreamPending (\<lambda>es out. (True, out @ es)) [] q") (simp add: Pending_def)
qed

lemma AppendBatch_logged:
  assumes "wal_inv q" "\<not> lossySync q" "framed q" "pend q = log_of rs" "list_all entry_ok rs"
    and "batch_ok es" "AppendBatch es q = ((off, None), q')"
  shows "wal_inv q' \<and> framed q' \<and> pend q' = log_of (rs @ [(print_json (batch_frame es), frame_of es)])
    \<and> list_all entry_ok (rs @ [(print_json (batch_frame es), frame_of es)])
    \<and> same_config q q' \<and> lastErr q' = None"
proof -
  have a: "appendFrame (print_json (batch_frame es)) (length es) q = ((off, None), q')"
    using assms(6,7) by (simp add: AppendBatch_def batch_ok_def)
  note A = append_accepted_aux [OF assms(1) a assms(2)]
  show ?thesis using A assms batch_entry_ok [OF assms(6)] by simp
qed

text \<open>C7: A batch of events that was accepted is read back by the next replay, unchanged and after
  everything that was pending before it: the JSON frame written to the log decodes to the same
  events (every field, the optional ones included).\<close>

theorem batch_replayed:
  assumes "wal_inv q" "framed q" "\<not> lossySync q" "\<not> stopped q" "pend q = log_of rs"
    and "list_all entry_ok rs" "list_all (\<lambda>(r, f). \<not> isRecords f) rs"
    and "batch_ok es" "AppendBatch es q = ((off, None), q')"
    and "env (qio q') = []" "\<not> werr (qio q')" "wopen (qio q')"
  shows "fst (Pending q') = Inr (events_of rs @ es)"
proof -
  note L = AppendBatch_logged [OF assms(1,3,2,5,6,8,9)]
  have "fst (Pending q') = Inr (events_of (rs @ [(print_json (batch_frame es), frame_of es)]))"
    by (rule Pending_log) (use L assms in \<open>simp_all add: same_config_def frame_of_def\<close>)
  then show ?thesis by (simp add: events_of_def frame_of_def)
qed

definition sample_event :: Event where
  "sample_event = zero_event\<lparr>ev_event_id := ''e1'', ev_site_id := ''s1'', ev_timestamp := 5\<rparr>"

lemma sample_batch_ok: "batch_ok [sample_event]"
  by (simp add: batch_ok_def sample_event_def event_ok_def zero_event_def)

lemma length_escape: "length (escape_string s) \<le> 6 * length s"
proof (induction s rule: escape_string.induct)
  case (1 a b c r)
  then show ?case by (auto simp: escape_char_def u_escape_def)
qed (auto simp: escape_char_def u_escape_def)

lemma length_print_members: "length (print_members ms)
    \<le> sum_list (map (\<lambda>(k, v). 6 * length k + length (print_json v) + 4) ms)"
proof (induction ms)
  case (Cons kv ms)
  obtain k v where kv: "kv = (k, v)" by fastforce
  show ?case using Cons length_escape [of k] by (simp add: kv print_string_def)
qed simp

lemma sample_batch_length: "length (print_json (batch_frame [sample_event])) \<le> 3000"
proof -
  have n: "dec_nat 0 = [digit_char 0]" "dec_nat 5 = [digit_char 5]" "dec_nat 1 = [digit_char 1]"
    by (simp_all add: dec_nat.simps)
  have e: "length (print_string s) \<le> 6 * length s + 2" for s
    using length_escape [of s] by (simp add: print_string_def)
  have "length (print_members (event_members sample_event)) \<le> 1900"
    by (rule order_trans [OF length_print_members])
      (use e [of "''e1''"] e [of "''s1''"] in \<open>simp add: event_members_def core_members_def core_names_def
        opt_members_def sample_event_def zero_event_def print_int_def n print_string_def\<close>)
  moreover have "length (print_string ''wal_version'') \<le> 68" "length (print_string ''events'') \<le> 38"
    using e [of "''wal_version''"] e [of "''events''"] by simp_all
  ultimately show ?thesis
    by (simp add: batch_frame_def walBatchVersion_def print_int_def n [simplified])
qed

theorem batch_replayed_witness:
  "\<exists>off q'. AppendBatch [sample_event] (fresh_wal 100 1000) = ((off, None), q')
     \<and> fst (Pending q') = Inr [sample_event]"
proof -
  have "length (print_json (batch_frame [sample_event])) < walWriterSize"
    using sample_batch_length by (simp add: walWriterSize_def)
  from fresh_append [OF this, of 1 100 1000] obtain off q' where
    q': "AppendBatch [sample_event] (fresh_wal 100 1000) = ((off, None), q')"
    "env (qio q') = []" "\<not> werr (qio q')" "wopen (qio q')"
    by (simp add: AppendBatch_def)
  have "fst (Pending q') = Inr (events_of [] @ [sample_event])"
    by (rule batch_replayed [OF fresh_wal_inv fresh_wal_empty(2) _ _ _ _ _ sample_batch_ok q'])
      (simp_all add: fresh_wal_empty)
  then show ?thesis using q'(1) by (auto simp: events_of_def)
qed

section \<open>The files of the log\<close>

text \<open>The repair of a torn tail, whose backward scan runs in chunks of 4096 bytes, leaves the
  active file with exactly its longest prefix that ends at a record boundary, whatever its length,
  and reports that prefix's length.\<close>

theorem torn_tail_repaired:
  assumes "env w = []" "file_exists (dir w) name"
  shows "\<exists>w'. repairTornTail name (length (file_data (dir w) name)) w
      = (TornKeep (length (complete_prefix (file_data (dir w) name))), w')
    \<and> file_data (dir w') name = complete_prefix (file_data (dir w) name)"
  unfolding repair_ok [OF assms(1)] using complete_prefix_id [of "file_data (dir w) name"] by auto

theorem torn_tail_repaired_witness:
  "\<exists>w'. repairTornTail ''f'' 5 \<lparr>env = [], dir = [(''f'', \<lparr>f_data = ''a'' @ [nl] @ ''b'' @ [nl] @ ''c'', f_synced = 0\<rparr>)],
      wname = [], wopen = False, wbuf = [], werr = False\<rparr> = (TornKeep 4, w')
    \<and> file_data (dir w') ''f'' = ''a'' @ [nl] @ ''b'' @ [nl]"
  using torn_tail_repaired [of "\<lparr>env = [], dir = [(''f'', \<lparr>f_data = ''a'' @ [nl] @ ''b'' @ [nl] @ ''c'', f_synced = 0\<rparr>)],
      wname = [], wopen = False, wbuf = [], werr = False\<rparr>" "''f''"]
  by (simp add: file_data_def file_exists_def complete_prefix_def eval_nat_numeral)

text \<open>The checkpoint file is read back as the position that was written, in both of its forms:
  the bare decimal of a queue that never rolled and the JSON object of one that did.\<close>

theorem checkpoint_file_roundtrip:
  assumes "sg < 2 ^ 63" "off < 2 ^ 63" "writeCheckpoint sg off q = (True, q')" "env (qio q') = []"
  shows "fst (readCheckpoint (qio q')) = Inr (sg, off)"
proof -
  let ?d = "if sg = 0 \<and> \<not> segmentExistsNonLegacy (segments q) then dec_nat off else checkpoint_json sg off"
  have "file_data (dir (qio q')) checkpointName = ?d \<and> file_exists (dir (qio q')) checkpointName"
  proof -
    obtain w1 where w1: "atomicWrite0600 checkpointName ?d (qio q) = (True, w1)" "qio q' = w1"
      using assms(3) by (auto simp: writeCheckpoint_def Let_def split: prod.splits if_splits)
    obtain w2 where "os_calls 3 (w2\<lparr>dir := put_file checkpointName ?d (length ?d) (dir w2)\<rparr>) = (True, w1)"
      using w1(1) unfolding atomicWrite0600_def by (auto split: prod.splits if_splits)
    then obtain e where "w1 = w2\<lparr>dir := put_file checkpointName ?d (length ?d) (dir w2), env := e\<rparr>"
      using os_calls_frame [of 3 "w2\<lparr>dir := put_file checkpointName ?d (length ?d) (dir w2)\<rparr>"] by auto
    then show ?thesis using w1(2) by (simp add: file_data_def file_exists_def put_file_def)
  qed
  then show ?thesis
    using parse_checkpoint_decimal [OF assms(2)] parse_checkpoint_json [OF assms(1,2)] os_call_ok' [OF assms(4)]
    by (simp add: readCheckpoint_def)
qed

theorem checkpoint_file_roundtrip_witness:
  "\<exists>q'. writeCheckpoint 7 42 (fresh_wal 100 1000) = (True, q') \<and> fst (readCheckpoint (qio q')) = Inr (7, 42)"
proof -
  obtain q' where w: "writeCheckpoint 7 42 (fresh_wal 100 1000) = (True, q')" "env (qio q') = []"
    by (simp add: writeCheckpoint_def atomicWrite0600_def os_calls_ok Let_def)
  from checkpoint_file_roundtrip [OF _ _ w] w(1) show ?thesis by auto
qed

text \<open>Segment files are found again under the name they were created with: the name of a segment
  parses back to its number, for every number the discovery accepts.\<close>

theorem segment_name_roundtrip:
  assumes "1 \<le> i" "i < 2 ^ 63"
  shows "parseSegmentFileName (segmentFileName i) = Some i"
  by (rule parse_segmentFileName [OF assms])

theorem segment_name_roundtrip_witness: "parseSegmentFileName (segmentFileName 1234567) = Some 1234567"
  by (rule segment_name_roundtrip) simp_all

end
