(* ===== verification/WalCommit.thy ===== *)
theory WalCommit
  imports WalOpen "HOL-Library.Multiset"
begin

text \<open>
  Group commit: the goroutines of \<^verbatim>\<open>src/internal/ingest/queue.go\<close> that share the log with the appends
  and checkpoints.  Callers wait in \<^verbatim>\<open>WaitCommit\<close> until one fsync covers their frame; the committer,
  the periodic fsync and \<^verbatim>\<open>Close\<close> perform it.  Every critical section is one step, so the step
  relation below has all interleavings; channels are the list of answers given.
\<close>

section \<open>The critical sections\<close>

text \<open>One tick of \<^verbatim>\<open>fsyncLoop\<close>.\<close>

definition fsyncTick :: "diskQueue \<Rightarrow> diskQueue" where
  "fsyncTick q =
    (if stopped q then q
     else if dirtySinceFlush q \<and> lastErr q = None then
       (case bufio_flush (qio q) of (ok1, w1) \<Rightarrow>
        if \<not> ok1 then snd (setErrLocked ErrFlush (q\<lparr>qio := w1\<rparr>)) else
        case os_sync w1 of (ok2, w2) \<Rightarrow>
        if \<not> ok2 then snd (setErrLocked ErrSync (q\<lparr>qio := w2\<rparr>)) else
        q\<lparr>qio := w2, dirtySinceFlush := False, syncedOffset := offset q, unsyncedEvents := 0\<rparr>)
     else q)"

text \<open>\<^verbatim>\<open>WaitCommit\<close> answers at once or registers a waiter and blocks on its channel.\<close>

datatype wait = Answered "wal_error option" | Blocked

definition WaitCommit :: "nat \<Rightarrow> nat \<Rightarrow> int \<Rightarrow> diskQueue \<Rightarrow> wait \<times> diskQueue" where
  "WaitCommit off i now q =
    (if lossySync q then (Answered None, q)
     else if syncedOffset q \<ge> off then (Answered None, q)
     else if stopped q then (Answered (Some ErrClosedBeforeCommit), q)
     else case lastErr q of
       Some e \<Rightarrow> (Answered (Some (ErrDegraded e)), q)
     | None \<Rightarrow> (Blocked, q\<lparr>waiters := waiters q @ [\<lparr>w_id = i, w_off = off, w_enqueued = now\<rparr>]\<rparr>))"

type_synonym answer = "commitWaiter \<times> wal_error option"

definition failOrCoverWaiters :: "diskQueue \<Rightarrow> answer list \<times> diskQueue" where
  "failOrCoverWaiters q =
    (map (\<lambda>w. (w, if w_off w \<le> syncedOffset q then None else Some ErrClosedBeforeCommit)) (waiters q),
     q\<lparr>waiters := []\<rparr>)"

text \<open>The committer keeps the window open while this holds.\<close>

definition holdWindow :: "int \<Rightarrow> diskQueue \<Rightarrow> bool" where
  "holdWindow now q \<longleftrightarrow> waiters q \<noteq> []
     \<and> groupDelay q - (now - w_enqueued (hd (waiters q))) > 0
     \<and> offset q - syncedOffset q < walGroupCommitBytes"

definition maxOff :: "commitWaiter list \<Rightarrow> nat" where
  "maxOff ws = foldl (\<lambda>m w. if w_off w > m then w_off w else m) 0 ws"

text \<open>The shared flush and fsync of \<^verbatim>\<open>syncGroup\<close>; a failure is latched.\<close>

definition groupFlush :: "diskQueue \<Rightarrow> wal_error option \<times> diskQueue" where
  "groupFlush q =
    (case lastErr q of
       Some e \<Rightarrow> (Some e, snd (setErrLocked ErrGroupSync q))
     | None \<Rightarrow>
       case bufio_flush (qio q) of (ok1, w1) \<Rightarrow>
       if \<not> ok1 then (Some ErrFlush, snd (setErrLocked ErrGroupSync (q\<lparr>qio := w1\<rparr>))) else
       case os_sync w1 of (ok2, w2) \<Rightarrow>
       if \<not> ok2 then (Some ErrSync, snd (setErrLocked ErrGroupSync (q\<lparr>qio := w2\<rparr>)))
       else (None, q\<lparr>qio := w2, syncedOffset := offset q, dirtySinceFlush := False, unsyncedEvents := 0\<rparr>))"

definition syncGroup :: "diskQueue \<Rightarrow> bool \<times> answer list \<times> diskQueue" where
  "syncGroup q =
    (if waiters q = [] then (False, [], q)
     else if stopped q then (case failOrCoverWaiters q of (as, q1) \<Rightarrow> (False, as, q1))
     else if syncedOffset q \<ge> maxOff (waiters q) \<and> lastErr q = None then
       (True, map (\<lambda>w. (w, None)) (waiters q), q\<lparr>waiters := []\<rparr>)
     else case groupFlush q of (err, q1) \<Rightarrow>
       (True, map (\<lambda>w. (w, case err of Some e \<Rightarrow> Some e
                        | None \<Rightarrow> if w_off w \<le> offset q then None
                                  else Some (ErrNotCovered (w_off w) (offset q)))) (waiters q1),
        q1\<lparr>waiters := []\<rparr>))"

definition Close :: "diskQueue \<Rightarrow> wal_error option \<times> diskQueue" where
  "Close q =
    (if stopped q then (None, q) else
     case bufio_flush (qio q) of (ok1, w1) \<Rightarrow>
     case (if ok1 then os_sync w1 else (False, w1)) of (ok2, w2) \<Rightarrow>
     let err = (if \<not> ok1 then Some ErrFlush else if \<not> ok2 then Some ErrSync else None);
         q1 = (if err = None then q\<lparr>stopped := True, qio := w2, syncedOffset := offset q, unsyncedEvents := 0\<rparr>
               else q\<lparr>stopped := True, qio := w2\<rparr>)
     in case os_call w2 of (ok3, w3) \<Rightarrow>
        (if err = None \<and> \<not> ok3 then Some ErrClose else err, q1\<lparr>qio := w3\<lparr>wopen := False\<rparr>\<rparr>))"

section \<open>All interleavings\<close>

text \<open>The queue, everybody who asked, and the answers given so far.\<close>

record commits =
  cm_queue :: diskQueue
  cm_asked :: "commitWaiter list"
  cm_told :: "answer list"

text \<open>\<^verbatim>\<open>WaitCommit\<close> for an offset of the log, as its callers use it: an append returned the offset.\<close>

definition ask :: "nat \<Rightarrow> int \<Rightarrow> commits \<Rightarrow> commits" where
  "ask off now s =
    (let w = \<lparr>w_id = length (cm_asked s), w_off = off, w_enqueued = now\<rparr> in
     case WaitCommit off (w_id w) now (cm_queue s) of
       (Answered r, q) \<Rightarrow> s\<lparr>cm_queue := q, cm_asked := cm_asked s @ [w], cm_told := cm_told s @ [(w, r)]\<rparr>
     | (Blocked, q) \<Rightarrow> s\<lparr>cm_queue := q, cm_asked := cm_asked s @ [w]\<rparr>)"

definition commit_group :: "commits \<Rightarrow> commits" where
  "commit_group s = (case syncGroup (cm_queue s) of (_, as, q) \<Rightarrow>
     s\<lparr>cm_queue := q, cm_told := cm_told s @ as\<rparr>)"

definition drain :: "commits \<Rightarrow> commits" where
  "drain s = (case failOrCoverWaiters (cm_queue s) of (as, q) \<Rightarrow>
     s\<lparr>cm_queue := q, cm_told := cm_told s @ as\<rparr>)"

inductive commit_step :: "commits \<Rightarrow> commits \<Rightarrow> bool" where
  append: "commit_step s (s\<lparr>cm_queue := snd (appendFrame raw u (cm_queue s))\<rparr>)"
| checkpoint: "commit_step s (s\<lparr>cm_queue := snd (Checkpoint t (cm_queue s))\<rparr>)"
| tick: "commit_step s (s\<lparr>cm_queue := fsyncTick (cm_queue s)\<rparr>)"
| ask: "off \<le> offset (cm_queue s) \<Longrightarrow> commit_step s (ask off now s)"
| group: "\<not> holdWindow now (cm_queue s) \<Longrightarrow> commit_step s (commit_group s)"
| close: "commit_step s (s\<lparr>cm_queue := snd (Close (cm_queue s))\<rparr>)"
| drain: "stopped (cm_queue s) \<Longrightarrow> commit_step s (drain s)"

inductive_cases commit_stepE: "commit_step s s'"

section \<open>What every section keeps\<close>

text \<open>The log's invariant and durable prefix, coverage that only grows, and the registered waiters.\<close>

definition keeps :: "diskQueue \<Rightarrow> diskQueue \<Rightarrow> bool" where
  "keeps q q1 \<longleftrightarrow> wal_inv q1 \<and> (\<forall>o0. wal_durable o0 q \<longrightarrow> wal_durable o0 q1)
     \<and> syncedOffset q \<le> syncedOffset q1 \<and> offset q \<le> offset q1 \<and> lossySync q1 = lossySync q
     \<and> waiters q1 = waiters q"

lemma keeps_refl [simp]: "wal_inv q \<Longrightarrow> keeps q q"
  by (simp add: keeps_def)

lemma keeps_trans: "keeps q q1 \<Longrightarrow> keeps q1 q2 \<Longrightarrow> keeps q q2"
  by (auto simp: keeps_def)

lemma keeps_quiet: "quiet q q1 \<Longrightarrow> keeps q q1"
  by (simp add: keeps_def quiet_def same_config_def)

lemma keeps_ghost [simp]:
  "keeps q (q1\<lparr>lastErr := e\<rparr>) = keeps q q1" "keeps q (q1\<lparr>dirtySinceFlush := b\<rparr>) = keeps q q1"
  "keeps q (q1\<lparr>unsyncedEvents := n\<rparr>) = keeps q q1" "keeps q (q1\<lparr>stopped := b\<rparr>) = keeps q q1"
  "keeps q (q1\<lparr>refusedHighWater := n\<rparr>) = keeps q q1"
  by (simp_all add: keeps_def wal_durable_def covered_to_def wal_inv_def)

lemma setErr_keeps [simp]: "keeps q (snd (setErrLocked e q1)) = keeps q q1"
  by (simp add: setErrLocked_def split: option.split)

lemma keeps_append:
  assumes I: "wal_inv q"
  shows "keeps q (snd (appendFrame raw u q))"
proof -
  obtain off r q' where r: "appendFrame raw u q = ((off, r), q')" by (metis prod.collapse)
  have "keeps q q'" using I r
  proof (cases rule: appendFrame_cases)
    case (refused q1)
    then have "keeps q q1" by (simp add: ready_def keeps_def same_config_def)
    then have "keeps q (q1\<lparr>refusedHighWater := refusedHighWater q'\<rparr>)" by simp
    then show ?thesis using refused(4) by metis
  next
    case (rollfail q1)
    then have "keeps q q1" by (simp add: ready_def keeps_def same_config_def)
    then show ?thesis using keeps_quiet [OF rollfail(3)] by (rule keeps_trans)
  next
    case (written q1)
    then have "keeps q q1" by (simp add: ready_def keeps_def same_config_def)
    moreover have "keeps q1 q'"
    proof -
      have "wal_inv q1" using written(1) by (simp add: ready_def)
      from this written(2) show ?thesis
        by (rule append_write_spec) (auto simp: keeps_def same_config_def)
    qed
    ultimately show ?thesis by (rule keeps_trans)
  qed
  then show ?thesis by (simp add: r)
qed

lemma keeps_checkpoint:
  assumes I: "wal_inv q"
  shows "keeps q (snd (Checkpoint t q))"
proof (cases "stopped q \<or> t \<le> cpLogical q")
  case True
  then show ?thesis using I by (auto simp: Checkpoint_def)
next
  case False
  obtain r q' where r: "Checkpoint t q = (r, q')" by fastforce
  have "cp_effect t q q' \<or> quiet q q'" using Checkpoint_spec(1) [OF I r] False by auto
  then have "keeps q q'" by (auto simp: cp_effect_def keeps_def same_config_def dest: keeps_quiet)
  then show ?thesis by (simp add: r)
qed

lemma flush_sync_quiet:
  assumes I: "wal_inv q" and f: "bufio_flush (qio q) = (ok1, w1)"
  shows "quiet q (q\<lparr>qio := w1\<rparr>)"
    and "os_sync w1 = (ok2, w2) \<Longrightarrow> quiet q (q\<lparr>qio := w2\<rparr>)"
    and "ok1 \<Longrightarrow> os_sync w1 = (True, w2) \<Longrightarrow> quiet q (q\<lparr>qio := w2, syncedOffset := offset q\<rparr>)"
proof -
  show Q1: "quiet q (q\<lparr>qio := w1\<rparr>)" by (rule quiet_io [OF I io_same_flush [OF f]])
  have Y: "synced_ok w1" using quiet_inv [OF Q1] by (simp add: wal_inv_def)
  show Q2: "quiet q (q\<lparr>qio := w2\<rparr>)" if "os_sync w1 = (ok2, w2)" for ok2 w2
    using quiet_trans [OF Q1 quiet_io [OF quiet_inv [OF Q1], of w2]] io_same_sync [OF that Y] by simp
  show "quiet q (q\<lparr>qio := w2, syncedOffset := offset q\<rparr>)" if "ok1" "os_sync w1 = (True, w2)"
  proof -
    have "active_durable (q\<lparr>qio := w2\<rparr>)"
      using flush_sync_active [of "qio q" w1 w2] f that by (simp add: active_durable_def)
    from quiet_synced [OF Q2 [OF that(2)] this, of "unsyncedEvents q"] show ?thesis by simp
  qed
qed

text \<open>
  Any relation between the queue before and after that allows what \<open>quiet\<close> allows and does not look at
  the latch and the flags holds of every critical section that only flushes and fsyncs.
\<close>

locale log_relation =
  fixes R :: "diskQueue \<Rightarrow> diskQueue \<Rightarrow> bool"
  assumes R_quiet: "wal_inv q \<Longrightarrow> quiet q q1 \<Longrightarrow> R q q1"
    and R_ghost: "R q (q1\<lparr>lastErr := e\<rparr>) = R q q1" "R q (q1\<lparr>dirtySinceFlush := d\<rparr>) = R q q1"
      "R q (q1\<lparr>unsyncedEvents := n\<rparr>) = R q q1" "R q (q1\<lparr>stopped := s\<rparr>) = R q q1"
begin

lemma R_refl: "wal_inv q \<Longrightarrow> R q q"
  using R_quiet [of q q] quiet_io [of q "qio q"] by simp

lemma R_setErr: "R q (snd (setErrLocked e q1)) = R q q1"
  by (simp add: setErrLocked_def R_ghost split: option.split)

lemma R_flush:
  assumes I: "wal_inv q" and f: "bufio_flush (qio q) = (ok1, w1)"
  shows "R q (q\<lparr>qio := w1\<rparr>)"
    and "os_sync w1 = (ok2, w2) \<Longrightarrow> R q (q\<lparr>qio := w2\<rparr>)"
    and "ok1 \<Longrightarrow> os_sync w1 = (True, w2) \<Longrightarrow> R q (q\<lparr>qio := w2, syncedOffset := offset q\<rparr>)"
  using R_quiet [OF I flush_sync_quiet(1) [OF I f]] R_quiet [OF I flush_sync_quiet(2) [OF I f]]
    R_quiet [OF I flush_sync_quiet(3) [OF I f]] by blast+

lemma R_tick:
  assumes I: "wal_inv q"
  shows "R q (fsyncTick q)"
proof -
  obtain ok1 w1 where f: "bufio_flush (qio q) = (ok1, w1)" by fastforce
  obtain ok2 w2 where s: "os_sync w1 = (ok2, w2)" by fastforce
  have eq: "q\<lparr>qio := w2, dirtySinceFlush := False, syncedOffset := offset q, unsyncedEvents := 0\<rparr>
    = q\<lparr>qio := w2, syncedOffset := offset q\<rparr>\<lparr>dirtySinceFlush := False\<rparr>\<lparr>unsyncedEvents := 0\<rparr>" by simp
  have "R q (q\<lparr>qio := w2, dirtySinceFlush := False, syncedOffset := offset q, unsyncedEvents := 0\<rparr>)"
    if "ok1" "ok2"
    unfolding eq R_ghost using R_flush(3) [OF I f, of w2] s that by simp
  then show ?thesis
    using R_refl [OF I] R_flush(1) [OF I f] R_flush(2) [OF I f s] s
    by (cases ok1; cases ok2) (simp_all add: fsyncTick_def f R_setErr)
qed

lemma R_group:
  assumes I: "wal_inv q"
  shows "R q (snd (groupFlush q))"
proof -
  obtain ok1 w1 where f: "bufio_flush (qio q) = (ok1, w1)" by fastforce
  obtain ok2 w2 where s: "os_sync w1 = (ok2, w2)" by fastforce
  have "R q (q\<lparr>qio := w2, syncedOffset := offset q, dirtySinceFlush := False, unsyncedEvents := 0\<rparr>)"
    if "ok1" "ok2"
    unfolding R_ghost using R_flush(3) [OF I f, of w2] s that by simp
  then show ?thesis
    using R_refl [OF I] R_flush(1) [OF I f] R_flush(2) [OF I f s] s
    by (cases ok1; cases ok2) (simp_all add: groupFlush_def f R_setErr split: option.split)
qed

lemma R_close:
  assumes I: "wal_inv q"
  shows "R q (snd (Close q))"
proof (cases "stopped q")
  case False
  obtain ok1 w1 where f: "bufio_flush (qio q) = (ok1, w1)" by fastforce
  obtain ok2 w2 where s: "(if ok1 then os_sync w1 else (False, w1)) = (ok2, w2)" by fastforce
  obtain ok3 w3 where c: "os_call w2 = (ok3, w3)" by fastforce
  define q1 where "q1 = (if ok1 \<and> ok2 then q\<lparr>qio := w2, syncedOffset := offset q\<rparr> else q\<lparr>qio := w2\<rparr>)"
  have K1: "quiet q q1" and w: "qio q1 = w2"
    using flush_sync_quiet(1) [OF I f] flush_sync_quiet(2) [OF I f, of ok2 w2] flush_sync_quiet(3) [OF I f, of w2] s
    by (auto simp: q1_def split: if_splits)
  have "io_same w2 (w3\<lparr>wopen := False\<rparr>)"
    using io_same_trans [OF io_same_call [OF c] io_same_wopen] .
  then have "quiet q1 (q1\<lparr>qio := w3\<lparr>wopen := False\<rparr>\<rparr>)"
    using quiet_io [OF quiet_inv [OF K1]] w by simp
  from R_quiet [OF I quiet_trans [OF K1 this]] have K: "R q (q1\<lparr>qio := w3\<lparr>wopen := False\<rparr>\<rparr>)" .
  have "snd (Close q) = (if ok1 \<and> ok2 then q1\<lparr>qio := w3\<lparr>wopen := False\<rparr>\<rparr>\<lparr>stopped := True\<rparr>\<lparr>unsyncedEvents := 0\<rparr>
      else q1\<lparr>qio := w3\<lparr>wopen := False\<rparr>\<rparr>\<lparr>stopped := True\<rparr>)"
    using False by (simp add: Close_def f s c Let_def q1_def)
  then show ?thesis using K by (simp add: R_ghost)
qed (use R_refl [OF I] in \<open>simp add: Close_def\<close>)

end

interpretation kept: log_relation keeps
  by unfold_locales (simp_all add: keeps_quiet)

lemmas keeps_tick = kept.R_tick and keeps_close = kept.R_close

lemma groupFlush_keeps:
  assumes I: "wal_inv q"
  shows "keeps q (snd (groupFlush q))"
    and "fst (groupFlush q) = None \<Longrightarrow> syncedOffset (snd (groupFlush q)) = offset q"
proof -
  obtain ok1 w1 where f: "bufio_flush (qio q) = (ok1, w1)" by fastforce
  obtain ok2 w2 where s: "os_sync w1 = (ok2, w2)" by fastforce
  show "keeps q (snd (groupFlush q))" by (rule kept.R_group [OF I])
  show "fst (groupFlush q) = None \<Longrightarrow> syncedOffset (snd (groupFlush q)) = offset q"
    by (auto simp: groupFlush_def f s split: option.splits if_splits)
qed

section \<open>Acknowledged means durable\<close>

lemma maxOff_ge:
  assumes "w \<in> set ws"
  shows "w_off w \<le> maxOff ws"
proof -
  have "m \<le> foldl (\<lambda>m w. if w_off w > m then w_off w else m) m ws
    \<and> (\<forall>w \<in> set ws. w_off w \<le> foldl (\<lambda>m w. if w_off w > m then w_off w else m) m ws)" for m
  proof (induction ws arbitrary: m)
    case (Cons a ws)
    from Cons.IH [of "if w_off a > m then w_off a else m"] show ?case by (auto split: if_splits)
  qed simp
  then show ?thesis using assms by (auto simp: maxOff_def)
qed

definition commit_inv :: "nat \<Rightarrow> commits \<Rightarrow> bool" where
  "commit_inv o0 s \<longleftrightarrow> wal_inv (cm_queue s) \<and> wal_durable o0 (cm_queue s) \<and> \<not> lossySync (cm_queue s)
     \<and> (\<forall>w \<in> set (waiters (cm_queue s)). w_off w \<le> offset (cm_queue s))
     \<and> (\<forall>(w, r) \<in> set (cm_told s). r = None \<longrightarrow> w_off w \<le> syncedOffset (cm_queue s))
     \<and> mset (cm_asked s) = mset (waiters (cm_queue s)) + mset (map fst (cm_told s))
     \<and> map w_id (cm_asked s) = [0..<length (cm_asked s)]"

lemma commit_inv_keeps:
  assumes "commit_inv o0 s" "keeps (cm_queue s) q"
  shows "commit_inv o0 (s\<lparr>cm_queue := q\<rparr>)"
  using assms by (fastforce simp: commit_inv_def keeps_def)

text \<open>Answering all waiters, with nil only where the offset is covered.\<close>

lemma commit_inv_answer:
  assumes I: "commit_inv o0 s" and k: "keeps (cm_queue s) q"
    and as: "map fst as = waiters (cm_queue s)"
    and cov: "\<And>w. (w, None) \<in> set as \<Longrightarrow> w_off w \<le> syncedOffset q"
  shows "commit_inv o0 (s\<lparr>cm_queue := q\<lparr>waiters := []\<rparr>, cm_told := cm_told s @ as\<rparr>)"
proof -
  have "commit_inv o0 (s\<lparr>cm_queue := q\<rparr>)" by (rule commit_inv_keeps [OF I k])
  moreover have "waiters q = map fst as" using k as by (simp add: keeps_def)
  ultimately show ?thesis using cov
    by (auto simp: commit_inv_def wal_inv_def wal_durable_def covered_to_def)
qed

lemma commit_inv_ask:
  assumes I: "commit_inv o0 s" and o: "off \<le> offset (cm_queue s)"
  shows "commit_inv o0 (ask off now s)"
  using I o by (auto simp: commit_inv_def ask_def Let_def WaitCommit_def wal_inv_def wal_durable_def
      covered_to_def split: option.split)

lemma commit_inv_drain:
  assumes I: "commit_inv o0 s"
  shows "commit_inv o0 (drain s)"
proof -
  let ?as = "fst (failOrCoverWaiters (cm_queue s))"
  have "commit_inv o0 (s\<lparr>cm_queue := (cm_queue s)\<lparr>waiters := []\<rparr>, cm_told := cm_told s @ ?as\<rparr>)"
  proof (rule commit_inv_answer [OF I])
    show "keeps (cm_queue s) (cm_queue s)" using I by (simp add: commit_inv_def)
  qed (auto simp: failOrCoverWaiters_def comp_def split: if_splits)
  then show ?thesis by (simp add: drain_def failOrCoverWaiters_def)
qed

lemma commit_inv_group:
  assumes I: "commit_inv o0 s"
  shows "commit_inv o0 (commit_group s)"
proof -
  let ?q = "cm_queue s"
  have W: "wal_inv ?q" using I by (simp add: commit_inv_def)
  consider "waiters ?q = []" | (st) "waiters ?q \<noteq> []" "stopped ?q"
    | (cov) "waiters ?q \<noteq> []" "\<not> stopped ?q" "syncedOffset ?q \<ge> maxOff (waiters ?q) \<and> lastErr ?q = None"
    | (fl) "waiters ?q \<noteq> []" "\<not> stopped ?q" "\<not> (syncedOffset ?q \<ge> maxOff (waiters ?q) \<and> lastErr ?q = None)"
    by blast
  then show ?thesis
  proof cases
    case 1
    then show ?thesis using I by (simp add: commit_group_def syncGroup_def)
  next
    case st
    then have "commit_group s = drain s" by (simp add: commit_group_def drain_def syncGroup_def failOrCoverWaiters_def)
    then show ?thesis using commit_inv_drain [OF I] by simp
  next
    case cov
    have "commit_inv o0 (s\<lparr>cm_queue := ?q\<lparr>waiters := []\<rparr>,
        cm_told := cm_told s @ map (\<lambda>w. (w, None)) (waiters ?q)\<rparr>)"
      by (rule commit_inv_answer [OF I keeps_refl [OF W]])
        (use cov maxOff_ge order_trans in \<open>fastforce simp: comp_def\<close>)+
    then show ?thesis using cov by (simp add: commit_group_def syncGroup_def)
  next
    case fl
    obtain err q1 where g: "groupFlush ?q = (err, q1)" by fastforce
    have k: "keeps ?q q1" "err = None \<Longrightarrow> syncedOffset q1 = offset ?q"
      using groupFlush_keeps [OF W] g by auto
    define as where "as = map (\<lambda>w. (w, case err of Some e \<Rightarrow> Some e
        | None \<Rightarrow> if w_off w \<le> offset ?q then None else Some (ErrNotCovered (w_off w) (offset ?q)))) (waiters q1)"
    have "commit_inv o0 (s\<lparr>cm_queue := q1\<lparr>waiters := []\<rparr>, cm_told := cm_told s @ as\<rparr>)"
      by (rule commit_inv_answer [OF I k(1)])
        (use k in \<open>auto simp: as_def comp_def keeps_def split: option.splits if_splits\<close>)
    then show ?thesis using fl g by (auto simp: commit_group_def syncGroup_def as_def)
  qed
qed

lemma commit_inv_step:
  assumes "commit_step s s'" "commit_inv o0 s"
  shows "commit_inv o0 s'"
proof -
  have W: "wal_inv (cm_queue s)" using assms(2) by (simp add: commit_inv_def)
  from assms(1) show ?thesis
    by cases (use assms(2) W in \<open>auto intro: commit_inv_keeps keeps_append keeps_checkpoint keeps_tick
      keeps_close commit_inv_ask commit_inv_group commit_inv_drain\<close>)
qed

definition commits_of :: "diskQueue \<Rightarrow> commits" where
  "commits_of q = \<lparr>cm_queue = q, cm_asked = [], cm_told = []\<rparr>"

lemma wal_durable_start: "wal_inv q \<Longrightarrow> wal_durable (offset q) q"
proof -
  assume I: "wal_inv q"
  have "seg_base s + seg_size s \<le> offset q" if "s \<in> set (segments q)" for s
    using chained_seg_le [of "seg_base (hd (segments q))" "segments q" s] I that
    by (auto simp: wal_inv_def table_ok_def chained_end)
  moreover have "last (segments q) \<in> set (segments q)" using I by (simp add: wal_inv_def table_ok_def)
  ultimately show ?thesis
    using in_set_butlastD by (fastforce simp: wal_durable_def covered_to_def)
qed

lemma commit_inv_reachable:
  assumes "commit_step\<^sup>*\<^sup>* (commits_of q0) s" "wal_inv q0" "\<not> lossySync q0" "waiters q0 = []"
  shows "commit_inv (offset q0) s"
  using assms(1)
proof (induction rule: rtranclp_induct)
  case base
  show ?case using assms(2-4) wal_durable_start by (simp add: commit_inv_def commits_of_def)
qed (rule commit_inv_step)

text \<open>A crash keeps of every file at least the prefix that the last successful fsync covered.\<close>

definition crashed :: "disk \<Rightarrow> disk \<Rightarrow> bool" where
  "crashed d d' \<longleftrightarrow> (\<forall>n. file_exists d' n = file_exists d n \<and> file_synced d' n \<le> length (file_data d' n)
     \<and> (\<exists>k \<ge> file_synced d n. file_data d' n = take k (file_data d n)))"

lemma crashed_take:
  assumes "crashed d d'" "n \<le> file_synced d f"
  shows "take n (file_data d' f) = take n (file_data d f)"
proof -
  from assms(1) obtain k where "k \<ge> file_synced d f" "file_data d' f = take k (file_data d f)"
    unfolding crashed_def by blast
  with assms(2) show ?thesis by (simp add: min_def)
qed

text \<open>What coverage of an offset means for the bytes of each segment below it.\<close>

lemma covered_survives:
  assumes I: "wal_inv q" and D: "wal_durable o0 q" and c: "crashed (dir (qio q)) d"
    and off: "off \<le> syncedOffset q" "o0 < off"
    and g: "g \<in> set (segments q)" "o0 < seg_base g + seg_size g"
  shows "take (off - seg_base g) (file_data d (seg_name g)) = take (off - seg_base g) (seg_bytes (qio q) g)"
proof (cases "g = last (segments q)")
  case True
  have e: "seg_base g + seg_size g = offset q" "wname (qio q) = seg_name g" using I True by (simp_all add: wal_inv_def)
  have "syncedOffset q \<le> offset q" using I by (simp add: wal_inv_def)
  then have "syncedOffset q \<le> seg_base g + file_synced (dir (qio q)) (seg_name g)"
    using D True e(1) off by (simp add: wal_durable_def covered_to_def)
  then have n: "off - seg_base g \<le> file_synced (dir (qio q)) (seg_name g)" using off by linarith
  have "file_synced (dir (qio q)) (seg_name g) \<le> length (file_data (dir (qio q)) (seg_name g))"
    using I by (simp add: wal_inv_def synced_ok_def)
  then show ?thesis using crashed_take [OF c n] n e(2) by (simp add: seg_bytes_def wbytes_def)
next
  case False
  then have "g \<in> set (butlast (segments q))"
    using g(1) by (cases "segments q" rule: rev_cases) auto
  then have s: "seg_size g \<le> file_synced (dir (qio q)) (seg_name g)"
    using D g(2) by (simp add: wal_durable_def)
  have "wname (qio q) = seg_name (last (segments q))" "distinct (map seg_name (segments q))"
    using I wal_inv_names_distinct by (simp_all add: wal_inv_def)
  then have ne: "seg_name g \<noteq> wname (qio q)"
    using False g(1) by (metis distinct_map inj_onD last_in_set list.set_cases neq_Nil_conv)
  have l: "seg_size g = length (file_data (dir (qio q)) (seg_name g))"
    using I g(1) ne by (auto simp: wal_inv_def seg_ok_def seg_bytes_def)
  from c obtain k where "k \<ge> file_synced (dir (qio q)) (seg_name g)"
    "file_data d (seg_name g) = take k (file_data (dir (qio q)) (seg_name g))"
    unfolding crashed_def by blast
  then show ?thesis using s l ne by (simp add: seg_bytes_def)
qed

text \<open>C11: In durable mode, whatever appends, checkpoints, periodic and shared fsyncs, waits and the
  close interleave, and whichever system calls fail: once a caller is told that its offset is
  committed, every byte of the log below that offset that this process wrote is still on disk after
  a crash.\<close>

theorem acknowledged_survives:
  assumes "commit_step\<^sup>*\<^sup>* (commits_of q0) s" "wal_inv q0" "\<not> lossySync q0" "waiters q0 = []"
    and "(w, None) \<in> set (cm_told s)" "offset q0 < w_off w" "crashed (dir (qio (cm_queue s))) d"
    and "g \<in> set (segments (cm_queue s))" "offset q0 < seg_base g + seg_size g"
  shows "take (w_off w - seg_base g) (file_data d (seg_name g))
    = take (w_off w - seg_base g) (seg_bytes (qio (cm_queue s)) g)"
proof -
  have "commit_inv (offset q0) s" by (rule commit_inv_reachable [OF assms(1-4)])
  then have "wal_inv (cm_queue s)" "wal_durable (offset q0) (cm_queue s)" "w_off w \<le> syncedOffset (cm_queue s)"
    using assms(5) by (fastforce simp: commit_inv_def)+
  then show ?thesis by (rule covered_survives [OF _ _ assms(7) _ assms(6,8,9)])
qed

text \<open>C12: No waiter is stranded or answered twice: at every moment each call of WaitCommit is either
  still registered or has exactly one answer; the window of the first waiter closes after the
  configured delay, the committer's pass then answers everybody registered, and so does the drain
  after a close, from when on no call blocks any more.\<close>

theorem waiters_answered:
  assumes "commit_step\<^sup>*\<^sup>* (commits_of q0) s" "wal_inv q0" "\<not> lossySync q0" "waiters q0 = []"
  shows "mset (cm_asked s) = mset (waiters (cm_queue s)) + mset (map fst (cm_told s)) \<and> distinct (cm_asked s)
    \<and> waiters (cm_queue (commit_group s)) = [] \<and> waiters (cm_queue (drain s)) = []
    \<and> (now - w_enqueued (hd (waiters (cm_queue s))) \<ge> groupDelay (cm_queue s) \<longrightarrow> \<not> holdWindow now (cm_queue s))
    \<and> (stopped (cm_queue s) \<longrightarrow> fst (WaitCommit off i now (cm_queue s)) \<noteq> Blocked)"
proof -
  have "commit_inv (offset q0) s" by (rule commit_inv_reachable [OF assms])
  moreover have "distinct (cm_asked s)" if "map w_id (cm_asked s) = [0..<length (cm_asked s)]"
    using that distinct_upt by (metis distinct_map)
  ultimately show ?thesis
    by (auto simp: commit_inv_def commit_group_def syncGroup_def failOrCoverWaiters_def drain_def
        holdWindow_def WaitCommit_def split: option.splits prod.splits)
qed

section \<open>A run\<close>

text \<open>One append on a fresh log, a wait for it, and the shared fsync after the window.\<close>

definition sample_queue :: diskQueue where
  "sample_queue = \<lparr>qio = \<lparr>env = [], dir = [(legacySegmentName, \<lparr>f_data = [], f_synced = 0\<rparr>)],
       wname = legacySegmentName, wopen = True, wbuf = ''{}'' @ [nl], werr = False\<rparr>,
     maxBytes = 100, maxTotalBytes = 1000,
     segments = [\<lparr>seg_idx = 0, seg_base = 0, seg_size = 3, seg_name = legacySegmentName\<rparr>],
     activeIdx = 0, offset = 3, cpSeg = 0, cpOff = 0, stopped = False, dirtySinceFlush = True,
     droppedUnackedSegments = 0, droppedUnackedBytes = 0, lossySync = False,
     groupDelay = DefaultGroupCommitDelay, waiters = [], syncedOffset = 0, refusedHighWater = 0,
     unsyncedEvents = 1, lastErr = None\<rparr>"

lemma sample_append: "snd (appendFrame ''{}'' 1 (fresh_wal 100 1000)) = sample_queue"
  using fresh_append [of "''{}''" 1 100 1000]
  by (simp add: walWriterSize_def sample_queue_def) (simp add: fresh_wal_def)

definition sample_waiter :: commitWaiter where
  "sample_waiter = \<lparr>w_id = 0, w_off = 3, w_enqueued = 0\<rparr>"

lemma sample_ask: "ask 3 0 (commits_of sample_queue)
  = \<lparr>cm_queue = sample_queue\<lparr>waiters := [sample_waiter]\<rparr>, cm_asked = [sample_waiter], cm_told = []\<rparr>"
  by (simp add: ask_def WaitCommit_def commits_of_def sample_queue_def sample_waiter_def Let_def)

definition sample_run :: commits where
  "sample_run = commit_group (ask 3 0 (commits_of sample_queue))"

lemma sample_run_reachable: "commit_step\<^sup>*\<^sup>* (commits_of (fresh_wal 100 1000)) sample_run"
proof -
  have "commit_step (commits_of (fresh_wal 100 1000)) (commits_of sample_queue)"
    using commit_step.append [of "commits_of (fresh_wal 100 1000)" "''{}''" 1]
    by (simp only: sample_append commits_of_def commits.simps)
  moreover have "commit_step (commits_of sample_queue) (ask 3 0 (commits_of sample_queue))"
    by (rule commit_step.ask) (simp add: commits_of_def sample_queue_def)
  moreover have "commit_step (ask 3 0 (commits_of sample_queue)) sample_run"
    unfolding sample_run_def sample_ask
    by (rule commit_step.group [of 1000000000])
      (simp add: holdWindow_def sample_queue_def sample_waiter_def DefaultGroupCommitDelay_def)
  ultimately show ?thesis by (meson converse_rtranclp_into_rtranclp rtranclp.rtrancl_refl)
qed

lemma sample_flush: "groupFlush (sample_queue\<lparr>waiters := [sample_waiter]\<rparr>)
  = (None, sample_queue\<lparr>qio := \<lparr>env = [], dir = [(legacySegmentName, \<lparr>f_data = ''{}'' @ [nl], f_synced = 3\<rparr>)],
       wname = legacySegmentName, wopen = True, wbuf = [], werr = False\<rparr>, waiters := [sample_waiter],
       syncedOffset := 3, dirtySinceFlush := False, unsyncedEvents := 0\<rparr>)"
  by (simp add: groupFlush_def sample_queue_def bufio_flush_def os_write_def next_io_def append_file_def
      put_file_def file_data_def file_synced_def os_sync_def os_call_def)

lemma sample_run_eval: "sample_run = \<lparr>cm_queue = sample_queue\<lparr>qio :=
       \<lparr>env = [], dir = [(legacySegmentName, \<lparr>f_data = ''{}'' @ [nl], f_synced = 3\<rparr>)],
       wname = legacySegmentName, wopen = True, wbuf = [], werr = False\<rparr>, waiters := [],
       syncedOffset := 3, dirtySinceFlush := False, unsyncedEvents := 0\<rparr>,
     cm_asked = [sample_waiter], cm_told = [(sample_waiter, None)]\<rparr>"
proof -
  have "waiters (sample_queue\<lparr>waiters := [sample_waiter]\<rparr>) \<noteq> []"
    "\<not> stopped (sample_queue\<lparr>waiters := [sample_waiter]\<rparr>)"
    "\<not> maxOff [sample_waiter] \<le> syncedOffset (sample_queue\<lparr>waiters := [sample_waiter]\<rparr>)"
    "w_off sample_waiter = 3" "offset sample_queue = 3"
    by (simp_all add: sample_queue_def sample_waiter_def maxOff_def)
  then show ?thesis
    unfolding sample_run_def sample_ask commit_group_def syncGroup_def by (simp add: sample_flush)
qed

lemma sample_run_facts:
  "cm_told sample_run = [(sample_waiter, None)]" "w_off sample_waiter = 3"
  "segments (cm_queue sample_run) = [\<lparr>seg_idx = 0, seg_base = 0, seg_size = 3, seg_name = legacySegmentName\<rparr>]"
  "seg_bytes (qio (cm_queue sample_run)) \<lparr>seg_idx = 0, seg_base = 0, seg_size = 3, seg_name = legacySegmentName\<rparr>
     = ''{}'' @ [nl]"
  "waiters (cm_queue sample_run) = []" "cm_asked sample_run = [sample_waiter]"
  by (simp_all add: sample_run_eval sample_waiter_def sample_queue_def seg_bytes_def wbytes_def file_data_def)

theorem acknowledged_survives_witness:
  "crashed (dir (qio (cm_queue sample_run))) (dir (qio (cm_queue sample_run)))
    \<and> take 3 (file_data (dir (qio (cm_queue sample_run))) legacySegmentName) = ''{}'' @ [nl]"
proof -
  let ?d = "dir (qio (cm_queue sample_run))"
  have W: "commit_inv 0 sample_run"
    using commit_inv_reachable [OF sample_run_reachable fresh_wal_inv] by simp
  have c: "crashed ?d ?d"
    unfolding crashed_def using W by (auto simp: commit_inv_def wal_inv_def synced_ok_def)
  have "take 3 (file_data ?d legacySegmentName) = take 3 (''{}'' @ [nl])"
    using acknowledged_survives [OF sample_run_reachable fresh_wal_inv _ _ _ _ c,
        of sample_waiter "\<lparr>seg_idx = 0, seg_base = 0, seg_size = 3, seg_name = legacySegmentName\<rparr>"]
    by (simp add: sample_run_facts)
  with c show ?thesis by simp
qed

theorem waiters_answered_witness:
  "mset (cm_asked sample_run) = mset (map fst (cm_told sample_run)) \<and> cm_asked sample_run \<noteq> []"
  using waiters_answered [OF sample_run_reachable fresh_wal_inv] by (simp add: sample_run_facts)

end
