(* ===== verification/IngestBuffer.thy ===== *)
theory IngestBuffer
  imports WalCommit
begin

text \<open>
  The ingest buffer of \<^verbatim>\<open>src/internal/ingest/buffer.go\<close>: admission of whole batches into memory and the
  write-ahead log, the flush that inserts a detached batch chunk by chunk into the database, the
  requeue of what failed, and the recovery at attach time.  Each critical section under the buffer's
  mutex is one function.  The database is the rows of its table; what a transaction does (including
  a commit whose answer is lost) and whether the duplicate lookup works is an argument.
\<close>

section \<open>The database\<close>

definition event_key :: "Event \<Rightarrow> string \<times> string" where
  "event_key e = (ev_site_id e, ev_event_id e)"

text \<open>Both tables get the same rows of a chunk, in one transaction.\<close>

record event_db =
  db_events :: "Event list"
  db_recent :: "Event list"

datatype tx_outcome = TxOk | TxNoBegin | TxRolledBack | TxAnswerLost

record store =
  st_db :: event_db
  st_txs :: "(tx_outcome \<times> bool) list"   \<comment> \<open>per transaction; whether the lookup in it works\<close>

definition next_tx :: "store \<Rightarrow> (tx_outcome \<times> bool) \<times> store" where
  "next_tx s = ((case st_txs s of [] \<Rightarrow> (TxOk, True) | t # _ \<Rightarrow> t), s\<lparr>st_txs := tl (st_txs s)\<rparr>)"

definition flushDedupeHorizon :: int where "flushDedupeHorizon = 86400000"

text \<open>The query of \<^verbatim>\<open>existingEventKeys\<close>: rows not older than the floor with one of the event ids.\<close>

definition existingEventKeys :: "Event list \<Rightarrow> Event list \<Rightarrow> int \<Rightarrow> (string \<times> string) list" where
  "existingEventKeys db es minTS = map event_key
     (filter (\<lambda>r. ev_timestamp r \<ge> minTS \<and> ev_event_id r \<in> set (map ev_event_id es)) db)"

fun dedupePending :: "(string \<times> string) list \<Rightarrow> Event list \<Rightarrow> Event list" where
  "dedupePending existing [] = []"
| "dedupePending existing (e # es) =
     (if event_key e \<in> set existing then dedupePending existing es
      else e # dedupePending (event_key e # existing) es)"

definition min_timestamp :: "Event list \<Rightarrow> int" where
  "min_timestamp es = foldl (\<lambda>m e. if ev_timestamp e < m then ev_timestamp e else m) (ev_timestamp (hd es)) es"

definition filterUncommitted :: "bool \<Rightarrow> Event list \<Rightarrow> Event list \<Rightarrow> Event list" where
  "filterUncommitted works db es =
     (if es = [] then []
      else dedupePending (if works then existingEventKeys db es (min_timestamp es - flushDedupeHorizon) else []) es)"

definition add_rows :: "Event list \<Rightarrow> event_db \<Rightarrow> event_db" where
  "add_rows es d = d\<lparr>db_events := db_events d @ es, db_recent := db_recent d @ es\<rparr>"

text \<open>One transaction of \<^verbatim>\<open>insertBatch\<close>.\<close>

definition insert_chunk :: "Event list \<Rightarrow> store \<Rightarrow> bool \<times> store" where
  "insert_chunk es s = (case next_tx s of ((r, works), s1) \<Rightarrow>
     let rows = filterUncommitted works (db_events (st_db s)) es in
     case r of
       TxOk \<Rightarrow> (True, s1\<lparr>st_db := add_rows rows (st_db s)\<rparr>)
     | TxNoBegin \<Rightarrow> (False, s1)
     | TxRolledBack \<Rightarrow> (False, s1)
     | TxAnswerLost \<Rightarrow> (False, s1\<lparr>st_db := add_rows rows (st_db s)\<rparr>))"

definition insertChunkSize :: nat where "insertChunkSize = 50"

function insert_loop :: "Event list \<Rightarrow> nat \<Rightarrow> store \<Rightarrow> (nat \<times> bool) \<times> store" where
  "insert_loop es committed s =
     (if es = [] then ((committed, True), s)
      else case insert_chunk (take insertChunkSize es) s of (ok, s1) \<Rightarrow>
        if ok then insert_loop (drop insertChunkSize es) (committed + length (take insertChunkSize es)) s1
        else ((committed, False), s1))"
  by pat_completeness auto
termination
  by (relation "measure (\<lambda>(es, _, _). length es)") (auto simp: insertChunkSize_def)

declare insert_loop.simps [simp del]

text \<open>How many events are committed, and whether all were.\<close>

definition insertBatch :: "Event list \<Rightarrow> store \<Rightarrow> (nat \<times> bool) \<times> store" where
  "insertBatch es s = insert_loop es 0 s"

section \<open>The buffer\<close>

record Buffer =
  bf_events :: "Event list"
  bf_sizes :: "int list"        \<comment> \<open>\<open>eventBytes\<close>\<close>
  bf_buffered :: int
  bf_inFlight :: int
  bf_maxSize :: int
  bf_maxBuffered :: int
  bf_flushSize :: int
  bf_started :: bool
  bf_stopped :: bool
  bf_workerErr :: bool
  bf_lastOffset :: nat
  bf_accepted :: nat
  bf_durablyAcked :: nat
  bf_replayed :: nat

definition defaultMaxBufferedBytes :: int where "defaultMaxBufferedBytes = 256 * 2 ^ 20"

definition NewBuffer :: "int \<Rightarrow> int \<Rightarrow> Buffer" where
  "NewBuffer maxSize flushSize = \<lparr>bf_events = [], bf_sizes = [], bf_buffered = 0, bf_inFlight = 0,
     bf_maxSize = maxSize, bf_maxBuffered = defaultMaxBufferedBytes, bf_flushSize = flushSize,
     bf_started = False, bf_stopped = False, bf_workerErr = False, bf_lastOffset = 0, bf_accepted = 0, bf_durablyAcked = 0,
     bf_replayed = 0\<rparr>"

definition WithMaxBufferedBytes :: "int \<Rightarrow> Buffer \<Rightarrow> Buffer" where
  "WithMaxBufferedBytes n b = (if n > 0 then b\<lparr>bf_maxBuffered := n\<rparr> else b)"

definition approxEventBytes :: "Event \<Rightarrow> int" where
  "approxEventBytes e = int (length (print_json (JObj (event_members e))))"

definition Avail :: "Buffer \<Rightarrow> int" where
  "Avail b = bf_maxSize b - int (length (bf_events b))"

text \<open>\<^verbatim>\<open>Start\<close> starts the flush goroutine once and never after a stop; the flag says whether it did.\<close>

definition Start :: "Buffer \<Rightarrow> bool \<times> Buffer" where
  "Start b = (if bf_started b \<or> bf_stopped b then (False, b) else (True, b\<lparr>bf_started := True\<rparr>))"

text \<open>Admission of an identified event; the lookup answers whether the identity is erased, or fails.\<close>

datatype erasure = ErasureClear | ErasureUnavailable | ErasureGone

definition checkErasure :: "(string \<Rightarrow> string \<Rightarrow> bool option) option \<Rightarrow> Event \<Rightarrow> erasure" where
  "checkErasure lookup e =
     (if ev_distinct_id e = [] then ErasureClear
      else case lookup of
        None \<Rightarrow> ErasureClear
      | Some f \<Rightarrow> (case f (ev_site_id e) (ev_distinct_id e) of
          None \<Rightarrow> ErasureUnavailable
        | Some erased \<Rightarrow> if erased then ErasureGone else ErasureClear))"

record BufferStats =
  bs_accepted :: nat
  bs_durablyAcked :: nat
  bs_replayedOnRestart :: nat

definition BufferStats_of :: "Buffer \<Rightarrow> BufferStats" where
  "BufferStats_of b = \<lparr>bs_accepted = bf_accepted b, bs_durablyAcked = bf_durablyAcked b,
     bs_replayedOnRestart = bf_replayed b\<rparr>"

datatype push = PushOk | PushFull | PushUnavailable wal_error | PushWait nat

text \<open>
  \<^verbatim>\<open>PushBatch\<close> up to the release of the mutex, with the attached queue, if any: the refusal, the
  acceptance, or the offset to wait for.
\<close>

definition push_begin :: "Event list \<Rightarrow> Buffer \<Rightarrow> diskQueue option \<Rightarrow> push \<times> Buffer \<times> diskQueue option" where
  "push_begin es b oq =
    (if es = [] then (PushOk, b, oq)
     else if bf_stopped b \<or> bf_workerErr b then (PushFull, b, oq)
     else if int (length es) > bf_maxSize b - int (length (bf_events b)) then (PushFull, b, oq)
     else let cost = sum_list (map approxEventBytes es) in
     if bf_buffered b + bf_inFlight b + cost > bf_maxBuffered b then (PushFull, b, oq)
     else let admit = (\<lambda>off. b\<lparr>bf_events := bf_events b @ es, bf_sizes := bf_sizes b @ map approxEventBytes es,
                bf_buffered := bf_buffered b + cost, bf_lastOffset := off\<rparr>) in
     case oq of
       None \<Rightarrow> (PushOk, admit (bf_lastOffset b), oq)
     | Some q \<Rightarrow>
         (case AppendBatch es q of
            ((off, Some e), q1) \<Rightarrow> (PushUnavailable e, b, Some q1)
          | ((off, None), q1) \<Rightarrow> (if lossySync q1 then PushOk else PushWait off, admit off, Some q1)))"

definition Push :: "Event \<Rightarrow> Buffer \<Rightarrow> diskQueue option \<Rightarrow> push \<times> Buffer \<times> diskQueue option" where
  "Push e b oq = push_begin [e] b oq"

text \<open>The counters at the end of \<^verbatim>\<open>PushBatch\<close>; a failed wait counts nothing.\<close>

definition push_end :: "Event list \<Rightarrow> bool \<Rightarrow> Buffer \<Rightarrow> Buffer" where
  "push_end es durable b = b\<lparr>bf_accepted := bf_accepted b + length es,
     bf_durablyAcked := (if durable then bf_durablyAcked b + length es else bf_durablyAcked b)\<rparr>"

section \<open>Flushing\<close>

text \<open>A detached batch: its events, their sizes, their cost, and the checkpoint target.\<close>

record flight =
  fl_batch :: "Event list"
  fl_sizes :: "int list"
  fl_cost :: int
  fl_target :: nat

definition flush_begin :: "Buffer \<Rightarrow> (flight \<times> Buffer) option" where
  "flush_begin b =
     (if bf_events b = [] then None
      else Some (\<lparr>fl_batch = bf_events b, fl_sizes = bf_sizes b, fl_cost = bf_buffered b, fl_target = bf_lastOffset b\<rparr>,
        b\<lparr>bf_buffered := 0, bf_inFlight := bf_inFlight b + bf_buffered b, bf_sizes := [], bf_events := []\<rparr>))"

definition release_credit :: "int \<Rightarrow> Buffer \<Rightarrow> Buffer" where
  "release_credit cost b = b\<lparr>bf_inFlight := (if bf_inFlight b - cost < 0 then 0 else bf_inFlight b - cost)\<rparr>"

definition requeueFailed :: "Event list \<Rightarrow> int \<Rightarrow> int \<Rightarrow> Buffer \<Rightarrow> Buffer" where
  "requeueFailed unsent unsentBytes batchCost b =
     (release_credit batchCost (b\<lparr>bf_events := unsent @ bf_events b, bf_sizes := map approxEventBytes unsent @ bf_sizes b\<rparr>))
       \<lparr>bf_buffered := bf_buffered b + unsentBytes\<rparr>"

text \<open>After \<^verbatim>\<open>insertBatch\<close> has returned: requeue the tail, or release and checkpoint.\<close>

definition flush_end :: "flight \<Rightarrow> nat \<times> bool \<Rightarrow> Buffer \<Rightarrow> diskQueue option \<Rightarrow> Buffer \<times> diskQueue option" where
  "flush_end f r b oq = (case r of
     (committed, False) \<Rightarrow>
       (requeueFailed (drop committed (fl_batch f)) (sum_list (drop committed (fl_sizes f))) (fl_cost f) b, oq)
   | (_, True) \<Rightarrow> (release_credit (fl_cost f) b, map_option (\<lambda>q. snd (Checkpoint (fl_target f) q)) oq))"

text \<open>A whole \<^verbatim>\<open>Flush\<close>, and what \<^verbatim>\<open>Stop\<close> does once the worker has exited: a last flush unless the worker
  died, then the log is closed.\<close>

definition Flush :: "Buffer \<Rightarrow> diskQueue option \<Rightarrow> store \<Rightarrow> Buffer \<times> diskQueue option \<times> store" where
  "Flush b oq s = (case flush_begin b of
     None \<Rightarrow> (b, oq, s)
   | Some (f, b1) \<Rightarrow> (case insertBatch (fl_batch f) s of (r, s1) \<Rightarrow>
       case flush_end f r b1 oq of (b2, oq1) \<Rightarrow> (b2, oq1, s1)))"

definition Stop :: "Buffer \<Rightarrow> diskQueue option \<Rightarrow> store \<Rightarrow> Buffer \<times> diskQueue option \<times> store" where
  "Stop b oq s =
     (if bf_stopped b then (b, oq, s)
      else let b0 = b\<lparr>bf_stopped := True\<rparr> in
      case (if bf_workerErr b then (b0, oq, s) else Flush b0 oq s) of
        (b1, oq1, s1) \<Rightarrow> (b1, map_option (\<lambda>q. snd (Close q)) oq1, s1))"

section \<open>Attaching a log\<close>

datatype attach_error = AttachReplay stream_error | AttachCommit | AttachTwice | AttachCheckpoint wal_error

text \<open>What the replay consumer carries: the chunk, the store, and the counts.\<close>

record recovery =
  rc_chunk :: "Event list"
  rc_store :: store
  rc_recovered :: nat

definition recoverChunk :: nat where "recoverChunk = 500"

definition flush_recovered :: "recovery \<Rightarrow> bool \<times> recovery" where
  "flush_recovered r =
     (if rc_chunk r = [] then (True, r)
      else case insertBatch (rc_chunk r) (rc_store r) of
        ((n, ok), s) \<Rightarrow> if ok then (True, r\<lparr>rc_chunk := [], rc_store := s, rc_recovered := rc_recovered r + n\<rparr>)
                        else (False, r\<lparr>rc_store := s\<rparr>))"

definition recover_frame :: "Event list \<Rightarrow> recovery \<Rightarrow> bool \<times> recovery" where
  "recover_frame es r =
     (let r1 = r\<lparr>rc_chunk := rc_chunk r @ es\<rparr> in
      if length (rc_chunk r1) \<ge> recoverChunk then flush_recovered r1 else (True, r1))"

text \<open>\<^verbatim>\<open>AttachQueue\<close>; the flag says whether the buffer has a queue already, and without an error it owns this one.\<close>

definition AttachQueue :: "bool \<Rightarrow> diskQueue \<Rightarrow> store \<Rightarrow> Buffer \<Rightarrow> attach_error option \<times> Buffer \<times> diskQueue \<times> store" where
  "AttachQueue attached q s b =
     (case StreamPending recover_frame \<lparr>rc_chunk = [], rc_store = s, rc_recovered = 0\<rparr> q of
        ((Some e, r), q1) \<Rightarrow> (Some (AttachReplay e), b, q1, rc_store r)
      | ((None, r), q1) \<Rightarrow>
          (case flush_recovered r of
             (False, r1) \<Rightarrow> (Some AttachCommit, b, q1, rc_store r1)
           | (True, r1) \<Rightarrow>
               (let b1 = b\<lparr>bf_replayed := bf_replayed b + rc_recovered r1\<rparr> in
                if attached then (Some AttachTwice, b1, q1, rc_store r1) else
                case Checkpoint (offset q1) q1 of
                  (Some e, q2) \<Rightarrow> (Some (AttachCheckpoint e), b1, q2, rc_store r1)
                | (None, q2) \<Rightarrow> (None, b1\<lparr>bf_lastOffset := offset q2\<rparr>, q2, rc_store r1))))"

end
