(* ===== verification/WalBatches.thy ===== *)
theory WalBatches
  imports IngestBuffer WalProps
begin

text \<open>
  The write-ahead log as the ingest buffer of \<^verbatim>\<open>src/internal/ingest/buffer.go\<close> uses it: a list of
  batches of events, each with the offset after its frame.  The interface is a locale; the log's own
  operations are an instance of it.
\<close>

section \<open>Errors stay latched\<close>

definition latched :: "diskQueue \<Rightarrow> diskQueue \<Rightarrow> bool" where
  "latched q q1 \<longleftrightarrow> (lastErr q \<noteq> None \<longrightarrow> lastErr q1 \<noteq> None)"

lemma latched_trans: "latched q q1 \<Longrightarrow> latched q1 q2 \<Longrightarrow> latched q q2"
  by (simp add: latched_def)

lemma latched_same [simp]: "lastErr q1 = lastErr q \<Longrightarrow> latched q q1"
  by (simp add: latched_def)

lemma latched_latch [simp]: "latch e p = (r, q1) \<Longrightarrow> latched q q1"
  "latched q (snd (latch e p))"
  by (auto simp: latch_eq latched_def)

lemma latched_setErr [simp]: "latched q (snd (setErrLocked e p))"
  by (simp add: latched_def setErrLocked_def split: option.split)

lemma enforceCap_lastErr [simp]: "lastErr (enforceCapLocked q) = lastErr q"
  using enforceCap_spec [of "totalBytes (segments q)" q] by (auto simp: enforceCapLocked_def)

lemma latched_roll: "rollLocked q = (r, q1) \<Longrightarrow> latched q q1"
  by (auto simp: rollLocked_def Let_def latch_eq latched_def split: prod.splits if_splits)

lemma latched_writeCheckpoint: "writeCheckpoint i p q = (ok, q1) \<Longrightarrow> lastErr q1 = lastErr q"
  by (auto simp: writeCheckpoint_def Let_def split: prod.splits if_splits)

lemma latched_reclaim: "latched q (snd (checkpoint_reclaim q))"
  by (auto simp: checkpoint_reclaim_def Let_def frame_simps latch_eq latched_def
      dest!: latched_roll latched_writeCheckpoint split: prod.splits if_splits option.splits)

lemma latched_checkpoint: "latched q (snd (Checkpoint t q))"
proof -
  have R: "latched q (snd (checkpoint_reclaim p))" if "lastErr p = lastErr q" for p
    using latched_trans [of q p] latched_reclaim [of p] that by simp
  show ?thesis
    by (auto simp: Checkpoint_def Let_def frame_simps dest!: latched_writeCheckpoint
        intro!: R split: prod.splits)
qed

lemma latched_commit:
  "latched q (fsyncTick q)" "latched q (snd (groupFlush q))" "latched q (snd (Close q))"
  by (auto simp: fsyncTick_def groupFlush_def Close_def Let_def split: prod.splits option.splits if_splits)

section \<open>Steps that leave the log's content alone\<close>

definition calm :: "diskQueue \<Rightarrow> diskQueue \<Rightarrow> bool" where
  "calm q q1 \<longleftrightarrow> wal_inv q1 \<and> pend q1 = pend q \<and> pend_start q1 = pend_start q \<and> offset q1 = offset q
     \<and> (framed q \<longrightarrow> framed q1) \<and> lossySync q1 = lossySync q"

lemma calm_refl [simp]: "wal_inv q \<Longrightarrow> calm q q"
  by (simp add: calm_def)

lemma calm_trans: "calm q q1 \<Longrightarrow> calm q1 q2 \<Longrightarrow> calm q q2"
  by (auto simp: calm_def)

lemma pend_start_cong:
  "segments q1 = segments q \<Longrightarrow> cpSeg q1 = cpSeg q \<Longrightarrow> cpOff q1 = cpOff q \<Longrightarrow> pend_start q1 = pend_start q"
  by (simp add: pend_start_def cpLogical_def log_base_def split: option.split)

lemma quiet_calm: "quiet q q1 \<Longrightarrow> calm q q1"
  using pend_start_cong [of q1 q] by (simp add: quiet_def calm_def same_config_def)

lemma pend_start_ghost [simp]:
  "pend_start (q\<lparr>lastErr := e\<rparr>) = pend_start q" "pend_start (q\<lparr>dirtySinceFlush := b\<rparr>) = pend_start q"
  "pend_start (q\<lparr>unsyncedEvents := n\<rparr>) = pend_start q" "pend_start (q\<lparr>stopped := b\<rparr>) = pend_start q"
  "pend_start (q\<lparr>waiters := ws\<rparr>) = pend_start q" "pend_start (q\<lparr>refusedHighWater := n\<rparr>) = pend_start q"
  by (rule pend_start_cong; simp)+

lemma calm_ghost [simp]:
  "calm q (q1\<lparr>lastErr := e\<rparr>) = calm q q1" "calm q (q1\<lparr>dirtySinceFlush := b\<rparr>) = calm q q1"
  "calm q (q1\<lparr>unsyncedEvents := n\<rparr>) = calm q q1" "calm q (q1\<lparr>stopped := b\<rparr>) = calm q q1"
  "calm q (q1\<lparr>waiters := ws\<rparr>) = calm q q1" "calm q (q1\<lparr>refusedHighWater := n\<rparr>) = calm q q1"
  by (simp_all add: calm_def)

lemma calm_setErr [simp]: "calm q (snd (setErrLocked e q1)) = calm q q1"
  by (simp add: setErrLocked_def split: option.split)

interpretation calmly: log_relation calm
  by unfold_locales (simp_all add: quiet_calm)

text \<open>Every step of the group commit that is neither an append nor a checkpoint.\<close>

lemma calm_syncGroup: "wal_inv q \<Longrightarrow> calm q (snd (snd (syncGroup q)))"
  using calmly.R_group [of q] by (auto simp: syncGroup_def failOrCoverWaiters_def split: prod.splits)

lemma calm_waiters:
  "wal_inv q \<Longrightarrow> calm q (snd (WaitCommit off i now q))" "wal_inv q \<Longrightarrow> calm q (snd (failOrCoverWaiters q))"
  by (auto simp: WaitCommit_def failOrCoverWaiters_def split: option.split)

lemma latched_waiters [simp]:
  "latched q (snd (WaitCommit off i now q))" "latched q (snd (failOrCoverWaiters q))"
  by (auto simp: WaitCommit_def failOrCoverWaiters_def split: option.split)

lemma latched_syncGroup: "latched q (snd (snd (syncGroup q)))"
  using latched_commit(2) [of q] by (auto simp: syncGroup_def failOrCoverWaiters_def latched_def split: prod.splits)

section \<open>The interface of the log\<close>

type_synonym batches = "(Event list \<times> nat) list"

definition keys :: "Event list \<Rightarrow> (string \<times> string) set" where
  "keys es = event_key ` set es"

lemma keys_simps [simp]: "keys [] = {}" "keys (e # es) = insert (event_key e) (keys es)"
  by (simp_all add: keys_def)

lemma keys_append [simp]: "keys (xs @ ys) = keys xs \<union> keys ys"
  by (simp add: keys_def image_Un)

definition detached :: "(Event list \<times> nat) option \<Rightarrow> Event list" where
  "detached dt = (case dt of None \<Rightarrow> [] | Some (d, t) \<Rightarrow> d)"

lemma detached_simps [simp]: "detached None = []" "detached (Some (d, t)) = d"
  by (simp_all add: detached_def)

text \<open>
  What the log owes the buffer.  \<open>holds q bs\<close>: a replay of \<open>q\<close> would deliver exactly the batches \<open>bs\<close>,
  each ending at its offset, all between \<open>start q\<close> and \<open>fin q\<close>.
\<close>

locale batch_log =
  fixes holds :: "'q \<Rightarrow> batches \<Rightarrow> bool"
    and start :: "'q \<Rightarrow> nat"
    and fin :: "'q \<Rightarrow> nat"
    and loggable :: "Event list \<Rightarrow> bool"
    and append :: "Event list \<Rightarrow> 'q \<Rightarrow> (nat \<times> wal_error option) \<times> 'q"
    and checkpoint :: "nat \<Rightarrow> 'q \<Rightarrow> wal_error option \<times> 'q"
    and undisturbed :: "'q \<Rightarrow> 'q \<Rightarrow> bool"
  assumes holds_range: "holds q bs \<Longrightarrow> start q \<le> fin q \<and> (\<forall>x \<in> set bs. start q < snd x \<and> snd x \<le> fin q)"
    and append_ok: "holds q bs \<Longrightarrow> loggable es \<Longrightarrow> append es q = ((off, None), q')
      \<Longrightarrow> holds q' (bs @ [(es, off)]) \<and> start q' = start q \<and> fin q < off"
    and append_err: "holds q bs \<Longrightarrow> append es q = ((off, Some e), q') \<Longrightarrow> holds q' bs \<and> start q' = start q"
    and checkpoint_at: "holds q bs \<Longrightarrow> t \<le> start q \<or> t \<in> snd ` set bs \<Longrightarrow> checkpoint t q = (r, q')
      \<Longrightarrow> (holds q' bs \<and> start q' = start q)
        \<or> (holds q' (filter (\<lambda>x. t < snd x) bs) \<and> start q \<le> start q' \<and> t \<le> start q')"
    and undisturbed_holds: "holds q bs \<Longrightarrow> undisturbed q q' \<Longrightarrow> holds q' bs \<and> start q' = start q"
begin

definition mark :: "'q \<Rightarrow> batches \<Rightarrow> nat \<Rightarrow> bool" where
  "mark q bs t \<longleftrightarrow> t \<le> start q \<or> t \<in> snd ` set bs"

text \<open>
  Where the events of the accepted batches \<open>acc\<close> are, when \<open>D\<close> is what the database has, \<open>dt\<close> the batch
  being inserted with its checkpoint target, \<open>buf\<close> what is queued and \<open>lst\<close> the last offset: a batch is
  either all in the database or still in the log, and the rest of its events are on their way.
\<close>

definition flow :: "'q \<Rightarrow> batches \<Rightarrow> (string \<times> string) set \<Rightarrow> (Event list \<times> nat) option \<Rightarrow> Event list \<Rightarrow> nat
    \<Rightarrow> batches \<Rightarrow> bool" where
  "flow q bs D dt buf lst acc \<longleftrightarrow> holds q bs \<and> mark q bs lst
     \<and> (\<forall>x \<in> set acc. snd x \<le> lst \<and> (keys (fst x) \<subseteq> D \<or> x \<in> set bs)
          \<and> keys (fst x) \<subseteq> D \<union> keys (detached dt) \<union> keys buf)
     \<and> (case dt of None \<Rightarrow> True | Some (d, t) \<Rightarrow> mark q bs t \<and> t \<le> lst
          \<and> (\<forall>x \<in> set acc. snd x \<le> t \<longrightarrow> keys (fst x) \<subseteq> D \<union> keys d))"

lemma mark_fin: "holds q bs \<Longrightarrow> mark q bs t \<Longrightarrow> t \<le> fin q"
  using holds_range [of q bs] by (auto simp: mark_def)

lemma flow_push:
  assumes F: "flow q bs D dt buf lst acc" and ok: "loggable es" and a: "append es q = ((off, None), q')"
  shows "flow q' (bs @ [(es, off)]) D dt (buf @ es) off (acc @ [(es, off)])"
proof -
  have H: "holds q bs" using F by (simp add: flow_def)
  note A = append_ok [OF H ok a]
  have "mark q bs lst" using F by (simp add: flow_def)
  then have lt: "lst < off" using mark_fin [OF H] A by fastforce
  have M: "mark q' (bs @ [(es, off)]) t" if "mark q bs t" for t using that A by (auto simp: mark_def)
  have "\<forall>x \<in> set (acc @ [(es, off)]). snd x \<le> off \<and> (keys (fst x) \<subseteq> D \<or> x \<in> set (bs @ [(es, off)]))
      \<and> keys (fst x) \<subseteq> D \<union> keys (detached dt) \<union> keys (buf @ es)"
    using F lt unfolding flow_def by fastforce
  moreover have "case dt of None \<Rightarrow> True | Some (d, t) \<Rightarrow> mark q' (bs @ [(es, off)]) t \<and> t \<le> off
      \<and> (\<forall>x \<in> set (acc @ [(es, off)]). snd x \<le> t \<longrightarrow> keys (fst x) \<subseteq> D \<union> keys d)"
    using F lt M unfolding flow_def by (auto split: option.splits)
  moreover have "mark q' (bs @ [(es, off)]) off" by (simp add: mark_def)
  ultimately show ?thesis using A by (simp only: flow_def)
qed

lemma flow_same: "flow q bs D dt buf lst acc \<Longrightarrow> holds q' bs \<Longrightarrow> start q' = start q \<Longrightarrow> flow q' bs D dt buf lst acc"
  by (cases dt) (simp_all add: flow_def mark_def split_beta)

lemma flow_detach: "flow q bs D None buf lst acc \<Longrightarrow> flow q bs D (Some (buf, lst)) [] lst acc"
  by (simp add: flow_def)

lemma flow_insert: "flow q bs D dt buf lst acc \<Longrightarrow> D \<subseteq> D' \<Longrightarrow> flow q bs D' dt buf lst acc"
  unfolding flow_def by (cases dt; simp; blast)

lemma flow_requeue:
  assumes F: "flow q bs D (Some (d, t)) buf lst acc" and c: "keys (take n d) \<subseteq> D"
  shows "flow q bs D None (drop n d @ buf) lst acc"
proof -
  have "keys d = keys (take n d) \<union> keys (drop n d)" by (metis append_take_drop_id keys_append)
  then have "D \<union> keys d \<union> keys buf \<subseteq> D \<union> keys (drop n d @ buf)" using c by auto
  then show ?thesis using F unfolding flow_def by (simp, blast)
qed

lemma flow_checkpoint:
  assumes F: "flow q bs D (Some (d, t)) buf lst acc" and c: "keys d \<subseteq> D" and r: "checkpoint t q = (r, q')"
  shows "\<exists>bs'. flow q' bs' D None buf lst acc"
proof -
  have H: "holds q bs" and t: "t \<le> start q \<or> t \<in> snd ` set bs" using F by (simp_all add: flow_def mark_def)
  have F0: "flow q bs D None buf lst acc" using flow_requeue [OF F, of "length d"] c by simp
  from checkpoint_at [OF H t r] show ?thesis
  proof
    assume "holds q' bs \<and> start q' = start q"
    then show ?thesis using F0 flow_same by blast
  next
    let ?bs = "filter (\<lambda>x. t < snd x) bs"
    assume C: "holds q' ?bs \<and> start q \<le> start q' \<and> t \<le> start q'"
    have D: "keys (fst x) \<subseteq> D" if "x \<in> set acc" "snd x \<le> t" for x
    proof -
      have "keys (fst x) \<subseteq> D \<union> keys d" using F that by (simp add: flow_def)
      then show ?thesis using c by blast
    qed
    have "mark q' ?bs lst" using F0 C by (fastforce simp: flow_def mark_def)
    moreover have "keys (fst x) \<subseteq> D \<or> x \<in> set ?bs" if "x \<in> set acc" for x
      using F0 D that by (cases "snd x \<le> t") (auto simp: flow_def)
    ultimately have "flow q' ?bs D None buf lst acc" using F0 C by (simp add: flow_def)
    then show ?thesis by blast
  qed
qed

end

section \<open>The write-ahead log is one\<close>

definition batches_of :: "nat \<Rightarrow> entry list \<Rightarrow> batches" where
  "batches_of p rs = map (\<lambda>(f, o'). (events f, o')) (frame_ends p rs)"

lemma batches_of_simps [simp]: "batches_of p [] = []"
  "batches_of p ((r, f) # rs) = (events f, p + length r + 1) # batches_of (p + length r + 1) rs"
  by (simp_all add: batches_of_def)

text \<open>The pending bytes are frames of batches, and nothing else unless an error is latched.\<close>

definition log_holds :: "diskQueue \<Rightarrow> batches \<Rightarrow> bool" where
  "log_holds q bs \<longleftrightarrow> wal_inv q \<and> \<not> lossySync q \<and> (\<exists>rs torn. pend q = log_of rs @ torn
     \<and> list_all entry_ok rs \<and> list_all (\<lambda>(r, f). \<not> isRecords f) rs \<and> bs = batches_of (pend_start q) rs
     \<and> (lastErr q = None \<longrightarrow> torn = [] \<and> framed q))"

lemma pend_start_end: "wal_inv q \<Longrightarrow> pend_start q + length (pend q) = offset q"
  using pend_length [of q] pend_suffix(3) [of q] by simp

lemma batches_of_append:
  "batches_of p (xs @ ys) = batches_of p xs @ batches_of (p + length (log_of xs)) ys"
  by (simp add: batches_of_def frame_ends_append)

lemma batches_of_range: "x \<in> set (batches_of p rs) \<Longrightarrow> p < snd x \<and> snd x \<le> p + length (log_of rs)"
proof (induction rs arbitrary: p)
  case (Cons a rs)
  obtain r f where a: "a = (r, f)" by fastforce
  show ?case using Cons by (fastforce simp: a)
qed simp

lemma batches_of_end:
  assumes "t \<in> snd ` set (batches_of p rs)"
  shows "\<exists>k \<le> length rs. t = p + length (log_of (take k rs))"
  using assms
proof (induction rs arbitrary: p)
  case (Cons a rs)
  obtain r f where a: "a = (r, f)" by fastforce
  from Cons.prems consider "t = p + length r + 1" | "t \<in> snd ` set (batches_of (p + length r + 1) rs)"
    by (auto simp: a)
  then show ?case
  proof cases
    case 1
    then show ?thesis by (intro exI [of _ 1]) (simp add: a)
  next
    case 2
    from Cons.IH [OF this] obtain k where "k \<le> length rs" "t = p + length r + 1 + length (log_of (take k rs))" by blast
    then show ?thesis by (intro exI [of _ "Suc k"]) (simp add: a)
  qed
qed (simp add: batches_of_def)

lemma batches_of_drop:
  fixes p :: nat
  assumes "k \<le> length rs"
  defines "t \<equiv> p + length (log_of (take k rs))"
  shows "filter (\<lambda>x. t < snd x) (batches_of p rs) = batches_of t (drop k rs)"
proof -
  have "filter (\<lambda>x. t < snd x) (batches_of p (take k rs)) = []"
    using batches_of_range [of _ p "take k rs"] by (fastforce simp: filter_empty_conv t_def)
  moreover have "filter (\<lambda>x. t < snd x) (batches_of t (drop k rs)) = batches_of t (drop k rs)"
    using batches_of_range [of _ t "drop k rs"] by (simp add: filter_id_conv)
  moreover have "batches_of p rs = batches_of p (take k rs) @ batches_of t (drop k rs)"
    using batches_of_append [of p "take k rs" "drop k rs"] by (simp add: t_def)
  ultimately show ?thesis by simp
qed

lemma log_holds_calm: "log_holds q bs \<Longrightarrow> calm q q' \<and> latched q q' \<Longrightarrow> log_holds q' bs \<and> pend_start q' = pend_start q"
  unfolding log_holds_def calm_def latched_def by (elim conjE exE) (intro conjI exI, auto)

lemma latched_append: "latched q (snd (appendFrame raw u q))"
  by (cases "lastErr q") (auto simp: appendFrame_def latched_def Let_def)

lemma append_holds:
  assumes H: "log_holds q bs" and b: "batch_ok es" and a: "AppendBatch es q = ((off, None), q')"
  shows "log_holds q' (bs @ [(es, off)]) \<and> pend_start q' = pend_start q \<and> offset q < off"
proof -
  have I: "wal_inv q" and l: "\<not> lossySync q" using H by (simp_all add: log_holds_def)
  have ap: "appendFrame (print_json (batch_frame es)) (length es) q = ((off, None), q')"
    using a b by (simp add: AppendBatch_def batch_ok_def)
  note A = append_accepted_aux [OF I ap l]
  have n: "lastErr q = None" using latched_append [of q] ap A by (metis latched_def snd_conv)
  then obtain rs where rs: "pend q = log_of rs" "list_all entry_ok rs" "list_all (\<lambda>(r, f). \<not> isRecords f) rs"
    "bs = batches_of (pend_start q) rs" "framed q" using H by (auto simp: log_holds_def)
  note L = AppendBatch_logged [OF I l rs(5,1,2) b a]
  have s: "pend_start q' = pend_start q"
    using pend_start_end [OF I] pend_start_end [of q'] A by simp
  have o: "off = pend_start q + length (pend q) + length (print_json (batch_frame es)) + 1"
    using A pend_start_end [OF I] by simp
  have "batches_of (pend_start q) (rs @ [(print_json (batch_frame es), frame_of es)]) = bs @ [(es, off)]"
    by (simp add: batches_of_append rs o frame_of_def)
  moreover have "list_all (\<lambda>(r, f). \<not> isRecords f) (rs @ [(print_json (batch_frame es), frame_of es)])"
    using rs(3) by (simp add: frame_of_def)
  ultimately have "log_holds q' (bs @ [(es, off)])"
    using L l s unfolding log_holds_def same_config_def by (metis append_Nil2)
  then show ?thesis using s A by simp
qed

lemma append_refused_holds:
  assumes H: "log_holds q bs" and a: "AppendBatch es q = ((off, Some e), q')"
  shows "log_holds q' bs \<and> pend_start q' = pend_start q"
proof -
  have I: "wal_inv q" and l: "\<not> lossySync q" using H by (simp_all add: log_holds_def)
  have ap: "appendFrame (print_json (batch_frame es)) (length es) q = ((off, Some e), q')"
    using a by (auto simp: AppendBatch_def split: if_splits)
  show ?thesis
  proof (cases "lastErr q")
    case (Some e0)
    then have "q' = q" using ap by (auto simp: appendFrame_def Let_def split: if_splits)
    then show ?thesis using H by simp
  next
    case None
    obtain rs where rs: "pend q = log_of rs" "list_all entry_ok rs" "list_all (\<lambda>(r, f). \<not> isRecords f) rs"
      "bs = batches_of (pend_start q) rs" "framed q" using H None by (auto simp: log_holds_def)
    have R: "\<exists>torn. wal_inv q' \<and> pend q' = log_of rs @ torn \<and> offset q' = offset q + length torn
      \<and> lossySync q' = lossySync q \<and> (lastErr q' = None \<longrightarrow> torn = [] \<and> framed q')"
      using I ap
    proof (cases rule: appendFrame_cases)
      case (refused q1)
      obtain n where q': "q' = q1\<lparr>refusedHighWater := n\<rparr>" using refused(4) by metis
      have "wal_inv q1" "pend q1 = log_of rs" "offset q1 = offset q" "lossySync q1 = lossySync q" "framed q1"
        using refused(2,3) rs by (simp_all add: ready_def same_config_def)
      then show ?thesis unfolding q' by simp
    next
      case (rollfail q1)
      have "pend q1 = pend q" "framed q1" "offset q1 = offset q" "lossySync q1 = lossySync q"
        using rollfail(2) l rs by (simp_all add: ready_def same_config_def)
      then show ?thesis using rollfail(3) rs by (auto simp: quiet_def same_config_def)
    next
      case (written q1)
      have R: "wal_inv q1" "pend q1 = pend q" "offset q1 = offset q" "lossySync q1 = lossySync q"
        using written(1) l by (simp_all add: ready_def same_config_def)
      from R(1) written(2) obtain n where "wal_inv q'" "pend q' = pend q1 @ take n (print_json (batch_frame es) @ [nl])"
        "n \<le> length (print_json (batch_frame es) @ [nl])" "offset q' = offset q1 + n" "same_config q1 q'" "lastErr q' \<noteq> None"
        by (rule append_write_spec) simp
      then show ?thesis using R rs
        by (intro exI [of _ "take n (print_json (batch_frame es) @ [nl])"]) (auto simp: same_config_def min_def)
    qed
    from R obtain torn where T': "wal_inv q' \<and> pend q' = log_of rs @ torn \<and> offset q' = offset q + length torn
      \<and> lossySync q' = lossySync q \<and> (lastErr q' = None \<longrightarrow> torn = [] \<and> framed q')" by (rule exE)
    note T = T' [THEN conjunct1] T' [THEN conjunct2]
    have "pend_start q' = pend_start q" using pend_start_end [OF I] pend_start_end [OF T(1)] T rs by simp
    moreover have "log_holds q' bs"
      unfolding log_holds_def
      by (intro conjI exI [of _ rs] exI [of _ torn]) (use T rs l calculation in simp_all)
    ultimately show ?thesis by blast
  qed
qed

lemma checkpoint_holds:
  assumes H: "log_holds q bs" and t: "t \<le> pend_start q \<or> t \<in> snd ` set bs" and r: "Checkpoint t q = (r, q')"
  shows "(log_holds q' bs \<and> pend_start q' = pend_start q)
    \<or> (log_holds q' (filter (\<lambda>x. t < snd x) bs) \<and> pend_start q \<le> pend_start q' \<and> t \<le> pend_start q')"
proof (cases "stopped q \<or> t \<le> cpLogical q")
  case True
  then have "q' = q" using r unfolding Checkpoint_def by (elim disjE) (simp_all split: if_splits)
  then show ?thesis using H by simp
next
  case False
  have I: "wal_inv q" using H by (simp add: log_holds_def)
  have la: "latched q q'" using latched_checkpoint [of q t] r by simp
  have "cp_effect t q q' \<or> quiet q q'" using Checkpoint_spec(1) [OF I r] False by auto
  then show ?thesis
  proof
    assume "quiet q q'"
    then show ?thesis using log_holds_calm [OF H] quiet_calm la by blast
  next
    assume C: "cp_effect t q q'"
    then have I': "wal_inv q'" and P: "pend q' = drop (min t (offset q) - pend_start q) (pend q)"
      and o: "offset q' = offset q" "lossySync q' = lossySync q" "framed q \<longrightarrow> framed q'"
      by (simp_all add: cp_effect_def same_config_def)
    show ?thesis
    proof (cases "t \<le> pend_start q")
      case True
      then have "pend q' = pend q" using P by simp
      then have "calm q q'" using I' o pend_start_end [OF I] pend_start_end [OF I'] by (simp add: calm_def)
      then show ?thesis using log_holds_calm [OF H] la by blast
    next
      case later: False
      obtain rs torn where rs: "pend q = log_of rs @ torn" "list_all entry_ok rs" "list_all (\<lambda>(r, f). \<not> isRecords f) rs"
        "bs = batches_of (pend_start q) rs" "lastErr q = None \<longrightarrow> torn = [] \<and> framed q"
        using H by (auto simp: log_holds_def)
      obtain k where k: "k \<le> length rs" "t = pend_start q + length (log_of (take k rs))"
        using batches_of_end [of t "pend_start q" rs] t later rs(4) by blast
      have "log_of rs = log_of (take k rs) @ log_of (drop k rs)" by (metis append_take_drop_id log_of_simps(3))
      moreover have le: "t \<le> offset q" using k(2) calculation pend_start_end [OF I] rs(1) by simp
      ultimately have P': "pend q' = log_of (drop k rs) @ torn" using P rs(1) k(2) by (simp add: min_def)
      have s: "pend_start q' = t"
        using pend_start_end [OF I] pend_start_end [OF I'] P P' le later o(1) by simp
      have "log_holds q' (filter (\<lambda>x. t < snd x) bs)"
        unfolding log_holds_def
      proof (intro conjI exI)
        show "pend q' = log_of (drop k rs) @ torn" by (rule P')
        show "list_all entry_ok (drop k rs)" "list_all (\<lambda>(r, f). \<not> isRecords f) (drop k rs)"
          using rs(2,3) by (auto simp: list_all_iff dest: in_set_dropD)
        show "filter (\<lambda>x. t < snd x) bs = batches_of (pend_start q') (drop k rs)"
          unfolding s rs(4) k(2) by (rule batches_of_drop [OF k(1)])
        show "lastErr q' = None \<longrightarrow> torn = [] \<and> framed q'" using la rs(5) o by (auto simp: latched_def)
        show "\<not> lossySync q'" using H o by (simp add: log_holds_def)
      qed (rule I')
      then show ?thesis using s later by simp
    qed
  qed
qed

interpretation wal: batch_log log_holds pend_start offset batch_ok AppendBatch Checkpoint "\<lambda>q q'. calm q q' \<and> latched q q'"
proof unfold_locales
  fix q bs assume H: "log_holds q bs"
  then have I: "wal_inv q" by (simp add: log_holds_def)
  obtain rs torn where "pend q = log_of rs @ torn" "bs = batches_of (pend_start q) rs"
    using H by (auto simp: log_holds_def)
  then show "pend_start q \<le> offset q \<and> (\<forall>x \<in> set bs. pend_start q < snd x \<and> snd x \<le> offset q)"
    using pend_start_end [OF I] batches_of_range [of _ "pend_start q" rs] by fastforce
qed (rule append_holds append_refused_holds checkpoint_holds log_holds_calm; assumption)+

end
