(* ===== verification/IngestFlow.thy ===== *)
theory IngestFlow
  imports WalBatches
begin

text \<open>
  No accepted event is lost: the buffer of \<^verbatim>\<open>src/internal/ingest/buffer.go\<close>, its write-ahead log and the
  database as one machine, in every interleaving of pushes, flushes and the log's own goroutines.
\<close>

section \<open>Inserting\<close>

definition stored :: "store \<Rightarrow> (string \<times> string) set" where
  "stored s = keys (db_events (st_db s))"

lemma dedupePending_keys: "keys es \<subseteq> set ex \<union> keys (dedupePending ex es)"
  by (induction ex es rule: dedupePending.induct) auto

lemma existing_stored: "set (existingEventKeys db es m) \<subseteq> keys db"
  by (auto simp: existingEventKeys_def keys_def)

lemma filterUncommitted_keys: "keys es \<subseteq> keys db \<union> keys (filterUncommitted w db es)"
proof -
  have "keys es \<subseteq> keys db \<union> keys (dedupePending ex es)" if "set ex \<subseteq> keys db" for ex
    using dedupePending_keys [of es ex] that by blast
  then show ?thesis using existing_stored by (simp add: filterUncommitted_def)
qed

lemma insert_chunk_keys:
  assumes "insert_chunk es s = (ok, s')"
  shows "stored s \<subseteq> stored s'" "ok \<Longrightarrow> keys es \<subseteq> stored s'"
  using assms filterUncommitted_keys [of es "db_events (st_db s)", THEN subsetD]
  by (auto simp: insert_chunk_def next_tx_def Let_def stored_def add_rows_def split: prod.splits list.splits tx_outcome.splits)

lemma insert_loop_keys:
  assumes "insert_loop es c s = ((n, ok), s')"
  shows "stored s \<subseteq> stored s' \<and> c \<le> n \<and> n \<le> c + length es \<and> keys (take (n - c) es) \<subseteq> stored s'
    \<and> (ok \<longrightarrow> n = c + length es)"
  using assms
proof (induction es c s rule: insert_loop.induct)
  case (1 es c s)
  show ?case
  proof (cases "es = []")
    case True
    then show ?thesis using 1(2) by (simp add: insert_loop.simps)
  next
    case False
    let ?k = insertChunkSize
    obtain k s1 where ch: "insert_chunk (take ?k es) s = (k, s1)" by fastforce
    note C = insert_chunk_keys [OF ch]
    show ?thesis
    proof (cases k)
      case True
      have r: "insert_loop (drop ?k es) (c + length (take ?k es)) s1 = ((n, ok), s')"
        using 1(2) False ch True by (subst (asm) insert_loop.simps) simp
      have IH: "stored s1 \<subseteq> stored s' \<and> c + length (take ?k es) \<le> n
          \<and> n \<le> c + length (take ?k es) + length (drop ?k es)
          \<and> keys (take (n - (c + length (take ?k es))) (drop ?k es)) \<subseteq> stored s'
          \<and> (ok \<longrightarrow> n = c + length (take ?k es) + length (drop ?k es))"
        using 1(1) [OF False ch [symmetric] True r] ch by simp
      let ?m = "n - (c + length (take ?k es))"
      have "take (n - c) es = take ?k es @ take ?m (drop ?k es)"
      proof -
        have "take (length (take ?k es) + ?m) es = take ?k es @ take ?m (drop ?k es)"
          by (cases "?k \<le> length es") (simp_all add: take_add)
        moreover have "n - c = length (take ?k es) + ?m" using IH by simp
        ultimately show ?thesis by metis
      qed
      then show ?thesis using IH C True by auto
    next
      case f: False
      have "n = c" "ok = False" "s' = s1" using 1(2) False ch f by (subst (asm) insert_loop.simps, simp)+
      then show ?thesis using C by simp
    qed
  qed
qed

lemma insertBatch_keys:
  assumes "insertBatch es s = ((n, ok), s')"
  shows "stored s \<subseteq> stored s'" "n \<le> length es" "keys (take n es) \<subseteq> stored s'" "ok \<Longrightarrow> n = length es"
  using insert_loop_keys [of es 0 s n ok s'] assms by (simp_all add: insertBatch_def)

section \<open>The machine\<close>

text \<open>
  The flush in progress carries the outcome of its insertion once that is known; the last component
  records the batches that were accepted, with the offsets of their frames.
\<close>

record ingest =
  in_buf :: Buffer
  in_log :: commits
  in_store :: store
  in_flight :: "(flight \<times> (nat \<times> bool) option) option"
  in_acc :: batches

definition ingest_start :: "Buffer \<Rightarrow> diskQueue \<Rightarrow> store \<Rightarrow> ingest" where
  "ingest_start b q st = \<lparr>in_buf = b, in_log = commits_of q, in_store = st, in_flight = None, in_acc = []\<rparr>"

definition push :: "Event list \<Rightarrow> ingest \<Rightarrow> ingest" where
  "push es s = (case push_begin es (in_buf s) (Some (cm_queue (in_log s))) of
     (r, b, oq) \<Rightarrow> s\<lparr>in_buf := b, in_log := (in_log s)\<lparr>cm_queue := the oq\<rparr>,
       in_acc := in_acc s @ (case r of PushWait off \<Rightarrow> [(es, off)] | _ \<Rightarrow> [])\<rparr>)"

definition finish :: "flight \<Rightarrow> nat \<times> bool \<Rightarrow> ingest \<Rightarrow> ingest" where
  "finish f r s = (case flush_end f r (in_buf s) (Some (cm_queue (in_log s))) of
     (b, oq) \<Rightarrow> s\<lparr>in_buf := b, in_log := (in_log s)\<lparr>cm_queue := the oq\<rparr>, in_flight := None\<rparr>)"

inductive ingest_step :: "ingest \<Rightarrow> ingest \<Rightarrow> bool" where
  push: "batch_ok es \<Longrightarrow> ingest_step s (push es s)"
| settle: "ingest_step s (s\<lparr>in_buf := push_end es d (in_buf s)\<rparr>)"
| detach: "in_flight s = None \<Longrightarrow> flush_begin (in_buf s) = Some (f, b)
    \<Longrightarrow> ingest_step s (s\<lparr>in_buf := b, in_flight := Some (f, None)\<rparr>)"
| insert: "in_flight s = Some (f, None) \<Longrightarrow> insertBatch (fl_batch f) (in_store s) = (r, st)
    \<Longrightarrow> ingest_step s (s\<lparr>in_store := st, in_flight := Some (f, Some r)\<rparr>)"
| finish: "in_flight s = Some (f, Some r) \<Longrightarrow> ingest_step s (finish f r s)"
| halt: "ingest_step s (s\<lparr>in_buf := (in_buf s)\<lparr>bf_stopped := x, bf_workerErr := y\<rparr>\<rparr>)"
| tick: "ingest_step s (s\<lparr>in_log := (in_log s)\<lparr>cm_queue := fsyncTick (cm_queue (in_log s))\<rparr>\<rparr>)"
| ask: "off \<le> offset (cm_queue (in_log s)) \<Longrightarrow> ingest_step s (s\<lparr>in_log := ask off now (in_log s)\<rparr>)"
| group: "\<not> holdWindow now (cm_queue (in_log s)) \<Longrightarrow> ingest_step s (s\<lparr>in_log := commit_group (in_log s)\<rparr>)"
| close: "ingest_step s (s\<lparr>in_log := (in_log s)\<lparr>cm_queue := snd (Close (cm_queue (in_log s)))\<rparr>\<rparr>)"
| drain: "stopped (cm_queue (in_log s)) \<Longrightarrow> ingest_step s (s\<lparr>in_log := drain (in_log s)\<rparr>)"

text \<open>The insertion under way as the log's contract sees it, and what its outcome says.\<close>

definition in_detached :: "ingest \<Rightarrow> (Event list \<times> nat) option" where
  "in_detached s = map_option (\<lambda>(f, r). (fl_batch f, fl_target f)) (in_flight s)"

definition outcome_ok :: "ingest \<Rightarrow> bool" where
  "outcome_ok s \<longleftrightarrow> (case in_flight s of Some (f, Some (n, ok)) \<Rightarrow> n \<le> length (fl_batch f)
      \<and> keys (take n (fl_batch f)) \<subseteq> stored (in_store s) \<and> (ok \<longrightarrow> n = length (fl_batch f)) | _ \<Rightarrow> True)"

lemma in_flight_updates [simp]:
  "outcome_ok (s\<lparr>in_log := l\<rparr>) = outcome_ok s" "outcome_ok (s\<lparr>in_buf := b\<rparr>) = outcome_ok s"
  "outcome_ok (s\<lparr>in_acc := a\<rparr>) = outcome_ok s"
  "in_detached (s\<lparr>in_log := l\<rparr>) = in_detached s" "in_detached (s\<lparr>in_buf := b\<rparr>) = in_detached s"
  "in_detached (s\<lparr>in_acc := a\<rparr>) = in_detached s" "in_detached (s\<lparr>in_store := st\<rparr>) = in_detached s"
  by (simp_all add: outcome_ok_def in_detached_def split: option.split)

definition ingest_inv :: "nat \<Rightarrow> ingest \<Rightarrow> bool" where
  "ingest_inv o0 s \<longleftrightarrow> commit_inv o0 (in_log s) \<and> outcome_ok s
     \<and> (\<exists>bs. wal.flow (cm_queue (in_log s)) bs (stored (in_store s)) (in_detached s)
          (bf_events (in_buf s)) (bf_lastOffset (in_buf s)) (in_acc s))"

lemma flow_calm:
  assumes "wal.flow q bs D dt buf l acc" "calm q q'" "latched q q'"
  shows "wal.flow q' bs D dt buf l acc"
proof -
  have "log_holds q bs" using assms(1) by (simp add: wal.flow_def)
  from wal.undisturbed_holds [OF this] assms show ?thesis by (blast intro: wal.flow_same)
qed

text \<open>The steps of the log alone.\<close>

lemma ingest_inv_log:
  assumes I: "ingest_inv o0 s" and c: "commit_inv o0 cm"
    and k: "wal_inv (cm_queue (in_log s)) \<Longrightarrow> calm (cm_queue (in_log s)) (cm_queue cm)"
      "latched (cm_queue (in_log s)) (cm_queue cm)"
  shows "ingest_inv o0 (s\<lparr>in_log := cm\<rparr>)"
proof -
  have W: "wal_inv (cm_queue (in_log s))" using I by (simp add: ingest_inv_def commit_inv_def)
  obtain bs where "wal.flow (cm_queue (in_log s)) bs (stored (in_store s)) (in_detached s)
      (bf_events (in_buf s)) (bf_lastOffset (in_buf s)) (in_acc s)"
    using I unfolding ingest_inv_def by blast
  from flow_calm [OF this k(1) [OF W] k(2)] show ?thesis
    using I c by (auto simp: ingest_inv_def)
qed

lemma ingest_inv_logs:
  assumes I: "ingest_inv o0 s"
  defines "q \<equiv> cm_queue (in_log s)"
  shows "ingest_inv o0 (s\<lparr>in_log := (in_log s)\<lparr>cm_queue := fsyncTick q\<rparr>\<rparr>)"
    and "ingest_inv o0 (s\<lparr>in_log := (in_log s)\<lparr>cm_queue := snd (Close q)\<rparr>\<rparr>)"
    and "off \<le> offset q \<Longrightarrow> ingest_inv o0 (s\<lparr>in_log := ask off now (in_log s)\<rparr>)"
    and "\<not> holdWindow now q \<Longrightarrow> ingest_inv o0 (s\<lparr>in_log := commit_group (in_log s)\<rparr>)"
    and "stopped q \<Longrightarrow> ingest_inv o0 (s\<lparr>in_log := drain (in_log s)\<rparr>)"
proof -
  have C: "commit_inv o0 (in_log s)" and W: "wal_inv q" using I by (simp_all add: ingest_inv_def commit_inv_def q_def)
  have step: "commit_step (in_log s) cm \<Longrightarrow> commit_inv o0 cm" for cm using commit_inv_step [OF _ C] .
  show "ingest_inv o0 (s\<lparr>in_log := (in_log s)\<lparr>cm_queue := fsyncTick q\<rparr>\<rparr>)"
    unfolding q_def by (rule ingest_inv_log [OF I step [OF commit_step.tick]])
      (simp_all add: calmly.R_tick latched_commit)
  show "ingest_inv o0 (s\<lparr>in_log := (in_log s)\<lparr>cm_queue := snd (Close q)\<rparr>\<rparr>)"
    unfolding q_def by (rule ingest_inv_log [OF I step [OF commit_step.close]])
      (simp_all add: calmly.R_close latched_commit)
  show "ingest_inv o0 (s\<lparr>in_log := ask off now (in_log s)\<rparr>)" if "off \<le> offset q"
  proof (rule ingest_inv_log [OF I step [OF commit_step.ask]])
    let ?i = "length (cm_asked (in_log s))"
    have "cm_queue (ask off now (in_log s)) = snd (WaitCommit off ?i now q)"
      by (simp add: ask_def q_def Let_def split: prod.split wait.split)
    then show "latched (cm_queue (in_log s)) (cm_queue (ask off now (in_log s)))"
      "wal_inv (cm_queue (in_log s)) \<Longrightarrow> calm (cm_queue (in_log s)) (cm_queue (ask off now (in_log s)))"
      using calm_waiters(1) by (simp_all add: q_def)
  qed (use that in \<open>simp add: q_def\<close>)
  show "ingest_inv o0 (s\<lparr>in_log := commit_group (in_log s)\<rparr>)" if "\<not> holdWindow now q"
  proof (rule ingest_inv_log [OF I step [OF commit_step.group [of now]]])
    have "cm_queue (commit_group (in_log s)) = snd (snd (syncGroup q))"
      by (simp add: commit_group_def q_def split: prod.split)
    then show "latched (cm_queue (in_log s)) (cm_queue (commit_group (in_log s)))"
      "wal_inv (cm_queue (in_log s)) \<Longrightarrow> calm (cm_queue (in_log s)) (cm_queue (commit_group (in_log s)))"
      using calm_syncGroup latched_syncGroup by (simp_all add: q_def)
  qed (use that in \<open>simp add: q_def\<close>)
  show "ingest_inv o0 (s\<lparr>in_log := drain (in_log s)\<rparr>)" if "stopped q"
  proof (rule ingest_inv_log [OF I step [OF commit_step.drain]])
    have "cm_queue (drain (in_log s)) = snd (failOrCoverWaiters q)"
      by (simp add: drain_def q_def split: prod.split)
    then show "latched (cm_queue (in_log s)) (cm_queue (drain (in_log s)))"
      "wal_inv (cm_queue (in_log s)) \<Longrightarrow> calm (cm_queue (in_log s)) (cm_queue (drain (in_log s)))"
      using calm_waiters(2) by (simp_all add: q_def)
  qed (use that in \<open>simp add: q_def\<close>)
qed

text \<open>Pushing: the queue makes an append or nothing.\<close>

lemma push_begin_cases:
  assumes "push_begin es b (Some q) = (r, b', oq)"
  obtains (refused) "b' = b" "oq = Some q" "\<And>off. r \<noteq> PushWait off"
  | (failed) off e q1 where "AppendBatch es q = ((off, Some e), q1)" "b' = b" "oq = Some q1" "r = PushUnavailable e"
  | (taken) off q1 where "AppendBatch es q = ((off, None), q1)" "oq = Some q1" "bf_lastOffset b' = off"
      "bf_events b' = bf_events b @ es" "r = (if lossySync q1 then PushOk else PushWait off)"
  using assms
  by (auto simp: push_begin_def Let_def split: if_splits prod.splits option.splits)

lemma AppendBatch_commit_step:
  "es \<noteq> [] \<Longrightarrow> commit_step s (s\<lparr>cm_queue := snd (AppendBatch es (cm_queue s))\<rparr>)"
  by (simp add: AppendBatch_def commit_step.append)

lemma ingest_inv_push:
  assumes I: "ingest_inv o0 s" and b: "batch_ok es"
  shows "ingest_inv o0 (push es s)"
proof -
  let ?q = "cm_queue (in_log s)"
  obtain r b' oq where p: "push_begin es (in_buf s) (Some ?q) = (r, b', oq)" by (metis prod_cases3)
  have C: "commit_inv o0 (in_log s)" using I by (simp add: ingest_inv_def)
  obtain bs where F: "wal.flow ?q bs (stored (in_store s)) (in_detached s) (bf_events (in_buf s))
      (bf_lastOffset (in_buf s)) (in_acc s)" using I unfolding ingest_inv_def by blast
  have H: "log_holds ?q bs" using F by (simp add: wal.flow_def)
  have ne: "es \<noteq> []" using b by (simp add: batch_ok_def)
  have A: "commit_inv o0 ((in_log s)\<lparr>cm_queue := snd (AppendBatch es ?q)\<rparr>)"
    by (rule commit_inv_step [OF AppendBatch_commit_step [OF ne] C])
  from p show ?thesis
  proof (cases rule: push_begin_cases)
    case refused
    then have "push es s = s" by (simp add: push_def p split: push.split)
    then show ?thesis using I by simp
  next
    case (failed off e q1)
    have "wal.flow q1 bs (stored (in_store s)) (in_detached s) (bf_events (in_buf s))
      (bf_lastOffset (in_buf s)) (in_acc s)"
      using wal.append_err [OF H failed(1)] F wal.flow_same by blast
    then show ?thesis using I A failed
      by (auto simp: push_def p ingest_inv_def)
  next
    case (taken off q1)
    have "\<not> lossySync q1" using wal.append_ok [OF H b taken(1)] by (simp add: log_holds_def)
    moreover note wal.flow_push [OF F b taken(1)]
    ultimately show ?thesis using I A taken
      by (auto simp: push_def p ingest_inv_def)
  qed
qed

text \<open>Flushing.\<close>

lemma ingest_inv_detach:
  assumes I: "ingest_inv o0 s" and n: "in_flight s = None" and f: "flush_begin (in_buf s) = Some (f, b)"
  shows "ingest_inv o0 (s\<lparr>in_buf := b, in_flight := Some (f, None)\<rparr>)"
proof -
  obtain bs where F: "wal.flow (cm_queue (in_log s)) bs (stored (in_store s)) None (bf_events (in_buf s))
      (bf_lastOffset (in_buf s)) (in_acc s)"
    using I n unfolding ingest_inv_def in_detached_def by auto
  have "fl_batch f = bf_events (in_buf s)" "fl_target f = bf_lastOffset (in_buf s)" "bf_events b = []"
    "bf_lastOffset b = bf_lastOffset (in_buf s)"
    using f by (auto simp: flush_begin_def split: if_splits)
  with wal.flow_detach [OF F] show ?thesis
    using I by (auto simp: ingest_inv_def in_detached_def outcome_ok_def)
qed

lemma ingest_inv_insert:
  assumes I: "ingest_inv o0 s" and f: "in_flight s = Some (f, None)"
    and r: "insertBatch (fl_batch f) (in_store s) = (r, st)"
  shows "ingest_inv o0 (s\<lparr>in_store := st, in_flight := Some (f, Some r)\<rparr>)"
proof -
  obtain n ok where nk: "r = (n, ok)" by fastforce
  note B = insertBatch_keys [OF r [unfolded nk]]
  obtain bs where F: "wal.flow (cm_queue (in_log s)) bs (stored (in_store s)) (in_detached s) (bf_events (in_buf s))
      (bf_lastOffset (in_buf s)) (in_acc s)"
    using I unfolding ingest_inv_def by blast
  have "in_detached (s\<lparr>in_store := st, in_flight := Some (f, Some r)\<rparr>) = in_detached s"
    by (simp add: in_detached_def f)
  moreover have "outcome_ok (s\<lparr>in_store := st, in_flight := Some (f, Some r)\<rparr>)"
    using B by (simp add: outcome_ok_def nk)
  ultimately show ?thesis using I wal.flow_insert [OF F B(1)] by (auto simp: ingest_inv_def)
qed

lemma ingest_inv_finish:
  assumes I: "ingest_inv o0 s" and f: "in_flight s = Some (f, Some r)"
  shows "ingest_inv o0 (finish f r s)"
proof -
  let ?q = "cm_queue (in_log s)" and ?b = "in_buf s"
  obtain n ok where nk: "r = (n, ok)" by fastforce
  have C: "commit_inv o0 (in_log s)" and O: "outcome_ok s" using I by (simp_all add: ingest_inv_def)
  obtain bs where F: "wal.flow ?q bs (stored (in_store s)) (Some (fl_batch f, fl_target f)) (bf_events ?b)
      (bf_lastOffset ?b) (in_acc s)"
    using I f unfolding ingest_inv_def in_detached_def by auto
  have K: "keys (take n (fl_batch f)) \<subseteq> stored (in_store s)" "ok \<longrightarrow> n = length (fl_batch f)"
    using O by (simp_all add: outcome_ok_def f nk)
  show ?thesis
  proof (cases ok)
    case False
    have "finish f r s = s\<lparr>in_buf := requeueFailed (drop n (fl_batch f)) (sum_list (drop n (fl_sizes f))) (fl_cost f) ?b,
        in_flight := None\<rparr>"
      using False by (simp add: finish_def flush_end_def nk)
    with wal.flow_requeue [OF F K(1)] show ?thesis
      using C by (auto simp: ingest_inv_def outcome_ok_def in_detached_def requeueFailed_def release_credit_def)
  next
    case True
    obtain e q1 where cp: "Checkpoint (fl_target f) ?q = (e, q1)" by fastforce
    have e: "finish f r s = s\<lparr>in_buf := release_credit (fl_cost f) ?b, in_log := (in_log s)\<lparr>cm_queue := q1\<rparr>, in_flight := None\<rparr>"
      using True cp by (simp add: finish_def flush_end_def nk)
    have "keys (fl_batch f) \<subseteq> stored (in_store s)" using K True by simp
    then obtain bs' where F': "wal.flow q1 bs' (stored (in_store s)) None (bf_events ?b) (bf_lastOffset ?b) (in_acc s)"
      using wal.flow_checkpoint [OF F _ cp] by blast
    have "commit_inv o0 ((in_log s)\<lparr>cm_queue := q1\<rparr>)"
      using commit_inv_step [OF commit_step.checkpoint C, of "fl_target f"] cp by simp
    then show ?thesis
      using F' unfolding e by (auto simp: ingest_inv_def outcome_ok_def in_detached_def release_credit_def)
  qed
qed

lemma ingest_inv_step: "ingest_step s s' \<Longrightarrow> ingest_inv o0 s \<Longrightarrow> ingest_inv o0 s'"
proof (induction rule: ingest_step.induct)
  case (settle s es d)
  then show ?case by (simp add: ingest_inv_def push_end_def)
next
  case (halt s x y)
  then show ?case by (simp add: ingest_inv_def)
qed (blast intro: ingest_inv_push ingest_inv_detach ingest_inv_insert ingest_inv_finish ingest_inv_logs)+

lemma ingest_inv_start:
  assumes "wal_inv q" "\<not> lossySync q" "waiters q = []" "framed q" "pend q = []" "bf_lastOffset b \<le> offset q"
    and "wal_durable o0 q"
  shows "ingest_inv o0 (ingest_start b q st)"
proof -
  have "log_holds q []" using assms unfolding log_holds_def by (intro conjI exI [of _ "[]"]) simp_all
  moreover have "pend_start q = offset q" using pend_start_end [OF assms(1)] assms(5) by simp
  ultimately have "wal.flow q [] (stored st) None (bf_events b) (bf_lastOffset b) []"
    using assms(6) by (simp add: wal.flow_def wal.mark_def)
  then show ?thesis
    using assms by (auto simp: ingest_inv_def ingest_start_def commit_inv_def commits_of_def outcome_ok_def in_detached_def)
qed

lemma ingest_inv_reachable:
  assumes "ingest_step\<^sup>*\<^sup>* (ingest_start b q st) s"
    and "wal_inv q" "\<not> lossySync q" "waiters q = []" "framed q" "pend q = []" "bf_lastOffset b \<le> offset q" "wal_durable o0 q"
  shows "ingest_inv o0 s"
  using assms(1)
proof (induction rule: rtranclp_induct)
  case base
  show ?case by (rule ingest_inv_start [OF assms(2-8)])
qed (rule ingest_inv_step)

section \<open>Nothing accepted is lost\<close>

text \<open>A batch and its offset are in the log: a frame with these events ends there.\<close>

definition frame_at :: "diskQueue \<Rightarrow> Event list \<Rightarrow> nat \<Rightarrow> bool" where
  "frame_at q es off \<longleftrightarrow> (\<exists>rs torn f. pend q = log_of rs @ torn \<and> list_all entry_ok rs
     \<and> (f, off) \<in> set (frame_ends (pend_start q) rs) \<and> events f = es)"

lemma log_holds_frame_at: "log_holds q bs \<Longrightarrow> (es, off) \<in> set bs \<Longrightarrow> frame_at q es off"
  unfolding log_holds_def frame_at_def batches_of_def by fastforce

text \<open>C2: In durable mode, whatever pushes, flushes, failing transactions (also those whose answer is
  lost), failing system calls, periodic and shared fsyncs and the close interleave: every batch that
  was accepted is at every moment either wholly in the database or still a frame of the log at its
  offset, and each of its events is in the database, in the batch being inserted or queued.\<close>

theorem accepted_never_lost:
  assumes "ingest_step\<^sup>*\<^sup>* (ingest_start b q st) s"
    and "wal_inv q" "\<not> lossySync q" "waiters q = []" "framed q" "pend q = []" "bf_lastOffset b \<le> offset q"
    and "(es, off) \<in> set (in_acc s)"
  shows "(keys es \<subseteq> stored (in_store s) \<or> frame_at (cm_queue (in_log s)) es off)
    \<and> keys es \<subseteq> stored (in_store s) \<union> keys (detached (in_detached s)) \<union> keys (bf_events (in_buf s))"
proof -
  have "ingest_inv (offset q) s"
    by (rule ingest_inv_reachable [OF assms(1-7) wal_durable_start [OF assms(2)]])
  then obtain bs where F: "wal.flow (cm_queue (in_log s)) bs (stored (in_store s)) (in_detached s)
      (bf_events (in_buf s)) (bf_lastOffset (in_buf s)) (in_acc s)"
    unfolding ingest_inv_def by blast
  then have "log_holds (cm_queue (in_log s)) bs"
    and A: "keys es \<subseteq> stored (in_store s) \<or> (es, off) \<in> set bs"
      "keys es \<subseteq> stored (in_store s) \<union> keys (detached (in_detached s)) \<union> keys (bf_events (in_buf s))"
    using assms(8) unfolding wal.flow_def by fastforce+
  then show ?thesis using log_holds_frame_at by blast
qed

text \<open>One event pushed into a new buffer over a new log, with a database that always commits.\<close>

definition empty_store :: store where
  "empty_store = \<lparr>st_db = \<lparr>db_events = [], db_recent = []\<rparr>, st_txs = []\<rparr>"

definition sample_start :: ingest where
  "sample_start = ingest_start (NewBuffer 10 5) (fresh_wal 100 1000) empty_store"

lemma sample_cost: "approxEventBytes sample_event \<le> 3000"
  using sample_batch_length by (simp add: approxEventBytes_def batch_frame_def)

lemma sample_push:
  obtains off q1 where "AppendBatch [sample_event] (fresh_wal 100 1000) = ((off, None), q1)" "\<not> lossySync q1"
    "in_acc (push [sample_event] sample_start) = [([sample_event], off)]"
    "cm_queue (in_log (push [sample_event] sample_start)) = q1"
    "bf_events (in_buf (push [sample_event] sample_start)) = [sample_event]"
    "bf_lastOffset (in_buf (push [sample_event] sample_start)) = off"
proof -
  have "length (print_json (batch_frame [sample_event])) < walWriterSize"
    using sample_batch_length by (simp add: walWriterSize_def)
  from fresh_append [OF this, of 1 100 1000] obtain off q1 where
    q1: "AppendBatch [sample_event] (fresh_wal 100 1000) = ((off, None), q1)" "\<not> lossySync q1"
    by (simp add: AppendBatch_def)
  have q0: "cm_queue (in_log sample_start) = fresh_wal 100 1000" "in_buf sample_start = NewBuffer 10 5"
    "in_acc sample_start = []" by (simp_all add: sample_start_def ingest_start_def commits_of_def)
  have "push_begin [sample_event] (NewBuffer 10 5) (Some (fresh_wal 100 1000))
    = (PushWait off, (NewBuffer 10 5)\<lparr>bf_events := [sample_event], bf_sizes := [approxEventBytes sample_event],
        bf_buffered := approxEventBytes sample_event, bf_lastOffset := off\<rparr>, Some q1)"
    using sample_cost q1 by (simp add: push_begin_def NewBuffer_def defaultMaxBufferedBytes_def Let_def)
  then show thesis using that [OF q1] by (simp add: push_def q0)
qed

theorem accepted_never_lost_witness:
  "\<exists>s off. ingest_step\<^sup>*\<^sup>* sample_start s \<and> in_acc s = [([sample_event], off)]
    \<and> (stored (in_store s) \<noteq> {} \<or> frame_at (cm_queue (in_log s)) [sample_event] off)"
proof -
  let ?s = "push [sample_event] sample_start"
  obtain off where a: "in_acc ?s = [([sample_event], off)]" by (rule sample_push)
  have r: "ingest_step\<^sup>*\<^sup>* sample_start ?s" by (intro r_into_rtranclp ingest_step.push sample_batch_ok)
  have "keys [sample_event] \<subseteq> stored (in_store ?s) \<or> frame_at (cm_queue (in_log ?s)) [sample_event] off"
    using accepted_never_lost [OF r [unfolded sample_start_def] fresh_wal_inv, of "[sample_event]" off] a fresh_wal_empty
    by (simp add: NewBuffer_def sample_start_def)
  then have "stored (in_store ?s) \<noteq> {} \<or> frame_at (cm_queue (in_log ?s)) [sample_event] off" by auto
  with r a show ?thesis by blast
qed

end
