(* ===== verification/WalRecover.thy ===== *)
theory WalRecover
  imports WalCommit WalProps
begin

text \<open>
  Restarting after a crash: the constructor of \<^verbatim>\<open>src/internal/ingest/queue.go\<close> on the directory that a
  crash left, composed with the replay.  First what the constructor does when no system call fails,
  then what a crash leaves of a log whose covered bytes are durable.
\<close>

section \<open>Discovery\<close>

text \<open>The directory holds the segments \<open>is\<close> and perhaps a checkpoint file.\<close>

definition dir_holds :: "disk \<Rightarrow> nat list \<Rightarrow> bool" where
  "dir_holds d is \<longleftrightarrow> distinct (map fst d) \<and> is \<noteq> [] \<and> sorted_wrt (<) is \<and> (\<forall>i \<in> set is. i < 2 ^ 63)
     \<and> fst ` set d - {checkpointName} = seg_file_name ` set is"

lemma parse_names:
  "parseSegmentFileName checkpointName = None"
  "0 < i \<Longrightarrow> i < 2 ^ 63 \<Longrightarrow> parseSegmentFileName (seg_file_name i) = Some i"
  "seg_file_name i = legacySegmentName \<longleftrightarrow> i = 0" "checkpointName \<noteq> legacySegmentName"
proof -
  show "parseSegmentFileName checkpointName = None"
    by (simp add: parseSegmentFileName_def checkpointName_def segmentFilePrefix_def has_prefix_def)
  show "0 < i \<Longrightarrow> i < 2 ^ 63 \<Longrightarrow> parseSegmentFileName (seg_file_name i) = Some i"
    using parse_segmentFileName [of i] by (simp add: seg_file_name_def)
  show "seg_file_name i = legacySegmentName \<longleftrightarrow> i = 0"
  proof -
    have "seg_file_name 0 = legacySegmentName" by (simp add: seg_file_name_def)
    then show ?thesis using seg_file_name_inj [of i 0] by metis
  qed
  show "checkpointName \<noteq> legacySegmentName" by (simp add: checkpointName_def legacySegmentName_def)
qed

lemma dir_holds_exists: "dir_holds d is \<Longrightarrow> file_exists d (seg_file_name i) \<longleftrightarrow> i \<in> set is"
proof -
  assume d: "dir_holds d is"
  have "file_exists d (seg_file_name i) \<longleftrightarrow> seg_file_name i \<in> fst ` set d"
    by (simp add: file_exists_def map_of_eq_None_iff)
  also have "\<dots> \<longleftrightarrow> seg_file_name i \<in> seg_file_name ` set is"
    using d unfolding dir_holds_def by (metis Diff_iff seg_file_name_not_checkpoint singletonD)
  finally show ?thesis using seg_file_name_inj by blast
qed

lemma set_map_filter: "set (List.map_filter f xs) = {y. \<exists>x \<in> set xs. f x = Some y}"
  by (force simp: List.map_filter_def)

lemma discover_ok:
  assumes "dir_holds d is"
  shows "discover (map fst d) = (0 \<in> set is, filter (\<lambda>i. 0 < i) is)"
proof -
  let ?names = "filter (\<lambda>n. n \<noteq> legacySegmentName) (map fst d)"
  have names: "n \<in> set ?names \<Longrightarrow> n = checkpointName \<or> (\<exists>i \<in> set is. 0 < i \<and> n = seg_file_name i)" for n
  proof -
    assume n: "n \<in> set ?names"
    show ?thesis
    proof (cases "n = checkpointName")
      case False
      then have "n \<in> seg_file_name ` set is" using n assms by (auto simp: dir_holds_def)
      then obtain i where "i \<in> set is" "n = seg_file_name i" by blast
      then show ?thesis using n parse_names(3) by auto
    qed simp
  qed
  have p: "n \<in> set ?names \<Longrightarrow> parseSegmentFileName n = Some i \<Longrightarrow> n = seg_file_name i \<and> 0 < i \<and> i \<in> set is" for n i
    using names [of n] assms parse_names(1,2) by (auto simp: dir_holds_def)
  let ?found = "List.map_filter parseSegmentFileName ?names"
  have s: "set ?found = {i \<in> set is. 0 < i}"
  proof
    show "set ?found \<subseteq> {i \<in> set is. 0 < i}"
      unfolding set_map_filter using p by blast
    show "{i \<in> set is. 0 < i} \<subseteq> set ?found"
    proof clarify
      fix i assume i: "i \<in> set is" "0 < i"
      have "seg_file_name i \<in> fst ` set d" using assms i(1) by (auto simp: dir_holds_def)
      then have "seg_file_name i \<in> set ?names" using i(2) parse_names(3) by simp
      moreover have "parseSegmentFileName (seg_file_name i) = Some i"
        using assms i parse_names(2) by (simp add: dir_holds_def)
      ultimately show "i \<in> set ?found" unfolding set_map_filter by blast
    qed
  qed
  have "distinct ?found"
    unfolding List.map_filter_def distinct_map
  proof
    show "distinct (filter (\<lambda>x. parseSegmentFileName x \<noteq> None) ?names)"
      using assms by (simp add: dir_holds_def)
    show "inj_on (the \<circ> parseSegmentFileName) (set (filter (\<lambda>x. parseSegmentFileName x \<noteq> None) ?names))"
    proof (rule inj_onI)
      fix x y
      assume xy: "x \<in> set (filter (\<lambda>x. parseSegmentFileName x \<noteq> None) ?names)"
        "y \<in> set (filter (\<lambda>x. parseSegmentFileName x \<noteq> None) ?names)"
        "(the \<circ> parseSegmentFileName) x = (the \<circ> parseSegmentFileName) y"
      then obtain i where "parseSegmentFileName x = Some i" "parseSegmentFileName y = Some i" by auto
      then show "x = y" using p [of x i] p [of y i] xy(1,2) by auto
    qed
  qed
  moreover have "sorted is" "distinct is" using assms by (auto simp: dir_holds_def strict_sorted_iff)
  ultimately have "sort ?found = filter (\<lambda>i. 0 < i) is"
    by (intro sorted_distinct_set_unique) (auto simp: s sorted_wrt_filter)
  moreover have "legacySegmentName \<in> set (map fst d) \<longleftrightarrow> 0 \<in> set is"
    using dir_holds_exists [OF assms, of 0]
    by (simp add: file_exists_def map_of_eq_None_iff seg_file_name_def)
  ultimately show ?thesis by (simp add: discover_def)
qed

section \<open>The segment table and the checkpoint\<close>

fun table_from :: "(nat \<Rightarrow> nat) \<Rightarrow> nat \<Rightarrow> nat list \<Rightarrow> walSegment list" where
  "table_from f b [] = []"
| "table_from f b (i # js) =
     \<lparr>seg_idx = i, seg_base = b, seg_size = f i, seg_name = seg_file_name i\<rparr> # table_from f (b + f i) js"

lemma table_from_idx [simp]: "map seg_idx (table_from f b is) = is"
  by (induction f b "is" rule: table_from.induct) simp_all

lemma table_from_chained: "chained b (table_from f b is)"
  by (induction f b "is" rule: table_from.induct) simp_all

lemma table_from_mem: "s \<in> set (table_from f b is) \<Longrightarrow>
    seg_idx s \<in> set is \<and> seg_size s = f (seg_idx s) \<and> seg_name s = seg_file_name (seg_idx s)"
  by (induction f b "is" rule: table_from.induct) auto

lemma table_from_Nil [simp]: "table_from f b is = [] \<longleftrightarrow> is = []"
  by (cases "is") simp_all

lemma table_from_hd: "is \<noteq> [] \<Longrightarrow> seg_base (hd (table_from f b is)) = b \<and> seg_idx (hd (table_from f b is)) = hd is"
  by (cases "is") simp_all

lemma table_from_last: "is \<noteq> [] \<Longrightarrow> seg_idx (last (table_from f b is)) = last is"
  by (metis last_map table_from_Nil table_from_idx)

lemma table_from_ok: "is \<noteq> [] \<Longrightarrow> sorted_wrt (<) is \<Longrightarrow> table_ok (table_from f b is)"
  using table_from_chained [of b f "is"] by (simp add: table_ok_def table_from_hd)

lemma table_from_find:
  assumes "i \<in> set is" "distinct is"
  shows "\<exists>s. s \<in> set (table_from f b is) \<and> seg_idx s = i
    \<and> find (\<lambda>s. seg_idx s = i) (table_from f b is) = Some s
    \<and> find (\<lambda>s. seg_idx s = i) (rev (table_from f b is)) = Some s"
proof -
  have "i \<in> seg_idx ` set (table_from f b is)" using assms(1) by (metis list.set_map table_from_idx)
  then obtain s where s: "s \<in> set (table_from f b is)" "seg_idx s = i" by blast
  have d: "distinct (map seg_idx (table_from f b is))" using assms(2) by simp
  then have "distinct (map seg_idx (rev (table_from f b is)))" by (simp add: rev_map [symmetric])
  then have "find (\<lambda>s. seg_idx s = i) (rev (table_from f b is)) = Some s"
    using find_unique [of seg_idx "rev (table_from f b is)" s] s by auto
  moreover have "find (\<lambda>s. seg_idx s = i) (table_from f b is) = Some s" using find_unique [OF d, of s] s by auto
  ultimately show ?thesis using s by blast
qed

lemma build_table_ok:
  "env w = [] \<Longrightarrow> build_table a sz b is w = (Some (table_from
     (\<lambda>i. if i = a then sz else length (file_data (dir w) (seg_file_name i))) b is), w)"
  by (induction "is" arbitrary: b) (simp_all add: os_call_ok' Let_def)

definition cp_on_disk :: "disk \<Rightarrow> nat \<Rightarrow> nat \<Rightarrow> bool" where
  "cp_on_disk d cs co \<longleftrightarrow> (if file_exists d checkpointName
     then parse_checkpoint (file_data d checkpointName) = Inr (cs, co) else cs = 0 \<and> co = 0)"

text \<open>The position ends a record of a segment of the table.\<close>

definition cp_boundary :: "disk \<Rightarrow> nat list \<Rightarrow> nat \<Rightarrow> nat \<Rightarrow> bool" where
  "cp_boundary d is cs co \<longleftrightarrow> cs \<in> set is \<and> co \<le> length (file_data d (seg_file_name cs))
     \<and> (co = 0 \<or> file_data d (seg_file_name cs) ! (co - 1) = nl)"

lemma adopt_ok:
  assumes e: "env w = []" and c: "cp_on_disk (dir w) cs co" and b: "cp_boundary (dir w) is cs co"
    and d: "distinct is" and x: "file_exists (dir w) (seg_file_name cs)"
    and sz: "f cs = length (file_data (dir w) (seg_file_name cs))"
  shows "adopt_checkpoint (table_from f bs is) w = (Inr (cs, co), w)"
proof -
  have r: "readCheckpoint w = (Inr (cs, co), w)"
    using c by (auto simp: readCheckpoint_def cp_on_disk_def os_call_ok' [OF e])
  obtain s where s: "s \<in> set (table_from f bs is)" "seg_idx s = cs"
    "find (\<lambda>s. seg_idx s = cs) (table_from f bs is) = Some s"
    "find (\<lambda>s. seg_idx s = cs) (rev (table_from f bs is)) = Some s"
    using table_from_find [OF _ d, of cs f bs] b unfolding cp_boundary_def by blast
  have n: "seg_size s = f cs" "seg_name s = seg_file_name cs" using table_from_mem [OF s(1)] s(2) by auto
  have k: "segmentExists cs (table_from f bs is)" "\<not> co > segmentSize cs (table_from f bs is)"
    using s n sz b by (auto simp: segmentExists_def segmentSize_def list_ex_iff cp_boundary_def)
  have v: "validateCheckpointBoundary cs co (table_from f bs is) w = (None, w)"
  proof (cases "co = 0")
    case False
    let ?d = "file_data (dir w) (seg_file_name cs)"
    have l: "co - 1 + 1 \<le> length ?d" and nlc: "?d ! (co - 1) = nl" using b False by (auto simp: cp_boundary_def)
    have "take 1 (drop (co - 1) ?d) = [?d ! (co - 1)]"
      using l by (metis One_nat_def Suc_eq_plus1 Suc_le_eq hd_drop_conv_nth length_drop less_diff_conv
          list.size(3) not_less_zero take_Suc take0 zero_less_diff)
    then show ?thesis
      using False x s(4) n nlc read_ok [OF e l] by (simp add: validateCheckpointBoundary_def os_call_ok' [OF e])
  qed (simp add: validateCheckpointBoundary_def)
  show ?thesis by (simp add: adopt_checkpoint_def r k v)
qed

section \<open>The constructor on a directory\<close>

definition disk_io :: "disk \<Rightarrow> wal_io" where
  "disk_io d = \<lparr>env = [], dir = d, wname = [], wopen = False, wbuf = [], werr = False\<rparr>"

definition repaired :: "nat \<Rightarrow> disk \<Rightarrow> disk" where
  "repaired a d = (let n = seg_file_name a; p = complete_prefix (file_data d n) in
     if ends_nl (file_data d n) then d else put_file n p (min (length p) (file_synced d n)) d)"

lemma repaired_data: "file_data (repaired a d) n
    = (if n = seg_file_name a then complete_prefix (file_data d n) else file_data d n)"
  by (simp add: repaired_def Let_def put_file_other_if complete_prefix_id)

lemma repaired_exists: "file_exists d (seg_file_name a) \<Longrightarrow> file_exists (repaired a d) n = file_exists d n"
  by (auto simp: repaired_def Let_def put_file_other_if)

lemma discovered_order:
  assumes "is \<noteq> []" "sorted_wrt (<) (is :: nat list)"
  shows "(if 0 \<in> set is then 0 # filter (\<lambda>i. 0 < i) is else if filter (\<lambda>i. 0 < i) is = [] then [0]
      else filter (\<lambda>i. 0 < i) is) = is"
    and "(if filter (\<lambda>i. 0 < i) is = [] then 0 else last (filter (\<lambda>i. 0 < i) is)) = last is"
proof -
  obtain i js where c: "is = i # js" using assms(1) by (cases "is") auto
  have js: "filter (\<lambda>i. 0 < i) js = js" using assms(2) c by (auto simp: filter_id_conv)
  show "(if 0 \<in> set is then 0 # filter (\<lambda>i. 0 < i) is else if filter (\<lambda>i. 0 < i) is = [] then [0]
      else filter (\<lambda>i. 0 < i) is) = is"
    using assms(2) js by (cases "i = 0") (auto simp: c)
  show "(if filter (\<lambda>i. 0 < i) is = [] then 0 else last (filter (\<lambda>i. 0 < i) is)) = last is"
    using js by (cases "i = 0") (simp_all add: c)
qed

lemma reopen_ok:
  assumes H: "dir_holds d is" and lim: "0 < mb" "mb \<le> mt"
    and c: "cp_on_disk d cs co" and b: "cp_boundary (repaired (last is) d) is cs co"
  shows "fst (newDiskQueueWithDirSync depth (int mb) (int mt) (disk_io d))
    = Inr (opened mb mt (last is)
        (table_from (\<lambda>i. length (file_data (repaired (last is) d) (seg_file_name i))) 0 is) (cs, co)
        ((disk_io d)\<lparr>dir := repaired (last is) d\<rparr>))"
proof -
  let ?w = "disk_io d" and ?a = "last is"
  have e: "env ?w = []" and dr: "dir ?w = d" by (simp_all add: disk_io_def)
  have ne: "is \<noteq> []" and so: "sorted_wrt (<) is" using H by (simp_all add: dir_holds_def)
  note disc = discover_ok [OF H] and ord = discovered_order [OF ne so]
  have x: "file_exists d (seg_file_name i)" if "i \<in> set is" for i using dir_holds_exists [OF H] that by simp
  have cr: "os_create (seg_file_name ?a) ?w = (True, ?w)"
    using x ne by (simp add: os_create_def os_call_ok' [OF e] dr)
  let ?w1 = "?w\<lparr>dir := repaired ?a d\<rparr>" and ?n = "length (complete_prefix (file_data d (seg_file_name ?a)))"
  have rp: "repairTornTail (seg_file_name ?a) (length (file_data d (seg_file_name ?a))) ?w = (TornKeep ?n, ?w1)"
    using repair_ok [OF e, of "seg_file_name ?a"] by (simp add: dr repaired_def Let_def disk_io_def)
  have e1: "env ?w1 = []" "dir ?w1 = repaired ?a d" using e by simp_all
  let ?f = "\<lambda>i. length (file_data (repaired ?a d) (seg_file_name i))"
  have f: "(\<lambda>i. if i = ?a then ?n else ?f i) = ?f" by (auto simp: repaired_data)
  have bt: "build_table ?a ?n 0 is ?w1 = (Some (table_from ?f 0 is), ?w1)"
    unfolding build_table_ok [OF e1(1)] e1(2) f by (rule refl)
  have cpd: "cp_on_disk (dir ?w1) cs co"
    using c x ne seg_file_name_not_checkpoint [of ?a]
    by (auto simp: cp_on_disk_def repaired_exists repaired_data simp del: seg_file_name_not_checkpoint)
  have xx: "file_exists (dir ?w1) (seg_file_name cs)"
    using b x ne by (simp add: cp_boundary_def repaired_exists)
  have ad: "adopt_checkpoint (table_from ?f 0 is) ?w1 = (Inr (cs, co), ?w1)"
    using adopt_ok [OF e1(1) cpd _ _ xx, of "is" ?f 0] b so e1(2)
    by (simp add: strict_sorted_iff)
  have ord': "(if (0 \<in> set is) then 0 # filter (\<lambda>i. 0 < i) is else if filter (\<lambda>i. 0 < i) is = [] then [0]
      else filter (\<lambda>i. 0 < i) is) = is" by (rule ord(1))
  have leg: "(if 0 \<in> set is then os_call ?w1 else (True, ?w1)) = (True, ?w1)" using os_call_ok' [OF e1(1)] by simp
  show ?thesis
    unfolding newDiskQueueWithDirSync_def os_call_ok' [OF e] prod.case dr disc Let_def
      ord cr syncQueueDirs_ok [OF e] rp torn_result.case leg bt ad option.case sum.case
    using lim by simp
qed

section \<open>The opened log\<close>

definition piece :: "nat \<Rightarrow> nat \<Rightarrow> nat \<Rightarrow> bytes \<Rightarrow> bytes" where
  "piece cs co i b = (if i < cs then [] else if i = cs then drop co b else b)"

lemma pend_pieces: "pend q = concat (map (\<lambda>s. piece (cpSeg q) (cpOff q) (seg_idx s) (seg_bytes (qio q) s)) (segments q))"
proof -
  have "pend_seg (cpSeg q) (cpOff q) (qio q) = (\<lambda>s. piece (cpSeg q) (cpOff q) (seg_idx s) (seg_bytes (qio q) s))"
    by (rule ext) (simp add: pend_seg_def piece_def)
  then show ?thesis by (simp add: pend_def)
qed

lemma sorted_le_last: "sorted_wrt (<) (is :: nat list) \<Longrightarrow> i \<in> set is \<Longrightarrow> i \<le> last is"
  by (cases "is" rule: rev_cases) (auto simp: sorted_wrt_append)

lemma mem_butlast: "x \<in> set xs \<Longrightarrow> x \<noteq> last xs \<Longrightarrow> x \<in> set (butlast xs)"
  by (cases xs rule: rev_cases) auto

lemma gc_env: "env (qio q) = [] \<Longrightarrow> env (qio (gcSegmentsLocked q)) = []"
proof (induction q rule: gcSegmentsLocked.induct)
  case (1 q)
  show ?case
  proof (cases "length (segments q) \<le> 1 \<or> \<not> cpSeg q > seg_idx (hd (segments q))")
    case True
    then show ?thesis using "1.prems" by (subst gcSegmentsLocked.simps) (auto simp: Let_def)
  next
    case False
    obtain ok w1 where r: "os_remove (seg_name (hd (segments q))) (qio q) = (ok, w1)" by fastforce
    have e: "env w1 = []" using r "1.prems" by (auto simp: os_remove_def os_call_ok' split: if_splits)
    have "snd (syncDir w1) = w1" using e by (simp add: syncDir_def os_calls_ok)
    with 1 False r e show ?thesis by (subst gcSegmentsLocked.simps) (auto simp: Let_def)
  qed
qed

lemma gc_io: "wopen (qio (gcSegmentsLocked q)) = wopen (qio q)" "werr (qio (gcSegmentsLocked q)) = werr (qio q)"
  using gcSegments_spec [of q] by (auto simp: drops_def io_drop_def)

lemma opened_facts:
  fixes mb mt :: nat
  assumes H: "dir_holds d is" and y: "\<And>n. file_synced d n \<le> length (file_data d n)"
    and b: "cp_boundary (repaired (last is) d) is cs co"
    and sealed: "\<And>i. i \<in> set (butlast is) \<Longrightarrow> ends_nl (file_data d (seg_file_name i))"
  defines "q \<equiv> opened mb mt (last is)
    (table_from (\<lambda>i. length (file_data (repaired (last is) d) (seg_file_name i))) 0 is) (cs, co)
    ((disk_io d)\<lparr>dir := repaired (last is) d\<rparr>)"
  shows "wal_inv q" "framed q" "\<not> stopped q" "env (qio q) = []" "\<not> werr (qio q)" "wopen (qio q)"
    and "pend q = concat (map (\<lambda>i. piece cs co i (file_data (repaired (last is) d) (seg_file_name i))) is)"
proof -
  let ?d = "repaired (last is) d"
  let ?f = "\<lambda>i. length (file_data ?d (seg_file_name i))"
  let ?ss = "table_from ?f 0 is"
  have ne: "is \<noteq> []" and so: "sorted_wrt (<) is" using H by (simp_all add: dir_holds_def)
  have di: "distinct is" using so by (simp add: strict_sorted_iff)
  have x: "file_exists ?d (seg_file_name i) \<longleftrightarrow> i \<in> set is" for i
    using dir_holds_exists [OF H] ne by (simp add: repaired_exists)
  define q0 where "q0 = \<lparr>qio = (disk_io d)\<lparr>dir := ?d, wname := seg_file_name (last is), wopen := True,
      wbuf := [], werr := False\<rparr>, maxBytes = mb, maxTotalBytes = mt, segments = ?ss, activeIdx = last is,
    offset = segmentEnd (last is) ?ss, cpSeg = cs, cpOff = co, stopped = False,
    dirtySinceFlush = False, droppedUnackedSegments = 0, droppedUnackedBytes = 0,
    lossySync = False, groupDelay = DefaultGroupCommitDelay, waiters = [], syncedOffset = 0,
    refusedHighWater = 0, unsyncedEvents = 0, lastErr = None\<rparr>"
  have q: "q = gcSegmentsLocked (q0\<lparr>syncedOffset := cpLogical q0\<rparr>)"
    by (simp add: q_def q0_def opened_def Let_def)
  have sb: "seg_bytes (qio q0) s = file_data ?d (seg_name s)" for s
    by (simp add: seg_bytes_def wbytes_def q0_def)
  have segs: "segments q0 = ?ss" "cpSeg q0 = cs" "cpOff q0 = co" by (simp_all add: q0_def)
  have mem: "s \<in> set ?ss \<Longrightarrow> seg_idx s \<in> set is \<and> seg_size s = ?f (seg_idx s) \<and> seg_name s = seg_file_name (seg_idx s)"
    for s by (rule table_from_mem)
  have T: "table_ok ?ss" by (rule table_from_ok [OF ne so])
  obtain l where l: "l \<in> set ?ss" "seg_idx l = last is" "find (\<lambda>s. seg_idx s = last is) ?ss = Some l"
    using table_from_find [OF _ di, of "last is" ?f 0] ne by auto
  have la: "last ?ss \<in> set ?ss" "seg_idx (last ?ss) = last is" using ne table_from_last by simp_all
  then have ll: "l = last ?ss" using l di by (metis distinct_map inj_onD table_from_idx)
  obtain c where c: "c \<in> set ?ss" "seg_idx c = cs" "find (\<lambda>s. seg_idx s = cs) ?ss = Some c"
    using table_from_find [OF _ di, of cs ?f 0] b unfolding cp_boundary_def by blast
  have co: "co \<le> seg_size c" using mem [OF c(1)] c(2) b by (simp add: cp_boundary_def)
  have off: "offset q0 = seg_base l + seg_size l" using l by (simp add: q0_def segmentEnd_def)
  have cl: "cpLogical q0 = seg_base c + co" using c by (simp add: q0_def cpLogical_def)
  have chn: "chained 0 ?ss" by (rule table_from_chained)
  have "seg_base c + seg_size c \<le> totalBytes ?ss" using chained_seg_le [OF chn c(1)] by simp
  then have le: "cpLogical q0 \<le> offset q0"
    using cl co off chained_end [OF chn] ne ll by simp
  have sy: "synced_ok (qio q0)"
    using y by (simp add: synced_ok_def q0_def repaired_def Let_def put_file_other_if)
  have fut: "file_data ?d (seg_file_name i) = []" if "i > last is" for i
  proof -
    have "i \<notin> set is" using that sorted_le_last [OF so] by force
    then have "\<not> file_exists ?d (seg_file_name i)" using x by simp
    then show ?thesis by (auto simp: file_exists_def file_data_def)
  qed
  have "wal_inv q0"
    unfolding wal_inv_def
  proof (intro conjI ballI allI impI)
    show "table_ok (segments q0)" using T by (simp add: q0_def)
    show "seg_ok (qio q0) s" if "s \<in> set (segments q0)" for s
      using mem [of s] x that sb [of s] by (simp add: seg_ok_def q0_def)
    show "activeIdx q0 = seg_idx (last (segments q0))" using la by (simp add: q0_def)
    show "wname (qio q0) = seg_name (last (segments q0))" using la mem by (simp add: q0_def)
    show "offset q0 = seg_base (last (segments q0)) + seg_size (last (segments q0))"
      using off ll by (simp add: q0_def)
    show "synced_ok (qio q0)" by (rule sy)
    show "syncedOffset q0 \<le> offset q0" by (simp add: q0_def)
    show "cp_ok (cpSeg q0) (cpOff q0) (segments q0)" using c co by (auto simp: cp_ok_def q0_def)
    show "file_data (dir (qio q0)) (seg_file_name i) = []" if "activeIdx q0 < i" for i
      using fut that by (simp add: q0_def)
  qed
  then have I: "wal_inv (q0\<lparr>syncedOffset := cpLogical q0\<rparr>)" using le by (simp add: wal_inv_def)
  show "wal_inv q" unfolding q by (rule gcSegments_inv [OF I])
  have nls: "ends_nl (file_data ?d (seg_file_name i))" if "i \<in> set is" for i
  proof (cases "i = last is")
    case True
    then show ?thesis by (simp add: repaired_data complete_prefix_ends)
  next
    case False
    then have "seg_file_name i \<noteq> seg_file_name (last is)" using seg_file_name_inj by blast
    then show ?thesis using sealed [OF mem_butlast [OF that False]] by (simp add: repaired_data)
  qed
  have "framed (q0\<lparr>syncedOffset := cpLogical q0\<rparr>)"
    using nls mem by (simp add: framed_def sb segs)
  then show "framed q" unfolding q by (rule gcSegments_framed [OF I])
  show "\<not> stopped q" "env (qio q) = []" "\<not> werr (qio q)" "wopen (qio q)"
    unfolding q by (simp_all add: frame_simps gc_io, simp_all add: gc_env q0_def disk_io_def)
  have "pend q = pend (q0\<lparr>syncedOffset := cpLogical q0\<rparr>)" unfolding q by (rule gcSegments_pend [OF I])
  also have "\<dots> = concat (map (\<lambda>s. piece cs co (seg_idx s) (file_data ?d (seg_file_name (seg_idx s)))) ?ss)"
    using mem by (auto simp: pend_pieces sb segs intro!: arg_cong [of _ _ concat])
  also have "\<dots> = concat (map (\<lambda>i. piece cs co i (file_data ?d (seg_file_name i))) (map seg_idx ?ss))"
    by (simp add: comp_def del: table_from_idx)
  finally show "pend q = concat (map (\<lambda>i. piece cs co i (file_data ?d (seg_file_name i))) is)" by simp
qed

section \<open>What a crash leaves\<close>

lemma complete_prefix_ge:
  assumes "p < length x" "x ! p = nl"
  shows "p + 1 \<le> length (complete_prefix x)"
proof (cases "nl \<in> set (drop (p + 1) x)")
  case True
  then show ?thesis using complete_prefix_append(1) [of "drop (p + 1) x" "take (p + 1) x"] assms(1) by simp
next
  case False
  have "last (take (p + 1) x) = nl" using assms by (simp add: take_Suc_conv_app_nth)
  then have "complete_prefix (take (p + 1) x) = take (p + 1) x"
    by (intro complete_prefix_id) (simp add: ends_nl_def)
  then show ?thesis
    using complete_prefix_append(2) [OF False, of "take (p + 1) x"] assms(1) by simp
qed

text \<open>The checkpoint lies on a record boundary of a segment, and its bytes are covered.\<close>

definition cp_sound :: "diskQueue \<Rightarrow> bool" where
  "cp_sound q \<longleftrightarrow> segmentExists (cpSeg q) (segments q) \<and> cpLogical q \<le> syncedOffset q
     \<and> (\<forall>s \<in> set (segments q). seg_idx s = cpSeg q \<longrightarrow> cpOff q = 0 \<or> seg_bytes (qio q) s ! (cpOff q - 1) = nl)"

lemma sealed_survives:
  assumes I: "wal_inv q" and D: "wal_durable 0 q" and c: "crashed (dir (qio q)) d"
    and s: "s \<in> set (butlast (segments q))"
  shows "file_data d (seg_name s) = seg_bytes (qio q) s"
proof -
  have "wname (qio q) = seg_name (last (segments q))" "distinct (map seg_name (segments q))" "segments q \<noteq> []"
    using I wal_inv_names_distinct by (auto simp: wal_inv_def table_ok_def)
  then have ne: "seg_name s \<noteq> wname (qio q)"
    using s by (cases "segments q" rule: rev_cases) (auto, metis imageI)
  have "s \<in> set (segments q)" using s by (rule in_set_butlastD)
  then have l: "seg_size s = length (file_data (dir (qio q)) (seg_name s))"
    using I ne by (auto simp: wal_inv_def seg_ok_def seg_bytes_def)
  have "seg_size s \<le> file_synced (dir (qio q)) (seg_name s)"
    using D s by (cases "seg_size s = 0") (auto simp: wal_durable_def)
  moreover obtain k where "k \<ge> file_synced (dir (qio q)) (seg_name s)"
    "file_data d (seg_name s) = take k (file_data (dir (qio q)) (seg_name s))"
    using c unfolding crashed_def by blast
  ultimately show ?thesis using l ne by (simp add: seg_bytes_def)
qed

text \<open>Of the active segment the complete records within a prefix survive; the prefix has everything covered.\<close>

lemma active_survives:
  assumes I: "wal_inv q" and D: "wal_durable 0 q" and c: "crashed (dir (qio q)) d"
  defines "a \<equiv> last (segments q)"
  obtains j where "complete_prefix (file_data d (seg_name a)) = take j (seg_bytes (qio q) a)"
    "j = length (complete_prefix (file_data d (seg_name a)))"
    "\<And>p. seg_base a + p + 1 \<le> syncedOffset q \<Longrightarrow> seg_bytes (qio q) a ! p = nl \<Longrightarrow> p + 1 \<le> j"
proof -
  let ?f = "file_data (dir (qio q)) (seg_name a)" and ?B = "seg_bytes (qio q) a"
  have n: "wname (qio q) = seg_name a" and off: "offset q = seg_base a + seg_size a" "syncedOffset q \<le> offset q"
    using I by (simp_all add: wal_inv_def a_def)
  have B: "?B = ?f @ wbuf (qio q)" by (simp add: seg_bytes_def wbytes_def n)
  obtain k where k: "k \<ge> file_synced (dir (qio q)) (seg_name a)" "file_data d (seg_name a) = take k ?f"
    using c unfolding crashed_def by blast
  obtain j where j: "j \<le> length (take k ?f)" "complete_prefix (take k ?f) = take j (take k ?f)"
    using complete_prefix_take by blast
  have sy: "file_synced (dir (qio q)) (seg_name a) \<le> length ?f" using I by (simp add: wal_inv_def synced_ok_def)
  show thesis
  proof (rule that [of j])
    show "complete_prefix (file_data d (seg_name a)) = take j ?B"
      using j by (simp add: k(2) B)
    show "j = length (complete_prefix (file_data d (seg_name a)))" using j by (simp add: k(2))
    show "p + 1 \<le> j" if p: "seg_base a + p + 1 \<le> syncedOffset q" "?B ! p = nl" for p
    proof -
      have "syncedOffset q \<le> seg_base a + file_synced (dir (qio q)) (seg_name a)"
        using D p(1) off by (simp add: wal_durable_def covered_to_def a_def)
      then have "p < file_synced (dir (qio q)) (seg_name a)" using p(1) by simp
      then have "p < length (take k ?f)" "take k ?f ! p = nl"
        using k(1) sy p(2) by (simp_all add: B nth_append)
      from complete_prefix_ge [OF this] show ?thesis using j by simp
    qed
  qed
qed

lemma ends_nl_concat: "(\<And>x. x \<in> set xs \<Longrightarrow> ends_nl x) \<Longrightarrow> ends_nl (concat xs)"
proof (induction xs)
  case (Cons x xs)
  then have "ends_nl x" "ends_nl (concat xs)" by simp_all
  then show ?case by (cases "concat xs = []") (auto simp: ends_nl_def)
qed (simp add: ends_nl_def)

lemma framed_pend: "framed q \<Longrightarrow> ends_nl (pend q)"
  unfolding pend_pieces
  by (rule ends_nl_concat) (auto simp: framed_def piece_def ends_nl_drop, simp add: ends_nl_def)

lemma piece_take: "\<exists>m. piece cs co i (take j b) = take m (piece cs co i b)"
  by (cases "i = cs") (auto simp: piece_def drop_take)

text \<open>What is pending after the restart is a prefix of what was pending, and has all that was covered.\<close>

lemma crash_pend:
  assumes I: "wal_inv q" and D: "wal_durable 0 q" and c: "crashed (dir (qio q)) d" and cp: "cp_sound q"
  defines "a \<equiv> last (map seg_idx (segments q))"
  defines "p \<equiv> concat (map (\<lambda>i. piece (cpSeg q) (cpOff q) i (file_data (repaired a d) (seg_file_name i)))
    (map seg_idx (segments q)))"
  shows "\<exists>m. p = take m (pend q)"
    and "0 < n \<Longrightarrow> n \<le> length (pend q) \<Longrightarrow> pend_start q + n \<le> syncedOffset q \<Longrightarrow> pend q ! (n - 1) = nl
      \<Longrightarrow> n \<le> length p"
    and "cp_boundary (repaired a d) (map seg_idx (segments q)) (cpSeg q) (cpOff q)"
proof -
  let ?cs = "cpSeg q" and ?co = "cpOff q"
  obtain ss l where ss: "segments q = ss @ [l]"
    using I by (cases "segments q" rule: rev_cases) (auto simp: wal_inv_def table_ok_def)
  have a: "a = seg_idx l" by (simp add: a_def ss)
  have names: "seg_name s = seg_file_name (seg_idx s)" if "s \<in> set (segments q)" for s
    using I that by (simp add: wal_inv_def seg_ok_def)
  have idx: "seg_idx s < seg_idx l" if "s \<in> set ss" for s
    using I that by (auto simp: wal_inv_def table_ok_def ss sorted_wrt_append)
  obtain j where j: "complete_prefix (file_data d (seg_name l)) = take j (seg_bytes (qio q) l)"
    "j = length (complete_prefix (file_data d (seg_name l)))"
    "\<And>p. seg_base l + p + 1 \<le> syncedOffset q \<Longrightarrow> seg_bytes (qio q) l ! p = nl \<Longrightarrow> p + 1 \<le> j"
    using active_survives [OF I D c] by (auto simp: ss)
  let ?B = "seg_bytes (qio q) l"
  have jle: "j \<le> length ?B" using j(1,2) by (metis length_take min.cobounded1)
  have dl: "file_data (repaired a d) (seg_name l) = take j ?B"
    using names [of l] j(1) by (simp add: repaired_data a ss)
  have ds: "file_data (repaired a d) (seg_name s) = seg_bytes (qio q) s" if "s \<in> set ss" for s
  proof -
    have "seg_idx s \<noteq> a" using idx [OF that] a by simp
    then have "seg_name s \<noteq> seg_file_name a" using names [of s] that seg_file_name_inj by (auto simp: ss)
    then show ?thesis using sealed_survives [OF I D c, of s] that by (simp add: repaired_data ss)
  qed
  define P where "P = concat (map (\<lambda>s. piece ?cs ?co (seg_idx s) (seg_bytes (qio q) s)) ss)"
  have pq: "pend q = P @ piece ?cs ?co a ?B" by (simp add: pend_pieces ss P_def a)
  have "map (\<lambda>i. piece ?cs ?co i (file_data (repaired a d) (seg_file_name i))) (map seg_idx ss)
    = map (\<lambda>s. piece ?cs ?co (seg_idx s) (seg_bytes (qio q) s)) ss"
    using ds names by (auto simp: ss)
  then have ps: "concat (map (\<lambda>i. piece ?cs ?co i (file_data (repaired a d) (seg_file_name i))) (map seg_idx ss)) = P"
    by (simp only: P_def)
  have na: "seg_file_name a = seg_name l" using names [of l] by (simp add: a ss)
  have "map seg_idx (segments q) = map seg_idx ss @ [a]" by (simp add: ss a)
  then have pp: "p = P @ piece ?cs ?co a (take j ?B)"
    unfolding p_def using ps by (simp add: na dl del: map_map)
  obtain m where m: "piece ?cs ?co a (take j ?B) = take m (piece ?cs ?co a ?B)"
    using piece_take by blast
  show "\<exists>m. p = take m (pend q)" by (rule exI [of _ "length P + m"]) (simp add: pp pq m)
  have csa: "?cs \<le> a"
    using cp_ok_le_last [of "segments q" ?cs ?co] I by (simp add: wal_inv_def a_def ss)
  define co' where "co' = (if ?cs = a then ?co else 0)"
  have pb: "piece ?cs ?co a b = drop co' b" for b using csa by (auto simp: piece_def co'_def)
  have szl: "seg_size l = length ?B" using I by (simp add: wal_inv_def seg_ok_def ss)
  have col: "co' \<le> length ?B"
    using cp_ok_in [of "segments q" ?cs ?co l] I szl by (auto simp: wal_inv_def co'_def a ss)
  have "length (pend q) = offset q - pend_start q" "pend_start q \<le> offset q" "offset q = seg_base l + seg_size l"
    using pend_length [OF I] pend_suffix(3) [OF I] I by (simp_all add: wal_inv_def ss)
  then have st: "pend_start q + length P = seg_base l + co'"
    using col szl by (simp add: pq pb)
  show "n \<le> length p" if n: "0 < n" "n \<le> length (pend q)" "pend_start q + n \<le> syncedOffset q" "pend q ! (n - 1) = nl"
  proof (rule ccontr)
    assume no: "\<not> n \<le> length p"
    then have lt: "length P < n" by (simp add: pp)
    define k where "k = n - 1 - length P + co'"
    have "\<not> n - 1 < length P" using lt by linarith
    then have "pend q ! (n - 1) = drop co' ?B ! (n - 1 - length P)" by (simp only: pq pb nth_append if_False)
    also have "\<dots> = ?B ! k" using col by (simp add: k_def add.commute)
    finally have "?B ! k = nl" using n(4) by simp
    moreover have "seg_base l + k + 1 \<le> syncedOffset q" using n(3) st lt by (simp add: k_def)
    ultimately have "k + 1 \<le> j" using j(3) by blast
    then have "n \<le> length p" using lt jle by (simp add: pp pb k_def)
    then show False using no by simp
  qed
  obtain c where cc: "c \<in> set (segments q)" "seg_idx c = ?cs"
    using cp by (auto simp: cp_sound_def segmentExists_def list_ex_iff)
  have nlc: "?co = 0 \<or> seg_bytes (qio q) c ! (?co - 1) = nl" using cp cc by (auto simp: cp_sound_def)
  have sz: "?co \<le> seg_size c" "seg_size c = length (seg_bytes (qio q) c)"
    using cp_ok_in [of "segments q" ?cs ?co c] I cc by (auto simp: wal_inv_def seg_ok_def)
  show "cp_boundary (repaired a d) (map seg_idx (segments q)) ?cs ?co"
  proof (cases "?cs = a")
    case True
    then have cl: "c = l" using cc idx [of c] a by (auto simp: ss)
    have "cpLogical q = seg_base l + ?co"
      using find_unique [OF table_ok_distinct, of "segments q" c ?cs] cc cl I
      by (simp add: cpLogical_def wal_inv_def)
    then have "?co \<le> j" using j(3) [of "?co - 1"] cp nlc cl by (cases "?co = 0") (auto simp: cp_sound_def)
    moreover have "?co = 0 \<or> take j ?B ! (?co - 1) = nl" using nlc cl calculation by (cases "?co = 0") auto
    moreover have "a \<in> set (map seg_idx (segments q))" using cc True by (metis image_eqI list.set_map)
    ultimately show ?thesis using True jle by (simp add: cp_boundary_def na dl)
  next
    case False
    then have "c \<in> set ss" using cc a by (auto simp: ss)
    then have "file_data (repaired a d) (seg_file_name ?cs) = seg_bytes (qio q) c"
      using ds [of c] names [OF cc(1)] cc(2) by simp
    moreover have "?cs \<in> set (map seg_idx (segments q))" using cc by (metis image_eqI list.set_map)
    ultimately show ?thesis using nlc sz by (simp add: cp_boundary_def)
  qed
qed

section \<open>Recovery\<close>

lemma log_of_prefix:
  assumes ok: "list_all entry_ok rs" and p: "log_of xs = take m (log_of rs)" "rs = xs @ ys"
    and ge: "\<And>n. 0 < n \<Longrightarrow> n \<le> length (log_of rs) \<Longrightarrow> b + n \<le> y \<Longrightarrow> log_of rs ! (n - 1) = nl \<Longrightarrow> n \<le> length (log_of xs)"
    and n: "n \<le> length rs" "b + length (log_of (take n rs)) \<le> y"
  shows "n \<le> length xs"
proof (rule ccontr)
  assume no: "\<not> n \<le> length xs"
  let ?t = "log_of (take n rs)"
  have e: "log_of rs = ?t @ log_of (drop n rs)" by (metis append_take_drop_id log_of_simps(3))
  have "take n rs \<noteq> []" using no n by (cases rs) auto
  then obtain zs r f where z: "take n rs = zs @ [(r, f)]" by (metis rev_exhaust surj_pair)
  then have t: "?t = (log_of zs @ r) @ [nl]" by simp
  have "log_of rs ! (length ?t - 1) = nl" unfolding e t by (simp add: nth_append)
  moreover have "0 < length ?t" "length ?t \<le> length (log_of rs)" using t e by simp_all
  ultimately have le: "length ?t \<le> length (log_of xs)" using ge n(2) by blast
  have "take n rs = xs @ take (n - length xs) ys" using no p(2) by simp
  moreover have "take (n - length xs) ys \<noteq> []" using no n(1) p(2) by (cases ys) auto
  ultimately have "length ?t > length (log_of xs)"
    by (cases "take (n - length xs) ys") (auto simp: log_of_def)
  then show False using le by simp
qed

text \<open>The restarted queue, and which of the frames it has.\<close>

lemma crash_reopened:
  fixes mb mt :: nat
  assumes I: "wal_inv q" and F: "framed q" and D: "wal_durable 0 q" and cp: "cp_sound q"
    and c: "crashed (dir (qio q)) d" "dir_holds d (map seg_idx (segments q))" "cp_on_disk d (cpSeg q) (cpOff q)"
    and lim: "0 < mb" "mb \<le> mt" and p: "pend q = log_of rs" "list_all entry_ok rs"
  shows "\<exists>q' m. fst (newDiskQueueWithDirSync depth (int mb) (int mt) (disk_io d)) = Inr q'
    \<and> (wal_inv q' \<and> framed q' \<and> \<not> stopped q' \<and> env (qio q') = [] \<and> \<not> werr (qio q') \<and> wopen (qio q'))
    \<and> pend q' = log_of (take m rs)
    \<and> (\<forall>n \<le> length rs. pend_start q + length (log_of (take n rs)) \<le> syncedOffset q \<longrightarrow> n \<le> m)"
proof -
  let ?is = "map seg_idx (segments q)"
  define q' where "q' = opened mb mt (last ?is)
    (table_from (\<lambda>i. length (file_data (repaired (last ?is) d) (seg_file_name i))) 0 ?is) (cpSeg q, cpOff q)
    ((disk_io d)\<lparr>dir := repaired (last ?is) d\<rparr>)"
  note P = crash_pend [OF I D c(1) cp]
  have y: "file_synced d n \<le> length (file_data d n)" for n using c(1) by (simp add: crashed_def)
  have s: "ends_nl (file_data d (seg_file_name i))" if bi: "i \<in> set (butlast ?is)" for i
  proof -
    obtain g where g: "g \<in> set (butlast (segments q))" "i = seg_idx g" 
      using bi unfolding map_butlast [symmetric] set_map by blast
    then have m: "g \<in> set (segments q)" by (simp add: in_set_butlastD)
    then have "seg_name g = seg_file_name i" using I g(2) by (simp add: wal_inv_def seg_ok_def)
    then show ?thesis using sealed_survives [OF I D c(1) g(1)] F m by (simp add: framed_def)
  qed
  have new: "fst (newDiskQueueWithDirSync depth (int mb) (int mt) (disk_io d)) = Inr q'"
    unfolding q'_def by (rule reopen_ok [OF c(2) lim c(3) P(3)])
  note O = opened_facts [OF c(2) y P(3) s, of mb mt, folded q'_def]
  obtain m where m: "pend q' = take m (log_of rs)" using P(1) O(7) p(1) by auto
  have "log_of rs = pend q' @ drop m (log_of rs)" by (simp add: m)
  from log_of_split [OF p(2) this framed_pend [OF O(2)]]
  obtain xs ys where xs: "rs = xs @ ys" "log_of xs = pend q'" by auto
  have "n \<le> length xs"
    if "n \<le> length rs" "pend_start q + length (log_of (take n rs)) \<le> syncedOffset q" for n
    by (rule log_of_prefix [OF p(2) _ xs(1) _ that]) (use m xs(2) P(2) p(1) O(7) in auto)
  moreover have "xs = take (length xs) rs" using xs(1) by simp
  ultimately show ?thesis using new O(1-6) xs(2) by metis
qed


text \<open>A log with one flushed and covered frame.\<close>

definition flushed_wal :: "nat \<Rightarrow> nat \<Rightarrow> bytes \<Rightarrow> diskQueue" where
  "flushed_wal mb mt raw = snd (groupFlush (snd (appendFrame raw 1 (fresh_wal mb mt))))"

lemma flushed_wal_eq:
  assumes "length raw < walWriterSize"
  shows "flushed_wal mb mt raw = \<lparr>qio = \<lparr>env = [],
       dir = [(legacySegmentName, \<lparr>f_data = raw @ [nl], f_synced = length raw + 1\<rparr>)],
       wname = legacySegmentName, wopen = True, wbuf = [], werr = False\<rparr>,
     maxBytes = mb, maxTotalBytes = mt,
     segments = [\<lparr>seg_idx = 0, seg_base = 0, seg_size = length raw + 1, seg_name = legacySegmentName\<rparr>],
     activeIdx = 0, offset = length raw + 1, cpSeg = 0, cpOff = 0, stopped = False, dirtySinceFlush = False,
     droppedUnackedSegments = 0, droppedUnackedBytes = 0, lossySync = False,
     groupDelay = DefaultGroupCommitDelay, waiters = [], syncedOffset = length raw + 1,
     refusedHighWater = 0, unsyncedEvents = 0, lastErr = None\<rparr>"
  unfolding flushed_wal_def fresh_append [OF assms] snd_conv
  by (simp add: groupFlush_def fresh_wal_def bufio_flush_def os_write_def next_io_def
    append_file_def put_file_def file_data_def file_synced_def os_sync_def os_call_def)

lemma flushed_wal_facts:
  assumes "length raw < walWriterSize"
  shows "pend (flushed_wal mb mt raw) = raw @ [nl]" "framed (flushed_wal mb mt raw)"
    "wal_inv (flushed_wal mb mt raw)" "wal_durable 0 (flushed_wal mb mt raw)"
    "pend_start (flushed_wal mb mt raw) = 0"
proof -
  let ?q1 = "snd (appendFrame raw 1 (fresh_wal mb mt))"
  have K1: "keeps (fresh_wal mb mt) ?q1" by (rule keeps_append [OF fresh_wal_inv])
  then have W: "wal_inv ?q1" by (simp add: keeps_def)
  have K: "keeps (fresh_wal mb mt) (flushed_wal mb mt raw)"
    unfolding flushed_wal_def by (rule keeps_trans [OF K1 groupFlush_keeps(1) [OF W]])
  then show "wal_inv (flushed_wal mb mt raw)" by (simp add: keeps_def)
  have "wal_durable 0 (fresh_wal mb mt)" using wal_durable_start [OF fresh_wal_inv, of mb mt] by simp
  then show "wal_durable 0 (flushed_wal mb mt raw)" using K unfolding keeps_def by blast
  show "pend (flushed_wal mb mt raw) = raw @ [nl]" "framed (flushed_wal mb mt raw)"
    "pend_start (flushed_wal mb mt raw) = 0"
    unfolding flushed_wal_eq [OF assms]
    by (simp_all add: pend_def pend_seg_def seg_bytes_def wbytes_def file_data_def framed_def ends_nl_def
        pend_start_def log_base_def cpLogical_def)
qed


section \<open>A roll that fails while flushing\<close>

lemma buffered_append:
  assumes "length r0 < walWriterSize" "length r1 < walWriterSize" "length r0 + length r1 + 2 \<le> mb"
  shows "appendFrame r1 n (flushed_wal mb mt r0) = ((length r0 + length r1 + 2, None),
    (flushed_wal mb mt r0)\<lparr>qio := (qio (flushed_wal mb mt r0))\<lparr>wbuf := r1 @ [nl]\<rparr>,
       offset := length r0 + length r1 + 2,
       segments := [\<lparr>seg_idx = 0, seg_base = 0, seg_size = length r0 + length r1 + 2, seg_name = legacySegmentName\<rparr>],
       dirtySinceFlush := True, unsyncedEvents := n\<rparr>)"
proof -
  have "length r1 \<le> walMaxFrameBytes" using assms(2) by (simp add: walWriterSize_def walMaxFrameBytes_def)
  moreover have "bufio_write (r1 @ [nl]) (qio (flushed_wal mb mt r0))
      = (length r1 + 1, True, (qio (flushed_wal mb mt r0))\<lparr>wbuf := r1 @ [nl]\<rparr>)"
    using assms(2) by (subst bufio_write.simps) (simp add: flushed_wal_eq [OF assms(1)])
  ultimately show ?thesis
    using assms(3) unfolding flushed_wal_eq [OF assms(1)]
    by (simp add: appendFrame_def append_write_def grow_def set_last_def Let_def)
qed

text \<open>The disk after the flush of the roll stopped after one byte of the second frame.\<close>

definition torn_disk :: "bytes \<Rightarrow> char \<Rightarrow> disk" where
  "torn_disk r0 c = [(legacySegmentName, \<lparr>f_data = r0 @ [nl, c], f_synced = length r0 + 1\<rparr>),
     (segmentFileName 1, \<lparr>f_data = [], f_synced = 0\<rparr>)]"

lemma failed_roll:
  assumes "length r0 < walWriterSize" "length r1 < walWriterSize" "length r2 \<le> walMaxFrameBytes" "r1 = c # t"
    and "length r0 + length r1 + 2 \<le> mb" "mb < length r0 + length r1 + length r2 + 3"
    and "length r0 + length r1 + length r2 + 3 \<le> mt"
  shows "\<exists>q2. appendFrame r2 1 ((snd (appendFrame r1 1 (flushed_wal mb mt r0)))
      \<lparr>qio := (qio (snd (appendFrame r1 1 (flushed_wal mb mt r0))))\<lparr>env := [IoOk, IoOk, IoOk, IoOk, IoErr 1]\<rparr>\<rparr>)
    = ((length r0 + length r1 + 2, Some ErrRollFlush), q2)
    \<and> dir (qio q2) = torn_disk r0 c \<and> lastErr q2 = Some ErrRollFlush"
proof -
  have ne: "segmentFileName (Suc 0) \<noteq> legacySegmentName"
    using parse_names(3) [of 1] by (simp add: seg_file_name_def)
  show ?thesis
    unfolding buffered_append [OF assms(1,2,5)] snd_conv
    unfolding flushed_wal_eq [OF assms(1)]
    using assms(3-7) ne ne [symmetric]
    by (simp add: appendFrame_def gcSegmentsLocked.simps totalBytes_def rollLocked_def os_create_def os_call_def
        next_io_def syncDir_def eval_nat_numeral bufio_flush_def os_write_def latch_def setErrLocked_def
        file_exists_def put_file_def append_file_def file_data_def file_synced_def torn_disk_def Let_def)
qed

lemma torn_brace: "decodeWALFrame ''{'' = Inl BadJson"
  by code_simp

lemma torn_scan_fails:
  assumes "entry_ok (r0, f)" "fst (fn f (p + length r0 + 1) st)"
  shows "fst (scan_loop fn (r0 @ [nl, CHR ''{'']) p st) = Some (SE_Corrupt BadJson)"
proof -
  have ok: "r0 \<noteq> []" "nl \<notin> set r0" "drop_cr r0 = r0" "length r0 < scannerMax"
    "decodeWALFrame r0 = Inr f" "has_identity f"
    using assms(1) by (auto simp: entry_ok_def drop_cr_def)
  have b: "CHR ''{'' \<noteq> nl" "CHR ''{'' \<noteq> cr" by code_simp+
  have tw: "takeWhile (\<lambda>c. c \<noteq> nl) (r0 @ [nl, CHR ''{'']) = r0"
    using ok(2) by (subst takeWhile_append2) auto
  have t: "fst (scan_loop fn ''{'' p' st') = Some (SE_Corrupt BadJson)" for p' st'
    by (subst scan_loop.simps) (simp add: b drop_cr_def torn_brace scannerMax_def Let_def)
  show ?thesis
    by (subst scan_loop.simps) (use ok assms(2) t in \<open>auto simp: tw Let_def split: prod.splits\<close>)
qed

lemma torn_disk_opens:
  assumes "0 < mb" "mb \<le> mt"
  shows "fst (newDiskQueueWithDirSync depth (int mb) (int mt) (disk_io (torn_disk r0 c)))
    = Inr (opened mb mt 1 [\<lparr>seg_idx = 0, seg_base = 0, seg_size = length r0 + 2, seg_name = legacySegmentName\<rparr>,
        \<lparr>seg_idx = 1, seg_base = length r0 + 2, seg_size = 0, seg_name = segmentFileName 1\<rparr>] (0, 0)
        (disk_io (torn_disk r0 c)))"
proof -
  let ?d = "torn_disk r0 c"
  have n: "seg_file_name 0 = legacySegmentName" "seg_file_name 1 = segmentFileName 1" by (simp_all add: seg_file_name_def)
  have ne: "segmentFileName 1 \<noteq> legacySegmentName" "checkpointName \<noteq> legacySegmentName" "checkpointName \<noteq> segmentFileName 1"
    using parse_names(3) [of 1] parse_names(4) seg_file_name_not_checkpoint [of 1] n(2) by auto
  have H: "dir_holds ?d [0, 1]"
    using ne by (auto simp: dir_holds_def torn_disk_def seg_file_name_def)
  have fd: "file_data ?d (seg_file_name 1) = []" "file_data ?d (seg_file_name 0) = r0 @ [nl, c]"
    using ne by (simp_all add: file_data_def torn_disk_def seg_file_name_def)
  have r: "repaired 1 ?d = ?d" unfolding repaired_def Let_def fd by (simp add: ends_nl_def)
  have cp: "cp_on_disk ?d 0 0" using ne by (simp add: cp_on_disk_def file_exists_def torn_disk_def)
  have b: "cp_boundary ?d [0, 1] 0 0" by (simp add: cp_boundary_def)
  show ?thesis
    using reopen_ok [OF H assms cp, of depth] b r fd n(1) fd [simplified] n(2) [simplified]
    by (simp add: disk_io_def)
qed



end
