(* ===== verification/IngestRecovery.thy ===== *)
theory IngestRecovery
  imports IngestFlow WalRecover
begin

text \<open>
  Restarting the ingest path: \<^verbatim>\<open>AttachQueue\<close> of \<^verbatim>\<open>src/internal/ingest/buffer.go\<close> replays a log into the
  database, and composed with the crash and the reopening of the log nothing acknowledged is lost.
\<close>

section \<open>The replay leaves the log as it is\<close>

lemma env_exI [simp]: "\<exists>e. w\<lparr>env := x\<rparr> = w\<lparr>env := e\<rparr>" "\<exists>e. w = w\<lparr>env := e\<rparr>"
proof -
  show "\<exists>e. w\<lparr>env := x\<rparr> = w\<lparr>env := e\<rparr>" by blast
  have "w = w\<lparr>env := env w\<rparr>" by simp
  then show "\<exists>e. w = w\<lparr>env := e\<rparr>" by blast
qed

lemma stream_file_env: "\<exists>e. snd (stream_file fn name start pos st w) = w\<lparr>env := e\<rparr>"
proof -
  have n: "next_io w = (fst (next_io w), w\<lparr>env := tl (env w)\<rparr>)" for w
    using os_call_eq [of w] by (simp add: os_call_def split: prod.splits)
  show ?thesis
    unfolding stream_file_def os_call_eq
    by (subst n) (auto simp: Let_def split: io.split prod.split option.split)
qed

lemma stream_segs_env: "\<exists>e. snd (stream_segs fn cs co ss st w) = w\<lparr>env := e\<rparr>"
proof (induction ss arbitrary: st w)
  case Nil
  show ?case by (intro exI [of _ "env w"]) simp
next
  case (Cons s ss)
  obtain r st' w' where f: "stream_file fn (seg_name s) (if seg_idx s = cs then co else 0)
      (seg_base s + (if seg_idx s = cs then co else 0)) st w = ((r, st'), w')" by (metis prod.collapse)
  obtain e where e: "w' = w\<lparr>env := e\<rparr>" using stream_file_env f by (metis snd_conv)
  show ?case
  proof (cases r)
    case None
    obtain e' where "snd (stream_segs fn cs co ss st' w') = w'\<lparr>env := e'\<rparr>" using Cons by blast
    then show ?thesis using Cons [of st w] f None by (auto simp: Let_def e)
  next
    case (Some x)
    then show ?thesis using Cons [of st w] f by (auto simp: Let_def e)
  qed
qed

lemma streamFrames_quiet:
  assumes I: "wal_inv q"
  shows "quiet q (snd (streamFrames fn st q))"
proof -
  obtain ok w1 where f: "bufio_flush (qio q) = (ok, w1)" by fastforce
  obtain e where e: "snd (stream_segs fn (cpSeg q) (cpOff q) (segments q) st w1) = w1\<lparr>env := e\<rparr>"
    using stream_segs_env [of fn "cpSeg q" "cpOff q" "segments q" st w1] by blast
  have s: "io_same (qio q) w1" by (rule io_same_flush [OF f])
  have "quiet q q" using quiet_io [OF I io_same_refl] by simp
  then show ?thesis
    using quiet_io [OF I s] quiet_io [OF I io_same_trans [OF s io_same_env]] e
    by (auto simp: streamFrames_def f split: prod.splits)
qed

section \<open>Recovering a log\<close>

lemma flush_recovered_keys:
  assumes "flush_recovered r = (ok, r')"
  shows "stored (rc_store r) \<subseteq> stored (rc_store r')"
    and "ok \<Longrightarrow> rc_chunk r' = [] \<and> keys (rc_chunk r) \<subseteq> stored (rc_store r')"
proof -
  obtain n k s where b: "insertBatch (rc_chunk r) (rc_store r) = ((n, k), s)" by (metis prod.collapse)
  note B = insertBatch_keys [OF b]
  show "stored (rc_store r) \<subseteq> stored (rc_store r')"
    "ok \<Longrightarrow> rc_chunk r' = [] \<and> keys (rc_chunk r) \<subseteq> stored (rc_store r')"
    using assms B b by (auto simp: flush_recovered_def split: if_splits)
qed

lemma recover_frame_keys:
  assumes "recover_frame es r = (ok, r')"
  shows "stored (rc_store r) \<subseteq> stored (rc_store r')"
    and "ok \<Longrightarrow> keys (rc_chunk r) \<union> keys es \<subseteq> stored (rc_store r') \<union> keys (rc_chunk r')"
  using assms flush_recovered_keys [of "r\<lparr>rc_chunk := rc_chunk r @ es\<rparr>" ok r']
  by (auto simp: recover_frame_def Let_def split: if_splits)

abbreviation recover_consumer :: "walFrame \<Rightarrow> nat \<Rightarrow> recovery \<Rightarrow> bool \<times> recovery" where
  "recover_consumer \<equiv> (\<lambda>f off s. if isRecords f then (False, s) else recover_frame (events f) s)"

lemma deliver_recover:
  assumes "deliver recover_consumer xs r = (res, r')"
  shows "stored (rc_store r) \<subseteq> stored (rc_store r')
    \<and> (res = None \<longrightarrow> keys (rc_chunk r) \<union> keys (concat (map (events \<circ> fst) xs)) \<subseteq> stored (rc_store r') \<union> keys (rc_chunk r'))"
  using assms
proof (induction xs arbitrary: r)
  case (Cons x xs)
  obtain f p where x: "x = (f, p)" by fastforce
  show ?case
  proof (cases "isRecords f")
    case False
    obtain ok r1 where r1: "recover_frame (events f) r = (ok, r1)" by fastforce
    note R = recover_frame_keys [OF r1]
    show ?thesis
    proof (cases ok)
      case True
      then have "deliver recover_consumer xs r1 = (res, r')" using Cons.prems False r1 by (simp add: x)
      from Cons.IH [OF this] R True show ?thesis by (auto simp: x)
    qed (use Cons.prems False r1 R in \<open>auto simp: x\<close>)
  qed (use Cons.prems in \<open>auto simp: x\<close>)
qed auto

lemma frame_ends_events: "concat (map (events \<circ> fst) (frame_ends p rs)) = events_of rs"
  by (induction rs arbitrary: p) (auto simp: events_of_def)

lemma Checkpoint_all:
  assumes I: "wal_inv q" and st: "\<not> stopped q" and c: "Checkpoint (offset q) q = (None, q')"
  shows "pend q' = []"
proof (cases "offset q \<le> cpLogical q")
  case True
  then show ?thesis using cp_past_end [OF I True] c st by (simp add: Checkpoint_def)
next
  case False
  then have "cp_effect (offset q) q q'" using Checkpoint_spec(1) [OF I c _ st] by simp
  then show ?thesis using pend_length [OF I] by (simp add: cp_effect_def)
qed

lemma attach_aux:
  assumes I: "wal_inv q" "framed q" "\<not> stopped q" "env (qio q) = []" "\<not> werr (qio q)" "wopen (qio q)"
    and p: "pend q = log_of rs" "list_all entry_ok rs"
    and a: "AttachQueue att q st b = (r, b', q', st')"
  shows "wal_inv q' \<and> stored st \<subseteq> stored st' \<and> bf_events b' = bf_events b
    \<and> (pend q' = pend q \<or> keys (events_of rs) \<subseteq> stored st')
    \<and> (r = None \<longrightarrow> keys (events_of rs) \<subseteq> stored st' \<and> pend q' = [] \<and> bf_lastOffset b' = offset q' \<and> \<not> att)"
proof -
  let ?r0 = "\<lparr>rc_chunk = [], rc_store = st, rc_recovered = 0\<rparr>"
  obtain e rc q1 where sp: "StreamPending recover_frame ?r0 q = ((e, rc), q1)" by (metis prod.collapse)
  have sf: "streamFrames recover_consumer ?r0 q = ((e, rc), q1)" using sp by (simp add: StreamPending_def)
  have "quiet q q1" using streamFrames_quiet [OF I(1), of recover_consumer ?r0] unfolding sf by simp
  then have Q: "wal_inv q1" "pend q1 = pend q" "offset q1 = offset q" "stopped q1 = stopped q"
    by (simp_all add: quiet_def same_config_def)
  have "deliver recover_consumer (frame_ends (pend_start q) rs) ?r0 = (e, rc)"
    using streamFrames_log [OF I p, of recover_consumer ?r0] unfolding sf by simp
  from deliver_recover [OF this]
  have D: "stored st \<subseteq> stored (rc_store rc)"
    "e = None \<Longrightarrow> keys (events_of rs) \<subseteq> stored (rc_store rc) \<union> keys (rc_chunk rc)"
    by (simp_all add: frame_ends_events)
  show ?thesis
  proof (cases e)
    case (Some x)
    then have "r = Some (AttachReplay x)" "b' = b" "q' = q1" "st' = rc_store rc"
      using a sp by (simp_all add: AttachQueue_def)
    then show ?thesis using Q D(1) by simp
  next
    case None
    obtain ok r1 where f: "flush_recovered rc = (ok, r1)" by fastforce
    note F = flush_recovered_keys [OF f]
    have S: "stored st \<subseteq> stored (rc_store r1)" using D(1) F(1) by blast
    show ?thesis
    proof (cases ok)
      case False
      then have "r = Some AttachCommit" "b' = b" "q' = q1" "st' = rc_store r1"
        using a sp None f by (simp_all add: AttachQueue_def)
      then show ?thesis using Q S by simp
    next
      case True
      then have K: "keys (events_of rs) \<subseteq> stored (rc_store r1)" using D(2) [OF None] F by blast
      obtain ce q2 where c: "Checkpoint (offset q1) q1 = (ce, q2)" by fastforce
      have E: "(r, b', q', st') = (if att then (Some AttachTwice, b\<lparr>bf_replayed := bf_replayed b + rc_recovered r1\<rparr>, q1, rc_store r1)
        else case ce of Some e \<Rightarrow> (Some (AttachCheckpoint e), b\<lparr>bf_replayed := bf_replayed b + rc_recovered r1\<rparr>, q2, rc_store r1)
          | None \<Rightarrow> (None, b\<lparr>bf_replayed := bf_replayed b + rc_recovered r1, bf_lastOffset := offset q2\<rparr>, q2, rc_store r1))"
        using a sp None f True c by (cases att; cases ce) (simp_all add: AttachQueue_def Let_def)
      have "wal_inv q2"
      proof (cases "offset q1 \<le> cpLogical q1")
        case True
        then show ?thesis using c Q I(3) by (simp add: Checkpoint_def)
      next
        case False
        then show ?thesis
          using Checkpoint_spec(1) [OF Q(1) c] Q I(3) by (auto simp: cp_effect_def quiet_def)
      qed
      moreover have "ce = None \<Longrightarrow> pend q2 = []" using Checkpoint_all [OF Q(1), of q2] c Q I(3) by simp
      ultimately show ?thesis
        using E K S Q(1,2) by (cases att; cases ce) simp_all
    qed
  qed
qed

section \<open>When no call fails\<close>

lemma env_ok:
  assumes "env w = []"
  shows "env (snd (os_create n w)) = []" "env (snd (os_remove n w)) = []" "env (snd (syncDir w)) = []"
    "env (snd (bufio_flush w)) = []" "env (snd (os_sync w)) = []" "env (snd (os_call w)) = []"
  using assms
  by (auto simp: os_create_def os_remove_def syncDir_def os_calls_ok os_call_ok' bufio_flush_def os_write_def
      next_io_def append_file_def os_sync_def split: prod.splits)

lemma flush_sync_ok:
  assumes "env w = []" "\<not> werr w" "wopen w"
  shows "\<exists>w1 w2. bufio_flush w = (True, w1) \<and> os_sync w1 = (True, w2) \<and> env w2 = []"
  using assms by (auto simp: bufio_flush_def os_write_def next_io_def append_file_def os_sync_def os_call_def Let_def)

lemma enforce_env: "env (qio q) = [] \<Longrightarrow> env (qio (enforceCap_loop n q)) = []"
proof (induction n q rule: enforceCap_loop.induct)
  case (1 n q)
  obtain ok w1 where rm: "os_remove (seg_name (hd (segments q))) (qio q) = (ok, w1)" by fastforce
  have "env w1 = []" using env_ok(2) [OF 1(2), of "seg_name (hd (segments q))"] rm by simp
  then show ?case
    using 1 rm env_ok(3) [of w1] by (subst enforceCap_loop.simps) (auto simp: Let_def)
qed

lemma env_okD:
  "os_create n w = (ok, w1) \<Longrightarrow> env w = [] \<Longrightarrow> env w1 = []" "syncDir w = (ok, w1) \<Longrightarrow> env w = [] \<Longrightarrow> env w1 = []"
  "bufio_flush w = (ok, w1) \<Longrightarrow> env w = [] \<Longrightarrow> env w1 = []" "os_sync w = (ok, w1) \<Longrightarrow> env w = [] \<Longrightarrow> env w1 = []"
  "os_call w = (ok, w1) \<Longrightarrow> env w = [] \<Longrightarrow> env w1 = []"
  by (metis env_ok snd_conv)+

lemma roll_env:
  assumes "env (qio q) = []"
  shows "env (qio (snd (rollLocked q))) = []"
proof -
  obtain ok1 w1 where c1: "os_create (segmentFileName (activeIdx q + 1)) (qio q) = (ok1, w1)" by fastforce
  obtain ok2 w2 where c2: "os_call w1 = (ok2, w2)" by fastforce
  obtain ok3 w3 where c3: "syncDir w2 = (ok3, w3)" by fastforce
  obtain ok4 w4 where c4: "bufio_flush w3 = (ok4, w4)" by fastforce
  obtain ok5 w5 where c5: "os_sync w4 = (ok5, w5)" by fastforce
  obtain ok6 w6 where c6: "os_call w5 = (ok6, w6)" by fastforce
  note e1 = env_okD(1) [OF c1 assms] note e2 = env_okD(5) [OF c2 e1] note e3 = env_okD(2) [OF c3 e2]
  note e4 = env_okD(3) [OF c4 e3] note e5 = env_okD(4) [OF c5 e4] note e6 = env_okD(5) [OF c6 e5]
  show ?thesis
    unfolding rollLocked_def Let_def c1 c2 c3 c4 c5 c6 prod.case
    using e1 e2 e3 e4 e5 e6 by (auto simp: latch_eq enforceCapLocked_def switch_file_def intro!: enforce_env)
qed

lemma writeCheckpoint_ok: "env (qio q) = [] \<Longrightarrow> \<exists>q'. writeCheckpoint sg off q = (True, q') \<and> env (qio q') = []"
  by (simp add: writeCheckpoint_def atomicWrite0600_def os_calls_ok Let_def)

lemma Checkpoint_ok:
  assumes e: "env (qio q) = []" "\<not> werr (qio q)" "wopen (qio q)" and st: "\<not> stopped q"
  shows "fst (Checkpoint t q) = None"
proof -
  obtain w1 w2 where f: "bufio_flush (qio q) = (True, w1)" "os_sync w1 = (True, w2)" "env w2 = []"
    using flush_sync_ok [OF e] by blast
  have R: "fst (checkpoint_reclaim p) = None" if "env (qio p) = []" for p
  proof -
    obtain r p1 where r: "rollLocked p = (r, p1)" by fastforce
    then have "env (qio p1) = []" using roll_env [OF that] by simp
    from writeCheckpoint_ok [OF this] obtain p2 where "writeCheckpoint (activeIdx p1) 0 p1 = (True, p2)" by blast
    with r show ?thesis by (cases r) (simp_all add: checkpoint_reclaim_def Let_def)
  qed
  let ?q2 = "q\<lparr>qio := w2, syncedOffset := offset q, unsyncedEvents := 0\<rparr>"
  obtain sg off where l: "logicalToPos (if t > offset q then offset q else t) ?q2 = (sg, off)" by fastforce
  obtain q3 where w: "writeCheckpoint sg off ?q2 = (True, q3)" "env (qio q3) = []"
    using writeCheckpoint_ok [of ?q2 sg off] f(3) by auto
  have "env (qio (gcSegmentsLocked (q3\<lparr>cpSeg := sg, cpOff := off\<rparr>))) = []" by (rule gc_env) (simp add: w)
  from R [OF this] show ?thesis using st f l w by (simp add: Checkpoint_def Let_def)
qed

lemma stream_file_quiet: "env w = [] \<Longrightarrow> snd (stream_file fn name start pos st w) = w"
  by (simp add: stream_file_def os_call_ok' os_ok_simps Let_def split: prod.split option.split)

lemma stream_segs_quiet: "env w = [] \<Longrightarrow> snd (stream_segs fn cs co ss st w) = w"
proof (induction ss arbitrary: st)
  case (Cons s ss)
  then show ?case
    using stream_file_quiet [OF Cons.prems, of fn "seg_name s"]
    by (auto simp: Let_def split: prod.split option.split) (metis snd_conv)+
qed simp

lemma streamFrames_io:
  fixes fn :: "'s consumer" and st :: 's
  assumes "env (qio q) = []" "\<not> werr (qio q)" "wopen (qio q)"
  defines "q1 \<equiv> snd (streamFrames fn st q)"
  shows "env (qio q1) = [] \<and> \<not> werr (qio q1) \<and> wopen (qio q1)"
proof -
  have "\<exists>w1. bufio_flush (qio q) = (True, w1) \<and> env w1 = [] \<and> \<not> werr w1 \<and> wopen w1"
    using assms(1-3) by (cases "wbuf (qio q) = []") (auto simp: bufio_flush_def os_write_def next_io_def append_file_def)
  then obtain w1 where w1: "bufio_flush (qio q) = (True, w1)" "env w1 = []" "\<not> werr w1" "wopen w1" by blast
  show ?thesis
    using assms(1-3) w1 stream_segs_quiet [OF w1(2), of fn "cpSeg q" "cpOff q" "segments q" st]
    by (auto simp: q1_def streamFrames_def split: prod.split)
qed

lemma insert_chunk_commits: "st_txs s = [] \<Longrightarrow> \<exists>s'. insert_chunk es s = (True, s') \<and> st_txs s' = []"
  by (simp add: insert_chunk_def next_tx_def Let_def)

lemma insert_loop_commits: "st_txs s = [] \<Longrightarrow> \<exists>n s'. insert_loop es c s = ((n, True), s') \<and> st_txs s' = []"
proof (induction es c s rule: insert_loop.induct)
  case (1 es c s)
  obtain s1 where s1: "insert_chunk (take insertChunkSize es) s = (True, s1)" "st_txs s1 = []"
    using insert_chunk_commits [OF 1(2)] by blast
  show ?case
  proof (cases "es = []")
    case False
    show ?thesis using 1(1) [OF False s1(1) [symmetric] _ s1(2)] s1 False by (subst insert_loop.simps) simp
  qed (use 1(2) in \<open>simp add: insert_loop.simps\<close>)
qed

lemma flush_recovered_commits:
  assumes "st_txs (rc_store r) = []"
  shows "\<exists>r'. flush_recovered r = (True, r') \<and> st_txs (rc_store r') = []"
proof -
  obtain n s where "insertBatch (rc_chunk r) (rc_store r) = ((n, True), s)" "st_txs s = []"
    using insert_loop_commits [OF assms, of "rc_chunk r" 0] unfolding insertBatch_def by blast
  then show ?thesis using assms by (simp add: flush_recovered_def)
qed

lemma deliver_commits:
  "st_txs (rc_store r) = [] \<Longrightarrow> \<forall>x \<in> set xs. \<not> isRecords (fst x)
    \<Longrightarrow> \<exists>r'. deliver recover_consumer xs r = (None, r') \<and> st_txs (rc_store r') = []"
proof (induction xs arbitrary: r)
  case (Cons x xs)
  obtain f p where x: "x = (f, p)" by fastforce
  have "\<exists>r1. recover_frame (events f) r = (True, r1) \<and> st_txs (rc_store r1) = []"
    using flush_recovered_commits [of "r\<lparr>rc_chunk := rc_chunk r @ events f\<rparr>"] Cons.prems(1)
    by (simp add: recover_frame_def Let_def)
  then obtain r1 where "recover_frame (events f) r = (True, r1)" "st_txs (rc_store r1) = []" by blast
  then show ?case using Cons.IH [of r1] Cons.prems(2) by (simp add: x)
qed simp

lemma frame_ends_fst: "fst ` set (frame_ends p rs) = snd ` set rs"
  by (induction p rs rule: frame_ends.induct) auto

text \<open>With a working database too, the attach succeeds.\<close>

lemma attach_commits:
  assumes I: "wal_inv q" "framed q" "\<not> stopped q" "env (qio q) = []" "\<not> werr (qio q)" "wopen (qio q)"
    and p: "pend q = log_of rs" "list_all entry_ok rs" "list_all (\<lambda>(r, f). \<not> isRecords f) rs"
    and tx: "st_txs st = []"
  shows "fst (AttachQueue False q st b) = None"
proof -
  let ?r0 = "\<lparr>rc_chunk = [], rc_store = st, rc_recovered = 0\<rparr>"
  have "\<forall>x \<in> set (frame_ends (pend_start q) rs). \<not> isRecords (fst x)"
    using frame_ends_fst [of "pend_start q" rs] p(3) by (force simp: list_all_iff)
  then obtain rc where d: "deliver recover_consumer (frame_ends (pend_start q) rs) ?r0 = (None, rc)"
    "st_txs (rc_store rc) = []" using deliver_commits [of ?r0] tx by auto
  define q1 where "q1 = snd (streamFrames recover_consumer ?r0 q)"
  have sf: "streamFrames recover_consumer ?r0 q = ((None, rc), q1)"
    using streamFrames_log [OF I p(1,2), of recover_consumer ?r0] d(1) by (simp add: q1_def prod_eq_iff)
  have io: "env (qio q1) = [] \<and> \<not> werr (qio q1) \<and> wopen (qio q1)"
    unfolding q1_def by (rule streamFrames_io [OF I(4-6)])
  have "stopped q1 = stopped q"
    using streamFrames_quiet [OF I(1), of recover_consumer ?r0] by (simp add: q1_def quiet_def same_config_def)
  then have c: "fst (Checkpoint (offset q1) q1) = None" using Checkpoint_ok io I(3) by simp
  obtain r1 where "flush_recovered rc = (True, r1)" using flush_recovered_commits [OF d(2)] by blast
  then show ?thesis
    using sf c by (cases "Checkpoint (offset q1) q1") (simp add: AttachQueue_def StreamPending_def Let_def)
qed

text \<open>C3: Attaching a log to a buffer, on a disk whose calls succeed: whatever the database does, nothing
  stored is lost, the buffer's queue is not touched, and a failed attach leaves all the log's content
  for the next replay, unless all of it is in the database already.  After a successful attach every
  event the log held is in the database, the log is acknowledged to its end, and the buffer's
  checkpoint target is that end; with a database that commits, the attach of a log of batches succeeds.\<close>

theorem attach_recovers:
  assumes "wal_inv q" "framed q" "\<not> stopped q" "env (qio q) = []" "\<not> werr (qio q)" "wopen (qio q)"
    and "pend q = log_of rs" "list_all entry_ok rs" "AttachQueue att q st b = (r, b', q', st')"
  shows "wal_inv q' \<and> stored st \<subseteq> stored st' \<and> bf_events b' = bf_events b
    \<and> (pend q' = pend q \<or> keys (events_of rs) \<subseteq> stored st')
    \<and> (r = None \<longrightarrow> keys (events_of rs) \<subseteq> stored st' \<and> pend q' = [] \<and> bf_lastOffset b' = offset q' \<and> \<not> att)
    \<and> (st_txs st = [] \<and> \<not> att \<and> list_all (\<lambda>(r, f). \<not> isRecords f) rs \<longrightarrow> r = None)"
  using attach_aux [OF assms] attach_commits [OF assms(1-8), of st b] assms(9) by auto

section \<open>Acknowledged, crashed, restarted\<close>

lemma batches_of_nth:
  assumes "x \<in> set (batches_of p rs)"
  shows "\<exists>k < length rs. events (snd (rs ! k)) = fst x \<and> snd x = p + length (log_of (take (Suc k) rs))"
  using assms
proof (induction rs arbitrary: p)
  case (Cons a rs)
  obtain r f where a: "a = (r, f)" by fastforce
  from Cons.prems consider "x = (events f, p + length r + 1)" | "x \<in> set (batches_of (p + length r + 1) rs)"
    by (auto simp: a)
  then show ?case
  proof cases
    case 1
    then show ?thesis by (intro exI [of _ 0]) (simp add: a)
  next
    case 2
    from Cons.IH [OF this] obtain k where "k < length rs" "events (snd (rs ! k)) = fst x"
      "snd x = p + length r + 1 + length (log_of (take (Suc k) rs))" by blast
    then show ?thesis by (intro exI [of _ "Suc k"]) (simp add: a)
  qed
qed simp

text \<open>A frame that ends at or below a covered offset is among the frames that come back.\<close>

lemma covered_in_prefix:
  assumes "(es, off) \<in> set (batches_of p rs)" "off \<le> y"
    and "\<forall>n \<le> length rs. p + length (log_of (take n rs)) \<le> y \<longrightarrow> n \<le> m"
  shows "\<exists>x \<in> set (take m rs). events (snd x) = es"
proof -
  from batches_of_nth [OF assms(1)] obtain k where k: "k < length rs" "events (snd (rs ! k)) = es"
    "off = p + length (log_of (take (Suc k) rs))" by auto
  then have "Suc k \<le> m" using assms(2,3) by simp
  then have "rs ! k \<in> set (take m rs)" using k(1)
    by (metis Suc_le_lessD in_set_conv_nth length_take min_less_iff_conj nth_take)
  then show ?thesis using k(2) by blast
qed

text \<open>What an attach leaves of a batch that is in its log or in the database.\<close>

lemma attach_keeps_batch:
  assumes R: "wal_inv q" "framed q" "\<not> stopped q" "env (qio q) = []" "\<not> werr (qio q)" "wopen (qio q)"
    and p: "pend q = log_of rs" "list_all entry_ok rs"
    and b: "keys es \<subseteq> stored st \<or> (\<exists>x \<in> set rs. events (snd x) = es)"
    and a: "AttachQueue False q st b1 = (r, b2, q2, st2)"
  shows "keys es \<subseteq> stored st2
    \<or> (r \<noteq> None \<and> (\<exists>rs. pend q2 = log_of rs \<and> list_all entry_ok rs \<and> (\<exists>x \<in> set rs. events (snd x) = es)))"
proof -
  note T = attach_aux [OF R p a]
  have "keys es \<subseteq> keys (events_of rs)" if "\<exists>x \<in> set rs. events (snd x) = es"
    using that by (fastforce simp: keys_def events_of_def)
  then show ?thesis using b T p by (cases "keys (events_of rs) \<subseteq> stored st2") auto
qed


section \<open>A run\<close>

definition sample_raw :: bytes where
  "sample_raw = print_json (batch_frame [sample_event])"

lemma sample_raw_facts: "length sample_raw < walWriterSize" "entry_ok (sample_raw, frame_of [sample_event])"
  "length sample_raw \<le> walMaxFrameBytes" "sample_raw \<noteq> []"
  using sample_batch_length batch_entry_ok [OF sample_batch_ok]
  by (simp_all add: sample_raw_def walWriterSize_def walMaxFrameBytes_def batch_frame_def)

lemma groupFlush_waiters:
  "groupFlush (q\<lparr>waiters := ws\<rparr>) = (fst (groupFlush q), (snd (groupFlush q))\<lparr>waiters := ws\<rparr>)"
  by (simp add: groupFlush_def setErrLocked_def split: option.split prod.split)

text \<open>Push, wait, shared fsync: the batch is acknowledged.\<close>

definition sample_end :: ingest where
  "sample_end = (let s1 = push [sample_event] sample_start;
       s2 = s1\<lparr>in_log := ask (offset (cm_queue (in_log s1))) 0 (in_log s1)\<rparr>
     in s2\<lparr>in_log := commit_group (in_log s2)\<rparr>)"

lemma sample_end_facts:
  "ingest_step\<^sup>*\<^sup>* sample_start sample_end" "cm_queue (in_log sample_end) = flushed_wal 100 1000 sample_raw"
  "in_acc sample_end = [([sample_event], length sample_raw + 1)]"
  "cm_told (in_log sample_end) = [(\<lparr>w_id = 0, w_off = length sample_raw + 1, w_enqueued = 0\<rparr>, None)]"
  "in_store sample_end = empty_store"
proof -
  let ?s1 = "push [sample_event] sample_start" and ?w = "\<lparr>w_id = 0, w_off = length sample_raw + 1, w_enqueued = 0\<rparr>"
  obtain off q1 where ap: "AppendBatch [sample_event] (fresh_wal 100 1000) = ((off, None), q1)"
    and s1: "in_acc ?s1 = [([sample_event], off)]" "cm_queue (in_log ?s1) = q1"
    by (rule sample_push)
  have l: "cm_asked (in_log ?s1) = []" "cm_told (in_log ?s1) = []"
    by (simp_all add: push_def sample_start_def ingest_start_def commits_of_def split: prod.split)
  have ap1: "appendFrame sample_raw 1 (fresh_wal 100 1000) = ((off, None), q1)"
    using ap by (simp add: AppendBatch_def sample_raw_def)
  note FA = fresh_append [OF sample_raw_facts(1), of 1 100 1000]
  have Q: "offset q1 = length sample_raw + 1" "off = length sample_raw + 1" "lossySync q1 = False" "syncedOffset q1 = 0"
    "stopped q1 = False" "lastErr q1 = None" "waiters q1 = []" "groupDelay q1 = DefaultGroupCommitDelay"
    using ap1 FA by (auto simp: fresh_wal_def)
  define s2 where "s2 = ?s1\<lparr>in_log := ask (offset (cm_queue (in_log ?s1))) 0 (in_log ?s1)\<rparr>"
  have e: "sample_end = s2\<lparr>in_log := commit_group (in_log s2)\<rparr>" by (simp add: sample_end_def s2_def Let_def)
  have L2: "cm_queue (in_log s2) = q1\<lparr>waiters := [?w]\<rparr>" "cm_told (in_log s2) = []" "in_acc s2 = [([sample_event], off)]"
    using Q l s1 by (simp_all add: s2_def ask_def WaitCommit_def Let_def)
  have g: "groupFlush q1 = (None, flushed_wal 100 1000 sample_raw)"
  proof -
    have "groupFlush (snd (appendFrame sample_raw 1 (fresh_wal 100 1000))) = (None, flushed_wal 100 1000 sample_raw)"
      unfolding flushed_wal_def FA snd_conv
      by (simp add: groupFlush_def fresh_wal_def bufio_flush_def os_write_def next_io_def os_sync_def os_call_def
          append_file_def put_file_def file_data_def file_synced_def)
    then show ?thesis unfolding ap1 snd_conv .
  qed
  have fw: "waiters (flushed_wal 100 1000 sample_raw) = []"
    by (simp add: flushed_wal_eq [OF sample_raw_facts(1)])
  have cg: "commit_group (in_log s2) = (in_log s2)\<lparr>cm_queue := flushed_wal 100 1000 sample_raw, cm_told := [(?w, None)]\<rparr>"
    using Q L2 fw by (simp add: commit_group_def syncGroup_def groupFlush_waiters g maxOff_def)
  show "in_store sample_end = empty_store"
    by (simp add: e s2_def push_def sample_start_def ingest_start_def split: prod.split)
  show "cm_queue (in_log sample_end) = flushed_wal 100 1000 sample_raw"
    "in_acc sample_end = [([sample_event], length sample_raw + 1)]" "cm_told (in_log sample_end) = [(?w, None)]"
    using cg L2 Q by (simp_all add: e)
  have "ingest_step sample_start ?s1" by (intro ingest_step.push sample_batch_ok)
  moreover have "ingest_step ?s1 s2" unfolding s2_def by (rule ingest_step.ask) simp
  moreover have "ingest_step s2 sample_end"
    unfolding e by (rule ingest_step.group [of 1000000000]) (simp add: holdWindow_def L2 Q DefaultGroupCommitDelay_def)
  ultimately show "ingest_step\<^sup>*\<^sup>* sample_start sample_end"
    by (meson converse_rtranclp_into_rtranclp rtranclp.rtrancl_refl)
qed

text \<open>The disk loses nothing of it; the log reopens, and an attach to a new buffer stores the event.\<close>

lemma sample_crash:
  defines "q \<equiv> flushed_wal 100 1000 sample_raw"
  shows "lastErr q = None" "cp_sound q" "crashed (dir (qio q)) (dir (qio q))" "dir_holds (dir (qio q)) (map seg_idx (segments q))"
    "cp_on_disk (dir (qio q)) (cpSeg q) (cpOff q)"
proof -
  note Q = flushed_wal_facts [OF sample_raw_facts(1), of 100 1000] flushed_wal_eq [OF sample_raw_facts(1), of 100 1000]
  show "lastErr q = None" "cp_sound q" unfolding q_def by (simp_all add: cp_sound_def Q(6) segmentExists_def cpLogical_def)
  show "crashed (dir (qio q)) (dir (qio q))" using Q(3) by (auto simp: q_def crashed_def wal_inv_def synced_ok_def)
  show "dir_holds (dir (qio q)) (map seg_idx (segments q))"
    by (simp add: q_def dir_holds_def Q(6) seg_file_name_def checkpointName_def legacySegmentName_def)
  show "cp_on_disk (dir (qio q)) (cpSeg q) (cpOff q)"
    by (simp add: q_def cp_on_disk_def Q(6) file_exists_def checkpointName_def legacySegmentName_def)
qed


theorem attach_recovers_witness:
  "keys [sample_event] \<subseteq> stored (snd (snd (snd (AttachQueue False (flushed_wal 100 1000 sample_raw) empty_store (NewBuffer 10 5)))))
    \<and> fst (AttachQueue False (flushed_wal 100 1000 sample_raw) empty_store (NewBuffer 10 5)) = None"
proof -
  let ?q = "flushed_wal 100 1000 sample_raw" and ?rs = "[(sample_raw, frame_of [sample_event])]"
  note Q = flushed_wal_facts [OF sample_raw_facts(1), of 100 1000] flushed_wal_eq [OF sample_raw_facts(1), of 100 1000]
  have p: "pend ?q = log_of ?rs" "list_all entry_ok ?rs" using Q(1) sample_raw_facts(2) by simp_all
  have io: "\<not> stopped ?q" "env (qio ?q) = []" "\<not> werr (qio ?q)" "wopen (qio ?q)" by (simp_all add: Q(6))
  obtain r b' q' st' where a: "AttachQueue False ?q empty_store (NewBuffer 10 5) = (r, b', q', st')" by (metis prod_cases4)
  have "events_of ?rs = [sample_event]" by (simp add: events_of_def frame_of_def)
  moreover have "list_all (\<lambda>(r, f). \<not> isRecords f) ?rs" by (simp add: frame_of_def)
  moreover note attach_recovers [OF Q(3,2) io p a]
  ultimately show ?thesis using a by (auto simp: empty_store_def)
qed

end
