(* ===== verification/IngestProps.thy ===== *)
theory IngestProps
  imports IngestFlow
begin

text \<open>
  The byte budget of the ingest buffer and the deduplication of its insertions, over the operations of
  \<^verbatim>\<open>src/internal/ingest/buffer.go\<close>.
\<close>

section \<open>The byte budget\<close>

text \<open>Sizes go with events, the sums with the sizes, and the sum of both sides stays within the budget.\<close>

definition budget_ok :: "Buffer \<Rightarrow> flight option \<Rightarrow> bool" where
  "budget_ok b fo \<longleftrightarrow> bf_sizes b = map approxEventBytes (bf_events b) \<and> bf_buffered b = sum_list (bf_sizes b)
     \<and> (case fo of None \<Rightarrow> bf_inFlight b = 0
        | Some f \<Rightarrow> fl_sizes f = map approxEventBytes (fl_batch f) \<and> fl_cost f = sum_list (fl_sizes f)
            \<and> bf_inFlight b = fl_cost f)
     \<and> bf_buffered b + bf_inFlight b \<le> bf_maxBuffered b"

lemma cost_nonneg: "0 \<le> sum_list (map approxEventBytes es)"
  by (rule sum_list_nonneg) (auto simp: approxEventBytes_def)

lemma cost_drop: "sum_list (drop n (map approxEventBytes es)) \<le> sum_list (map approxEventBytes es)"
proof -
  have "sum_list (map approxEventBytes es)
    = sum_list (map approxEventBytes (take n es)) + sum_list (map approxEventBytes (drop n es))"
    by (metis append_take_drop_id map_append sum_list_append)
  then show ?thesis using cost_nonneg [of "take n es"] by (simp add: drop_map)
qed

lemma budget_push:
  assumes "budget_ok b fo" "push_begin es b oq = (r, b', oq')"
  shows "budget_ok b' fo"
  using assms by (auto simp: push_begin_def budget_ok_def Let_def split: if_splits option.splits prod.splits)

lemma budget_detach: "budget_ok b None \<Longrightarrow> flush_begin b = Some (f, b') \<Longrightarrow> budget_ok b' (Some f)"
  by (auto simp: flush_begin_def budget_ok_def split: if_splits)

lemma budget_finish:
  assumes B: "budget_ok b (Some f)" and e: "flush_end f r b oq = (b', oq')"
  shows "budget_ok b' None"
proof -
  obtain n ok where r: "r = (n, ok)" by fastforce
  have "0 \<le> fl_cost f" "sum_list (drop n (fl_sizes f)) \<le> fl_cost f"
    using B cost_nonneg [of "fl_batch f"] cost_drop [of n "fl_batch f"] by (simp_all add: budget_ok_def)
  then show ?thesis
    using B e by (cases ok) (auto simp: r flush_end_def requeueFailed_def release_credit_def budget_ok_def drop_map)
qed

lemma budget_counters:
  "budget_ok (push_end es d b) fo = budget_ok b fo" "budget_ok (b\<lparr>bf_stopped := x, bf_workerErr := y\<rparr>) fo = budget_ok b fo"
  by (cases fo; simp add: budget_ok_def push_end_def)+

lemma budget_step:
  assumes "ingest_step s s'" "budget_ok (in_buf s) (map_option fst (in_flight s))"
  shows "budget_ok (in_buf s') (map_option fst (in_flight s'))"
  using assms
proof (induction rule: ingest_step.induct)
  case (push es s)
  then show ?case using budget_push by (fastforce simp: push_def split: prod.splits)
next
  case (detach s f b)
  then show ?case using budget_detach by simp
next
  case (finish s f r)
  then show ?case using budget_finish by (fastforce simp: finish_def split: prod.splits)
qed (simp_all add: budget_counters)

text \<open>C5: The accounting of the buffer is exact: in every reachable state each queued event has its size
  recorded, the queued and in-flight byte counts are the sums over the queued events and over the batch
  being inserted (never one left over from a finished flush), and together they stay within the
  budget, also when a failed batch returns to the queue.\<close>

theorem byte_budget_kept:
  assumes "ingest_step\<^sup>*\<^sup>* (ingest_start (WithMaxBufferedBytes n (NewBuffer m k)) q st) s"
  shows "budget_ok (in_buf s) (map_option fst (in_flight s))"
  using assms
proof (induction rule: rtranclp_induct)
  case base
  show ?case
    by (simp add: ingest_start_def WithMaxBufferedBytes_def NewBuffer_def budget_ok_def defaultMaxBufferedBytes_def)
qed (rule budget_step)

theorem byte_budget_kept_witness:
  "ingest_step\<^sup>*\<^sup>* sample_start (push [sample_event] sample_start)
    \<and> bf_buffered (in_buf (push [sample_event] sample_start)) = approxEventBytes sample_event"
proof -
  let ?s = "push [sample_event] sample_start"
  have r: "ingest_step\<^sup>*\<^sup>* sample_start ?s" by (intro r_into_rtranclp ingest_step.push sample_batch_ok)
  then have "ingest_step\<^sup>*\<^sup>* (ingest_start (WithMaxBufferedBytes 0 (NewBuffer 10 5)) (fresh_wal 100 1000) empty_store) ?s"
    by (simp add: sample_start_def WithMaxBufferedBytes_def)
  from byte_budget_kept [OF this] have "bf_buffered (in_buf ?s) = sum_list (map approxEventBytes (bf_events (in_buf ?s)))"
    by (simp add: budget_ok_def)
  moreover have "bf_events (in_buf ?s) = [sample_event]" by (rule sample_push)
  ultimately show ?thesis using r by simp
qed

section \<open>No event twice\<close>

lemma dedupePending_fresh:
  "distinct (map event_key (dedupePending ex es)) \<and> keys (dedupePending ex es) \<inter> set ex = {}
    \<and> set (dedupePending ex es) \<subseteq> set es"
  by (induction ex es rule: dedupePending.induct) (auto simp: keys_def image_iff)

lemma min_timestamp_le: "es \<noteq> [] \<Longrightarrow> min_timestamp es \<le> ev_timestamp (hd es)"
proof -
  have "foldl (\<lambda>m e. if ev_timestamp e < m then ev_timestamp e else m) m es \<le> m" for m
  proof (induction es arbitrary: m)
    case (Cons e es)
    from Cons [of "if ev_timestamp e < m then ev_timestamp e else m"] show ?case by auto
  qed simp
  then show ?thesis by (simp add: min_timestamp_def)
qed

text \<open>All timestamps in play lie within one horizon.\<close>

definition same_day :: "int \<Rightarrow> Event list \<Rightarrow> bool" where
  "same_day t es \<longleftrightarrow> (\<forall>e \<in> set es. t \<le> ev_timestamp e \<and> ev_timestamp e \<le> t + flushDedupeHorizon)"

lemma filterUncommitted_fresh:
  assumes "same_day t db" "same_day t es"
  shows "distinct (map event_key (filterUncommitted True db es)) \<and> keys (filterUncommitted True db es) \<inter> keys db = {}
    \<and> set (filterUncommitted True db es) \<subseteq> set es"
proof (cases "es = []")
  case False
  let ?ex = "existingEventKeys db es (min_timestamp es - flushDedupeHorizon)"
  note D = dedupePending_fresh [of ?ex es]
  have "min_timestamp es - flushDedupeHorizon \<le> t"
    using min_timestamp_le [OF False] assms(2) hd_in_set [OF False] unfolding same_day_def by fastforce
  then have "event_key r \<in> set ?ex" if "r \<in> set db" "event_key r \<in> keys es" for r
    using that assms(1) by (force simp: existingEventKeys_def same_day_def keys_def event_key_def)
  moreover have "keys (dedupePending ?ex es) \<subseteq> keys es" using D by (auto simp: keys_def)
  ultimately have "keys (dedupePending ?ex es) \<inter> keys db = {}" using D by (fastforce simp: keys_def)
  then show ?thesis using D False by (simp add: filterUncommitted_def)
qed (simp add: filterUncommitted_def)

definition clean_store :: "int \<Rightarrow> store \<Rightarrow> bool" where
  "clean_store t s \<longleftrightarrow> distinct (map event_key (db_events (st_db s))) \<and> db_recent (st_db s) = db_events (st_db s)
     \<and> same_day t (db_events (st_db s)) \<and> (\<forall>x \<in> set (st_txs s). snd x)"

lemma insert_chunk_clean:
  assumes C: "clean_store t s" and e: "same_day t es" and i: "insert_chunk es s = (ok, s')"
  shows "clean_store t s'"
proof -
  obtain r w s1 where n: "next_tx s = ((r, w), s1)" by (metis prod.collapse)
  have s1: "w" "st_db s1 = st_db s" "\<forall>x \<in> set (st_txs s1). snd x"
    using n C by (auto simp: next_tx_def clean_store_def dest: list.set_sel(2) split: list.splits)
  have "clean_store t s1" using C s1 by (simp add: clean_store_def)
  moreover have "clean_store t (s1\<lparr>st_db := add_rows (filterUncommitted True (db_events (st_db s)) es) (st_db s)\<rparr>)"
    using C s1(3) filterUncommitted_fresh [of t "db_events (st_db s)" es] e
    by (auto simp: clean_store_def add_rows_def keys_def same_day_def)
  ultimately show ?thesis using i n s1(1) by (auto simp: insert_chunk_def Let_def split: tx_outcome.splits)
qed

lemma insert_loop_clean:
  "clean_store t s \<Longrightarrow> same_day t es \<Longrightarrow> insert_loop es c s = (r, s') \<Longrightarrow> clean_store t s'"
proof (induction es c s rule: insert_loop.induct)
  case (1 es c s)
  obtain ok s1 where i: "insert_chunk (take insertChunkSize es) s = (ok, s1)" by fastforce
  have d: "same_day t (take insertChunkSize es)" "same_day t (drop insertChunkSize es)"
    using 1(3) by (auto simp: same_day_def dest: in_set_takeD in_set_dropD)
  have C: "clean_store t s1" by (rule insert_chunk_clean [OF 1(2) d(1) i])
  show ?case
  proof (cases "es \<noteq> [] \<and> ok")
    case True
    then have "insert_loop (drop insertChunkSize es) (c + length (take insertChunkSize es)) s1 = (r, s')"
      using 1(4) i by (subst (asm) insert_loop.simps) simp
    then show ?thesis using 1(1) i True C d(2) by force
  next
    case False
    then show ?thesis using 1(4) 1(2) i C by (subst (asm) insert_loop.simps) (auto split: if_splits)
  qed
qed

text \<open>C4: As long as the lookup of stored ids works and everything happens within a day, no event is
  stored twice: whatever batches are inserted in whatever order, with repetitions inside and between
  them, with transactions that roll back and with commits whose answer is lost so that the batch is
  inserted again, the stored (site, event id) pairs stay distinct, and both tables keep the same rows.\<close>

theorem inserted_at_most_once:
  assumes "clean_store t s" "\<forall>es \<in> set ess. same_day t es"
  shows "clean_store t (fold (\<lambda>es s. snd (insertBatch es s)) ess s)"
  using assms
proof (induction ess arbitrary: s)
  case (Cons es ess)
  have "clean_store t (snd (insertBatch es s))"
    using insert_loop_clean [of t s es 0] Cons.prems by (cases "insertBatch es s") (simp add: insertBatch_def)
  then show ?case using Cons by simp
qed simp

text \<open>The same event three times, the first commit's answer lost.\<close>

theorem inserted_at_most_once_witness:
  "db_events (st_db (fold (\<lambda>es s. snd (insertBatch es s)) [[sample_event], [sample_event, sample_event]]
      (empty_store\<lparr>st_txs := [(TxAnswerLost, True), (TxOk, True)]\<rparr>))) = [sample_event]
   \<and> clean_store 5 (fold (\<lambda>es s. snd (insertBatch es s)) [[sample_event], [sample_event, sample_event]]
      (empty_store\<lparr>st_txs := [(TxAnswerLost, True), (TxOk, True)]\<rparr>))"
proof
  let ?s = "empty_store\<lparr>st_txs := [(TxAnswerLost, True), (TxOk, True)]\<rparr>"
  show "clean_store 5 (fold (\<lambda>es s. snd (insertBatch es s)) [[sample_event], [sample_event, sample_event]] ?s)"
    by (rule inserted_at_most_once)
      (simp_all add: clean_store_def empty_store_def same_day_def sample_event_def flushDedupeHorizon_def)
  show "db_events (st_db (fold (\<lambda>es s. snd (insertBatch es s)) [[sample_event], [sample_event, sample_event]] ?s)) = [sample_event]"
    by (simp add: insertBatch_def insert_loop.simps insertChunkSize_def insert_chunk_def next_tx_def empty_store_def
        filterUncommitted_def existingEventKeys_def min_timestamp_def add_rows_def flushDedupeHorizon_def Let_def)
qed

end
