(* ===== verification/Sha256.thy ===== *)
theory Sha256
  imports Prelude "HOL-Library.Word"
begin

text \<open>
  SHA-256 (\<^verbatim>\<open>crypto/sha256.Sum256\<close>) on byte strings, with 32-bit words: what flag bucketing
  (\<^verbatim>\<open>src/internal/flags/eval.go\<close>) and the evaluation-write cache hash with.
\<close>

unbundle bit_operations_syntax

text \<open>The round constants are the first 32 bits of the fractional parts of the cube roots of the first
  64 primes, the initial state those of the square roots of the first 8.\<close>

definition small_primes :: "int list" where
  "small_primes = filter (\<lambda>p. list_all (\<lambda>d. p mod d \<noteq> 0) [2..p - 1]) [2..311]"

fun root_bits :: "nat \<Rightarrow> int \<Rightarrow> nat \<Rightarrow> int \<Rightarrow> int" where
  "root_bits k n 0 r = r"
| "root_bits k n (Suc b) r = root_bits k n b (if (r + 2 ^ b) ^ k \<le> n then r + 2 ^ b else r)"

definition frac_root :: "nat \<Rightarrow> int \<Rightarrow> 32 word" where
  "frac_root k p = of_int (root_bits k (p * 2 ^ (32 * k)) 35 0)"

definition sha_k :: "32 word list" where
  "sha_k = map (frac_root 3) small_primes"

definition sha_init :: "32 word list" where
  "sha_init = map (frac_root 2) (take 8 small_primes)"

definition rotr :: "nat \<Rightarrow> 32 word \<Rightarrow> 32 word" where
  "rotr n x = drop_bit n x OR push_bit (32 - n) x"

definition big_sigma0 :: "32 word \<Rightarrow> 32 word" where
  "big_sigma0 x = rotr 2 x XOR rotr 13 x XOR rotr 22 x"

definition big_sigma1 :: "32 word \<Rightarrow> 32 word" where
  "big_sigma1 x = rotr 6 x XOR rotr 11 x XOR rotr 25 x"

definition small_sigma0 :: "32 word \<Rightarrow> 32 word" where
  "small_sigma0 x = rotr 7 x XOR rotr 18 x XOR drop_bit 3 x"

definition small_sigma1 :: "32 word \<Rightarrow> 32 word" where
  "small_sigma1 x = rotr 17 x XOR rotr 19 x XOR drop_bit 10 x"

text \<open>Padding: a one bit, zeros, the length in bits as 64 bits, to a multiple of 64 bytes.\<close>

definition byte_of :: "nat \<Rightarrow> char" where "byte_of n = char_of n"

definition be64 :: "nat \<Rightarrow> bytes" where
  "be64 n = map (\<lambda>i. byte_of (n div 2 ^ (8 * (7 - i)) mod 256)) [0..<8]"

definition sha_pad :: "bytes \<Rightarrow> bytes" where
  "sha_pad m = m @ byte_of 128 # replicate ((119 - length m mod 64) mod 64) (byte_of 0) @ be64 (8 * length m)"

fun be_words :: "bytes \<Rightarrow> 32 word list" where
  "be_words (a # b # c # d # r) =
     of_nat (((of_char a * 256 + of_char b) * 256 + of_char c) * 256 + of_char d) # be_words r"
| "be_words _ = []"

text \<open>The message schedule, extended to 64 words.\<close>

fun sha_extend :: "nat \<Rightarrow> 32 word list \<Rightarrow> 32 word list" where
  "sha_extend 0 w = w"
| "sha_extend (Suc n) w =
     (let t = length w in
      sha_extend n (w @ [small_sigma1 (w ! (t - 2)) + w ! (t - 7) + small_sigma0 (w ! (t - 15)) + w ! (t - 16)]))"

fun sha_round :: "32 word list \<Rightarrow> 32 word \<times> 32 word \<Rightarrow> 32 word list" where
  "sha_round [a, b, c, d, e, f, g, h] (k, w) =
     (let t1 = h + big_sigma1 e + ((e AND f) XOR (NOT e AND g)) + k + w;
          t2 = big_sigma0 a + ((a AND b) XOR (a AND c) XOR (b AND c))
      in [t1 + t2, a, b, c, d + t1, e, f, g])"
| "sha_round s _ = s"

definition sha_block :: "32 word list \<Rightarrow> 32 word list \<Rightarrow> 32 word list" where
  "sha_block s blk = map2 (+) s (foldl sha_round s (zip sha_k (sha_extend 48 blk)))"

function sha_blocks :: "32 word list \<Rightarrow> 32 word list \<Rightarrow> 32 word list" where
  "sha_blocks s ws = (if ws = [] then s else sha_blocks (sha_block s (take 16 ws)) (drop 16 ws))"
  by pat_completeness auto
termination by (relation "measure (\<lambda>(s, ws). length ws)") auto

declare sha_blocks.simps [simp del]

definition word_bytes :: "32 word \<Rightarrow> nat list" where
  "word_bytes w = (let n = unat w in [n div 2 ^ 24, n div 2 ^ 16 mod 256, n div 2 ^ 8 mod 256, n mod 256])"

definition Sum256 :: "bytes \<Rightarrow> nat list" where
  "Sum256 m = concat (map word_bytes (sha_blocks sha_init (be_words (sha_pad m))))"

section \<open>The digest has 32 bytes\<close>

lemma sha_round_length: "length s = 8 \<Longrightarrow> length (sha_round s x) = 8"
  by (cases x; cases "(s, x)" rule: sha_round.cases) (auto simp: Let_def)

lemma sha_block_length: "length s = 8 \<Longrightarrow> length (sha_block s blk) = 8"
proof -
  assume "length s = 8"
  moreover have "length s = 8 \<Longrightarrow> length (foldl sha_round s xs) = 8" for s xs
    by (induction xs arbitrary: s) (auto simp: sha_round_length)
  ultimately show ?thesis by (simp add: sha_block_def)
qed

lemma sha_blocks_length: "length s = 8 \<Longrightarrow> length (sha_blocks s ws) = 8"
proof (induction s ws rule: sha_blocks.induct)
  case (1 s ws)
  then show ?case by (subst sha_blocks.simps) (auto simp: sha_block_length)
qed

lemma word_bytes_facts: "length (word_bytes w) = 4" "b \<in> set (word_bytes w) \<Longrightarrow> b < 256"
proof -
  show "length (word_bytes w) = 4" by (simp add: word_bytes_def Let_def)
  have "unat w < 2 ^ LENGTH(32)" by (rule unsigned_less)
  then have "unat w div 2 ^ 24 < 256" by (simp add: less_mult_imp_div_less)
  then show "b \<in> set (word_bytes w) \<Longrightarrow> b < 256" by (auto simp: word_bytes_def Let_def)
qed

lemma small_primes_length: "8 \<le> length small_primes"
proof -
  have "list_all (\<lambda>p. list_all (\<lambda>d. p mod d \<noteq> 0) [2..p - 1]) [2, 3, 5, 7, 11, 13, 17, 19 :: int]"
    by code_simp
  moreover have mem: "p \<in> set small_primes \<longleftrightarrow> 2 \<le> p \<and> p \<le> 311 \<and> list_all (\<lambda>d. p mod d \<noteq> 0) [2..p - 1]" for p
    by (simp only: small_primes_def set_filter set_upto mem_Collect_eq atLeastAtMost_iff conj_assoc)
  ultimately have "{2, 3, 5, 7, 11, 13, 17, 19} \<subseteq> set small_primes"
    unfolding insert_subset mem by (simp del: upto_rec_numeral)
  then have "card {2, 3, 5, 7, 11, 13, 17, 19 :: int} \<le> card (set small_primes)" by (rule card_mono [rotated]) simp
  also have "\<dots> \<le> length small_primes" by (rule card_length)
  finally show ?thesis by simp
qed

lemma Sum256_facts: "length (Sum256 m) = 32" "b \<in> set (Sum256 m) \<Longrightarrow> b < 256"
proof -
  have "length (sha_blocks sha_init (be_words (sha_pad m))) = 8"
    by (rule sha_blocks_length) (simp add: sha_init_def small_primes_length)
  moreover have "length (concat (map word_bytes ws)) = 4 * length ws" for ws
    by (induction ws) (auto simp: word_bytes_facts)
  ultimately show "length (Sum256 m) = 32" by (simp add: Sum256_def)
  show "b \<in> set (Sum256 m) \<Longrightarrow> b < 256" using word_bytes_facts(2) by (auto simp: Sum256_def)
qed

end
