(* ===== verification/FlagEval.thy ===== *)
theory FlagEval
  imports Complex_Main Json Sha256 "HOL-Library.Monad_Syntax" "HOL-Library.Sublist"
begin

text \<open>
  Feature flags (\<^verbatim>\<open>src/internal/flags/eval.go\<close>, \<^verbatim>\<open>flags.go\<close>, \<^verbatim>\<open>config.go\<close>): parsing and validation of the
  stored targeting and variants, hash bucketing, and the reference evaluator.  Two functions of
  Go's floating-point library are arguments of the model: \<open>pf\<close>, the finite value \<^verbatim>\<open>strconv.ParseFloat\<close>
  gives for a text (\<open>None\<close> for an error, a NaN or an infinity), and \<open>fv\<close>, how \<^verbatim>\<open>%v\<close> prints the
  float64 a JSON number literal denotes.
\<close>

section \<open>Data\<close>

record TargetingRule =
  tr_attribute :: string
  tr_operator :: string
  tr_value :: json

record Variant =
  vr_key :: string
  vr_name :: string
  vr_pct :: int
  vr_payload :: "json option"   \<comment> \<open>\<^verbatim>\<open>json.RawMessage\<close>, nil when absent\<close>

record ConditionGroup =
  cg_key :: string
  cg_name :: string
  cg_conditions :: "TargetingRule list"
  cg_pct :: "int option"
  cg_variant :: string

record FlagDefinition =
  fd_key :: string
  fd_type :: string
  fd_enabled :: bool
  fd_pct :: int
  fd_variants :: "Variant list"
  fd_rules :: "TargetingRule list"
  fd_groups :: "ConditionGroup list"
  fd_invalid :: string

record FeatureFlag =
  ff_key :: string
  ff_type :: string
  ff_enabled :: bool
  ff_pct :: int
  ff_variants :: string
  ff_targeting :: string

record EvaluationResult =
  er_enabled :: bool
  er_variant :: string
  er_payload :: "json option"
  er_group :: string
  er_reason :: string
  er_detail :: string

definition ReasonEvaluated :: string where "ReasonEvaluated = ''evaluated''"
definition ReasonUnavailable :: string where "ReasonUnavailable = ''unavailable''"
definition ReasonInvalid :: string where "ReasonInvalid = ''invalid''"

definition MaxPayloadBytes :: nat where "MaxPayloadBytes = 4096"
definition maxGroups :: nat where "maxGroups = 32"
definition maxGroupConditions :: nat where "maxGroupConditions = 32"
definition maxGroupKeyLen :: nat where "maxGroupKeyLen = 64"

text \<open>Reasons to reject a config; how each is worded is an argument of the config bundle.\<close>

datatype config_error =
    InvalidJSON | InvalidGroupsJSON | NoGroups | TooManyGroups nat | GroupKeyTooLong nat
  | DuplicateGroupKey string | GroupPctRange nat int | TooManyConditions nat nat
  | AttributeRequired string nat | UnknownOperator string nat string | ValueRequired string nat
  | NeedsNumber string nat string | NeedsString string nat string
  | VariantsInvalidJSON | VariantKeyRequired nat | DuplicateVariantKey string
  | VariantPctRange nat int | PayloadTooLarge nat nat | UndeclaredVariant nat string
  | BadFlagType | VariantsRequired

section \<open>Text helpers\<close>

definition contains :: "string \<Rightarrow> string \<Rightarrow> bool" where
  "contains s t = sublist t s"

text \<open>\<^verbatim>\<open>fmt.Sprintf("%v", x)\<close> on decoded JSON: maps print their keys in order.\<close>

fun insert_key :: "string \<times> string \<Rightarrow> (string \<times> string) list \<Rightarrow> (string \<times> string) list" where
  "insert_key x [] = [x]"
| "insert_key (k, v) ((k', v') # r) =
     (if k = k' then (k, v) # r
      else if ord.lexordp (\<lambda>a b. (of_char a :: nat) < of_char b) k k' then (k, v) # (k', v') # r
      else (k', v') # insert_key (k, v) r)"

fun join_with :: "string \<Rightarrow> string list \<Rightarrow> string" where
  "join_with sep [] = []"
| "join_with sep [x] = x"
| "join_with sep (x # xs) = x @ sep @ join_with sep xs"

fun sprint_v :: "(string \<Rightarrow> string) \<Rightarrow> json \<Rightarrow> string"
  and sprint_list :: "(string \<Rightarrow> string) \<Rightarrow> json list \<Rightarrow> string list"
  and sprint_members :: "(string \<Rightarrow> string) \<Rightarrow> (string \<times> json) list \<Rightarrow> (string \<times> string) list" where
  "sprint_v fv JNull = ''<nil>''"
| "sprint_v fv (JBool b) = (if b then ''true'' else ''false'')"
| "sprint_v fv (JNum l) = fv l"
| "sprint_v fv (JStr s) = s"
| "sprint_v fv (JArr vs) = ''['' @ join_with '' '' (sprint_list fv vs) @ '']''"
| "sprint_v fv (JObj ms) = ''map['' @ join_with '' '' (map (\<lambda>(k, v). k @ '':'' @ v) (sprint_members fv ms)) @ '']''"
| "sprint_list fv [] = []"
| "sprint_list fv (v # vs) = sprint_v fv v # sprint_list fv vs"
| "sprint_members fv [] = []"
| "sprint_members fv ((k, v) # ms) = (let r = sprint_members fv ms in
     if k \<in> fst ` set r then r else insert_key (k, sprint_v fv v) r)"

definition toStringSlice :: "(string \<Rightarrow> string) \<Rightarrow> json \<Rightarrow> string list" where
  "toStringSlice fv v = (case v of JArr vs \<Rightarrow> sprint_list fv vs | _ \<Rightarrow> [sprint_v fv v])"

definition clampDetail :: "string \<Rightarrow> string" where
  "clampDetail s = take 200 s"

section \<open>Rules\<close>

definition targetingOperators :: "string list" where
  "targetingOperators = [''eq'', ''neq'', ''in'', ''not_in'', ''contains'', ''gt'', ''gte'', ''lt'', ''lte'',
     ''starts_with'', ''ends_with'', ''is_set'', ''not_set'']"

definition parseNumeric :: "(string \<Rightarrow> rat option) \<Rightarrow> string \<Rightarrow> rat option" where
  "parseNumeric pf s = (let t = TrimSpace s in if t = [] \<or> length t > 64 then None else pf t)"

definition numericValue :: "(string \<Rightarrow> rat option) \<Rightarrow> json \<Rightarrow> rat option" where
  "numericValue pf v = (case v of JNum l \<Rightarrow> pf l | JStr s \<Rightarrow> parseNumeric pf s | _ \<Rightarrow> None)"

definition rule_error :: "(string \<Rightarrow> rat option) \<Rightarrow> string \<Rightarrow> nat \<Rightarrow> TargetingRule \<Rightarrow> config_error option" where
  "rule_error pf what i r =
     (if tr_attribute r = [] then Some (AttributeRequired what i)
      else if tr_operator r \<notin> set targetingOperators then Some (UnknownOperator what i (tr_operator r))
      else if tr_operator r \<in> {''is_set'', ''not_set''} then None
      else if tr_value r = JNull then Some (ValueRequired what i)
      else if tr_operator r \<in> {''gt'', ''gte'', ''lt'', ''lte''} then
        (if numericValue pf (tr_value r) = None then Some (NeedsNumber what i (tr_operator r)) else None)
      else if tr_operator r \<in> {''starts_with'', ''ends_with''} then
        (case tr_value r of JStr s \<Rightarrow> if s = [] then Some (NeedsString what i (tr_operator r)) else None
         | _ \<Rightarrow> Some (NeedsString what i (tr_operator r)))
      else None)"

fun validateRules :: "(string \<Rightarrow> rat option) \<Rightarrow> string \<Rightarrow> nat \<Rightarrow> TargetingRule list \<Rightarrow> config_error option" where
  "validateRules pf what i [] = None"
| "validateRules pf what i (r # rs) =
     (case rule_error pf what i r of Some e \<Rightarrow> Some e | None \<Rightarrow> validateRules pf what (i + 1) rs)"

type_synonym user_ctx = "(string \<times> string) list"

definition compare_op :: "string \<Rightarrow> rat \<Rightarrow> rat \<Rightarrow> bool" where
  "compare_op op a b = (if op = ''gt'' then a > b else if op = ''gte'' then a \<ge> b
     else if op = ''lt'' then a < b else a \<le> b)"

definition matchRule :: "(string \<Rightarrow> rat option) \<Rightarrow> (string \<Rightarrow> string) \<Rightarrow> TargetingRule \<Rightarrow> user_ctx \<Rightarrow> bool" where
  "matchRule pf fv r ctx =
     (let actual = map_of ctx (tr_attribute r); op = tr_operator r in
      if op = ''is_set'' then (case actual of None \<Rightarrow> False | Some a \<Rightarrow> a \<noteq> [])
      else if op = ''not_set'' then (case actual of None \<Rightarrow> True | Some a \<Rightarrow> a = [])
      else case actual of None \<Rightarrow> False | Some a \<Rightarrow>
        if op = ''eq'' then a = sprint_v fv (tr_value r)
        else if op = ''neq'' then a \<noteq> sprint_v fv (tr_value r)
        else if op = ''in'' then list_ex (\<lambda>v. a = v) (toStringSlice fv (tr_value r))
        else if op = ''not_in'' then \<not> list_ex (\<lambda>v. a = v) (toStringSlice fv (tr_value r))
        else if op = ''contains'' then contains a (sprint_v fv (tr_value r))
        else if op = ''starts_with'' then
          (case tr_value r of JStr s \<Rightarrow> s \<noteq> [] \<and> has_prefix a s | _ \<Rightarrow> False)
        else if op = ''ends_with'' then
          (case tr_value r of JStr s \<Rightarrow> s \<noteq> [] \<and> has_suffix a s | _ \<Rightarrow> False)
        else if op \<in> {''gt'', ''gte'', ''lt'', ''lte''} then
          (case parseNumeric pf a of None \<Rightarrow> False | Some x \<Rightarrow>
             (case numericValue pf (tr_value r) of None \<Rightarrow> False | Some y \<Rightarrow> compare_op op x y))
        else False)"

definition matchesTargeting :: "(string \<Rightarrow> rat option) \<Rightarrow> (string \<Rightarrow> string) \<Rightarrow> TargetingRule list \<Rightarrow> user_ctx \<Rightarrow> bool" where
  "matchesTargeting pf fv rs ctx = list_all (\<lambda>r. matchRule pf fv r ctx) rs"

section \<open>Bucketing\<close>

definition Bucket :: "string \<Rightarrow> string \<Rightarrow> int" where
  "Bucket salt user = (let h = Sum256 (salt @ '':'' @ user) in int ((h ! 0 * 256 + h ! 1) mod 100 + 1))"

definition groupSalt :: "string \<Rightarrow> string \<Rightarrow> string" where
  "groupSalt flagKey groupKey = flagKey @ '':grp:'' @ groupKey"

section \<open>Evaluation\<close>

definition group_key :: "nat \<Rightarrow> ConditionGroup \<Rightarrow> string" where
  "group_key i g = (if cg_key g = [] then ''g'' @ dec_nat i else cg_key g)"

text \<open>The scan over the groups: the first whose conditions match and whose rollout admits the user.\<close>

fun pick_group :: "(string \<Rightarrow> rat option) \<Rightarrow> (string \<Rightarrow> string) \<Rightarrow> string \<Rightarrow> string \<Rightarrow> user_ctx \<Rightarrow> nat
    \<Rightarrow> bool \<Rightarrow> ConditionGroup list \<Rightarrow> bool \<times> (ConditionGroup \<times> string) option" where
  "pick_group pf fv fkey user ctx i matched [] = (matched, None)"
| "pick_group pf fv fkey user ctx i matched (g # gs) =
     (if \<not> matchesTargeting pf fv (cg_conditions g) ctx then pick_group pf fv fkey user ctx (i + 1) matched gs
      else let key = group_key i g in
        if (case cg_pct g of None \<Rightarrow> False | Some p \<Rightarrow> p < 100 \<and> Bucket (groupSalt fkey key) user > p)
        then pick_group pf fv fkey user ctx (i + 1) True gs
        else (True, Some (g, key)))"

fun find_index :: "('a \<Rightarrow> bool) \<Rightarrow> 'a list \<Rightarrow> nat option" where
  "find_index P [] = None"
| "find_index P (x # xs) = (if P x then Some 0 else map_option Suc (find_index P xs))"

text \<open>The walk over the cumulative rollout percentages.\<close>

fun pick_cumulative :: "int \<Rightarrow> int \<Rightarrow> Variant list \<Rightarrow> nat option" where
  "pick_cumulative hash acc [] = None"
| "pick_cumulative hash acc (v # vs) =
     (if hash \<le> acc + vr_pct v then Some 0
      else map_option Suc (pick_cumulative hash (acc + vr_pct v) vs))"

definition choose_variant :: "string \<Rightarrow> string \<Rightarrow> ConditionGroup option \<Rightarrow> Variant list \<Rightarrow> nat" where
  "choose_variant fkey user grp vs =
     (let forced = (case grp of None \<Rightarrow> None
                    | Some g \<Rightarrow> if cg_variant g = [] then None else find_index (\<lambda>v. vr_key v = cg_variant g) vs);
          chosen = (case forced of Some i \<Rightarrow> Some i
                    | None \<Rightarrow> pick_cumulative (Bucket (fkey @ '':variant'') user) 0 vs)
      in case chosen of Some i \<Rightarrow> i | None \<Rightarrow> 0)"

definition refuse :: "string \<Rightarrow> string \<Rightarrow> EvaluationResult" where
  "refuse reason detail = \<lparr>er_enabled = False, er_variant = [], er_payload = None, er_group = [],
     er_reason = reason, er_detail = detail\<rparr>"

definition admit_result :: "FlagDefinition \<Rightarrow> string \<Rightarrow> (ConditionGroup \<times> string) option \<Rightarrow> EvaluationResult" where
  "admit_result def user grp =
     (let res = \<lparr>er_enabled = True, er_variant = [], er_payload = None,
                 er_group = (case grp of None \<Rightarrow> [] | Some (g, k) \<Rightarrow> k),
                 er_reason = ReasonEvaluated, er_detail = []\<rparr>
      in if fd_type def = ''multivariate'' \<and> fd_variants def \<noteq> [] then
           let v = fd_variants def ! choose_variant (fd_key def) user (map_option fst grp) (fd_variants def)
           in res\<lparr>er_variant := vr_key v,
                  er_payload := (if vr_payload v = Some JNull then None else vr_payload v)\<rparr>
         else res)"

definition EvaluateDefinition :: "(string \<Rightarrow> rat option) \<Rightarrow> (string \<Rightarrow> string) \<Rightarrow> FlagDefinition \<Rightarrow> string
    \<Rightarrow> user_ctx \<Rightarrow> EvaluationResult" where
  "EvaluateDefinition pf fv def user ctx =
     (if fd_invalid def \<noteq> [] then refuse ReasonInvalid (clampDetail (fd_invalid def))
      else if \<not> fd_enabled def then refuse ReasonEvaluated ''flag disabled''
      else if fd_pct def < 100 \<and> Bucket (fd_key def) user > fd_pct def then refuse ReasonEvaluated ''rollout''
      else if fd_groups def \<noteq> [] then
        (case pick_group pf fv (fd_key def) user ctx 0 False (fd_groups def) of
           (matched, None) \<Rightarrow> refuse ReasonEvaluated (if matched then ''group_rollout'' else ''targeting'')
         | (_, Some gk) \<Rightarrow> admit_result def user (Some gk))
      else if fd_rules def \<noteq> [] \<and> \<not> matchesTargeting pf fv (fd_rules def) ctx then
        refuse ReasonEvaluated ''targeting''
      else admit_result def user None)"

section \<open>Parsing stored configs\<close>

text \<open>A value of type \<^verbatim>\<open>any\<close>: every number must be a float64.\<close>

fun any_ok :: "(string \<Rightarrow> rat option) \<Rightarrow> json \<Rightarrow> bool"
  and anys_ok :: "(string \<Rightarrow> rat option) \<Rightarrow> json list \<Rightarrow> bool"
  and any_members_ok :: "(string \<Rightarrow> rat option) \<Rightarrow> (string \<times> json) list \<Rightarrow> bool" where
  "any_ok pf (JNum l) = (pf l \<noteq> None)"
| "any_ok pf (JArr vs) = anys_ok pf vs"
| "any_ok pf (JObj ms) = any_members_ok pf ms"
| "any_ok pf _ = True"
| "anys_ok pf [] = True"
| "anys_ok pf (v # vs) = (any_ok pf v \<and> anys_ok pf vs)"
| "any_members_ok pf [] = True"
| "any_members_ok pf ((k, v) # ms) = (any_ok pf v \<and> any_members_ok pf ms)"

definition dec_any :: "(string \<Rightarrow> rat option) \<Rightarrow> json \<Rightarrow> json \<Rightarrow> json option" where
  "dec_any pf x j = (if any_ok pf j then Some j else None)"

text \<open>\<^verbatim>\<open>DisallowUnknownFields\<close>.\<close>

definition known :: "bool \<Rightarrow> string list \<Rightarrow> (string \<times> json) list \<Rightarrow> bool" where
  "known strict names ms \<longleftrightarrow> (strict \<longrightarrow> list_all (\<lambda>(k, v). list_ex (\<lambda>f. key_match f k) names) ms)"

definition zero_rule :: TargetingRule where
  "zero_rule = \<lparr>tr_attribute = [], tr_operator = [], tr_value = JNull\<rparr>"

definition dec_rule :: "(string \<Rightarrow> rat option) \<Rightarrow> bool \<Rightarrow> TargetingRule \<Rightarrow> json \<Rightarrow> TargetingRule option" where
  "dec_rule pf strict x j = (case j of
     JNull \<Rightarrow> Some x
   | JObj ms \<Rightarrow> if \<not> known strict [''attribute'', ''operator'', ''value''] ms then None else do {
       a \<leftarrow> fill dec_string ''attribute'' (tr_attribute x) ms;
       op \<leftarrow> fill dec_string ''operator'' (tr_operator x) ms;
       v \<leftarrow> fill (dec_any pf) ''value'' (tr_value x) ms;
       Some \<lparr>tr_attribute = a, tr_operator = op, tr_value = v\<rparr>}
   | _ \<Rightarrow> None)"

definition zero_variant :: Variant where
  "zero_variant = \<lparr>vr_key = [], vr_name = [], vr_pct = 0, vr_payload = None\<rparr>"

definition dec_variant :: "bool \<Rightarrow> Variant \<Rightarrow> json \<Rightarrow> Variant option" where
  "dec_variant strict x j = (case j of
     JNull \<Rightarrow> Some x
   | JObj ms \<Rightarrow> if \<not> known strict [''key'', ''name'', ''rollout_pct'', ''payload''] ms then None else do {
       k \<leftarrow> fill dec_string ''key'' (vr_key x) ms;
       n \<leftarrow> fill dec_string ''name'' (vr_name x) ms;
       p \<leftarrow> fill dec_int64 ''rollout_pct'' (vr_pct x) ms;
       d \<leftarrow> fill (\<lambda>_ v. Some (Some v)) ''payload'' (vr_payload x) ms;
       Some \<lparr>vr_key = k, vr_name = n, vr_pct = p, vr_payload = d\<rparr>}
   | _ \<Rightarrow> None)"

fun dec_int_ptr :: "int option \<Rightarrow> json \<Rightarrow> int option option" where
  "dec_int_ptr x JNull = Some None"
| "dec_int_ptr x (JNum l) = map_option Some (parse_int64 l)"
| "dec_int_ptr x _ = None"

definition zero_group :: ConditionGroup where
  "zero_group = \<lparr>cg_key = [], cg_name = [], cg_conditions = [], cg_pct = None, cg_variant = []\<rparr>"

definition slice_list :: "'a list option \<Rightarrow> 'a list" where
  "slice_list x = (case x of None \<Rightarrow> [] | Some l \<Rightarrow> l)"

definition dec_group :: "(string \<Rightarrow> rat option) \<Rightarrow> ConditionGroup \<Rightarrow> json \<Rightarrow> ConditionGroup option" where
  "dec_group pf x j = (case j of
     JNull \<Rightarrow> Some x
   | JObj ms \<Rightarrow>
       if \<not> known True [''key'', ''name'', ''conditions'', ''rollout_pct'', ''variant''] ms then None else do {
       k \<leftarrow> fill dec_string ''key'' (cg_key x) ms;
       n \<leftarrow> fill dec_string ''name'' (cg_name x) ms;
       cs \<leftarrow> fill (dec_slice (dec_rule pf True) zero_rule) ''conditions'' None ms;
       p \<leftarrow> fill dec_int_ptr ''rollout_pct'' (cg_pct x) ms;
       v \<leftarrow> fill dec_string ''variant'' (cg_variant x) ms;
       Some \<lparr>cg_key = k, cg_name = n, cg_conditions = slice_list cs, cg_pct = p, cg_variant = v\<rparr>}
   | _ \<Rightarrow> None)"

text \<open>The loop over the groups: default keys, then the checks in the code's order.\<close>

fun check_groups :: "(string \<Rightarrow> rat option) \<Rightarrow> nat \<Rightarrow> string list \<Rightarrow> ConditionGroup list
    \<Rightarrow> config_error + ConditionGroup list" where
  "check_groups pf i seen [] = Inr []"
| "check_groups pf i seen (g0 # gs) =
     (let g = g0\<lparr>cg_key := group_key i g0\<rparr> in
      if length (cg_key g) > maxGroupKeyLen then Inl (GroupKeyTooLong i)
      else if cg_key g \<in> set seen then Inl (DuplicateGroupKey (cg_key g))
      else if (case cg_pct g of None \<Rightarrow> False | Some p \<Rightarrow> p < 0 \<or> p > 100) then Inl (GroupPctRange i (the (cg_pct g)))
      else if length (cg_conditions g) > maxGroupConditions then Inl (TooManyConditions i (length (cg_conditions g)))
      else case validateRules pf (''group '' @ dec_nat i @ '': condition'') 0 (cg_conditions g) of
        Some e \<Rightarrow> Inl e
      | None \<Rightarrow> (case check_groups pf (i + 1) (cg_key g # seen) gs of Inl e \<Rightarrow> Inl e | Inr r \<Rightarrow> Inr (g # r)))"

definition parseGroups :: "(string \<Rightarrow> rat option) \<Rightarrow> json \<Rightarrow> config_error + ConditionGroup list" where
  "parseGroups pf j =
     (case (case j of JObj ms \<Rightarrow> if known True [''groups''] ms
              then fill (dec_slice (dec_group pf) zero_group) ''groups'' None ms else None
            | _ \<Rightarrow> None) of
        None \<Rightarrow> Inl InvalidGroupsJSON
      | Some gs \<Rightarrow>
          if slice_list gs = [] then Inl NoGroups
          else if length (slice_list gs) > maxGroups then Inl (TooManyGroups (length (slice_list gs)))
          else check_groups pf 0 [] (slice_list gs))"

definition ValidateTargeting :: "(string \<Rightarrow> rat option) \<Rightarrow> string \<Rightarrow> config_error + TargetingRule list" where
  "ValidateTargeting pf raw =
     (if raw = [] \<or> raw = ''null'' \<or> raw = ''[]'' then Inr []
      else case Option.bind (parse_json raw) (dec_slice (dec_rule pf False) zero_rule None) of
        None \<Rightarrow> Inl InvalidJSON
      | Some rs \<Rightarrow> (case validateRules pf ''rule'' 0 (slice_list rs) of
          Some e \<Rightarrow> Inl e | None \<Rightarrow> Inr (slice_list rs)))"

definition parseTargetingConfig :: "(string \<Rightarrow> rat option) \<Rightarrow> string
    \<Rightarrow> config_error + (TargetingRule list \<times> ConditionGroup list)" where
  "parseTargetingConfig pf raw =
     (let legacy = (case ValidateTargeting pf raw of Inl e \<Rightarrow> Inl e | Inr rs \<Rightarrow> Inr (rs, [])) in
      if has_prefix (TrimSpace raw) ''{'' then
        (case parse_json (TrimSpace raw) of
           Some (JObj ms) \<Rightarrow>
             if ''groups'' \<in> fst ` set ms then
               (case parseGroups pf (JObj ms) of Inl e \<Rightarrow> Inl e | Inr gs \<Rightarrow> Inr ([], gs))
             else legacy
         | _ \<Rightarrow> legacy)
      else legacy)"

fun check_variants :: "nat \<Rightarrow> string list \<Rightarrow> Variant list \<Rightarrow> config_error option" where
  "check_variants i seen [] = None"
| "check_variants i seen (v # vs) =
     (if vr_key v = [] then Some (VariantKeyRequired i)
      else if vr_key v \<in> set seen then Some (DuplicateVariantKey (vr_key v))
      else if vr_pct v < 0 \<or> vr_pct v > 100 then Some (VariantPctRange i (vr_pct v))
      else if (case vr_payload v of None \<Rightarrow> False | Some p \<Rightarrow> length (print_json p) > MaxPayloadBytes)
        then Some (PayloadTooLarge i (length (print_json (the (vr_payload v)))))
      else check_variants (i + 1) (vr_key v # seen) vs)"

definition ValidateVariants :: "string \<Rightarrow> config_error + Variant list" where
  "ValidateVariants raw =
     (if raw = [] then Inr []
      else case Option.bind (parse_json raw) (dec_slice (dec_variant False) zero_variant None) of
        None \<Rightarrow> Inl VariantsInvalidJSON
      | Some vs \<Rightarrow> (case check_variants 0 [] (slice_list vs) of
          Some e \<Rightarrow> Inl e | None \<Rightarrow> Inr (slice_list vs)))"

fun checkGroupVariants :: "nat \<Rightarrow> ConditionGroup list \<Rightarrow> Variant list \<Rightarrow> bool \<Rightarrow> config_error option" where
  "checkGroupVariants i [] vs multivariate = None"
| "checkGroupVariants i (g # gs) vs multivariate =
     (if cg_variant g = [] then checkGroupVariants (i + 1) gs vs multivariate
      else if multivariate \<and> list_ex (\<lambda>v. vr_key v = cg_variant g) vs then checkGroupVariants (i + 1) gs vs multivariate
      else Some (UndeclaredVariant i (cg_variant g)))"

text \<open>The failing part is named with the error, as \<^verbatim>\<open>ConfigError\<close> does.\<close>

definition ParseDefinition :: "(string \<Rightarrow> rat option) \<Rightarrow> FeatureFlag \<Rightarrow> (string \<times> config_error) + FlagDefinition" where
  "ParseDefinition pf f =
     (case parseTargetingConfig pf (ff_targeting f) of
        Inl e \<Rightarrow> Inl (''targeting'', e)
      | Inr (rules, groups) \<Rightarrow>
          (case (if ff_type f = ''multivariate'' \<and> ff_variants f \<noteq> [] then ValidateVariants (ff_variants f) else Inr []) of
             Inl e \<Rightarrow> Inl (''variants'', e)
           | Inr vs \<Rightarrow>
               (case checkGroupVariants 0 groups vs (ff_type f = ''multivariate'') of
                  Some e \<Rightarrow> Inl (''targeting'', e)
                | None \<Rightarrow> Inr \<lparr>fd_key = ff_key f, fd_type = ff_type f, fd_enabled = ff_enabled f,
                     fd_pct = ff_pct f, fd_variants = vs, fd_rules = rules, fd_groups = groups, fd_invalid = []\<rparr>)))"

definition ValidateConfig :: "(string \<Rightarrow> rat option) \<Rightarrow> string \<Rightarrow> string \<Rightarrow> string \<Rightarrow> config_error option" where
  "ValidateConfig pf flagType variants targeting =
     (if flagType \<noteq> ''boolean'' \<and> flagType \<noteq> ''multivariate'' then Some BadFlagType
      else if flagType = ''multivariate'' \<and> (variants = [] \<or> variants = ''[]'') then Some VariantsRequired
      else case parseTargetingConfig pf targeting of
        Inl e \<Rightarrow> Some e
      | Inr (rules, groups) \<Rightarrow>
          if variants \<noteq> [] \<and> Option.bind (parse_json variants) (dec_slice (dec_variant True) zero_variant None) = None
          then Some VariantsInvalidJSON
          else (case ValidateVariants variants of
                  Inl e \<Rightarrow> Some e
                | Inr vs \<Rightarrow> checkGroupVariants 0 groups vs (flagType = ''multivariate'')))"

section \<open>The config bundle\<close>

text \<open>A row whose stored config is rejected is served quarantined, its error text clamped.\<close>

definition bundle_definition :: "(config_error \<Rightarrow> string) \<Rightarrow> (string \<Rightarrow> rat option) \<Rightarrow> FeatureFlag \<Rightarrow> FlagDefinition" where
  "bundle_definition error_text pf f =
     (case ParseDefinition pf f of
        Inr d \<Rightarrow> d
      | Inl (part, e) \<Rightarrow> \<lparr>fd_key = ff_key f, fd_type = ff_type f, fd_enabled = ff_enabled f, fd_pct = ff_pct f,
          fd_variants = [], fd_rules = [], fd_groups = [],
          fd_invalid = clampDetail (''stored '' @ part @ '' failed validation: '' @ error_text e)\<rparr>)"

definition key_le :: "string \<Rightarrow> string \<Rightarrow> bool" where
  "key_le a b \<longleftrightarrow> ord.lexordp_eq (\<lambda>x y. (of_char x :: nat) < of_char y) a b"

fun insert_by :: "('a \<Rightarrow> string) \<Rightarrow> 'a \<Rightarrow> 'a list \<Rightarrow> 'a list" where
  "insert_by f x [] = [x]"
| "insert_by f x (y # ys) = (if key_le (f x) (f y) then x # y # ys else y # insert_by f x ys)"

definition BuildConfig :: "(config_error \<Rightarrow> string) \<Rightarrow> (string \<Rightarrow> rat option) \<Rightarrow> FeatureFlag list \<Rightarrow> FlagDefinition list" where
  "BuildConfig error_text pf rows = foldr (insert_by fd_key) (map (bundle_definition error_text pf) rows) []"

end
