(* ===== verification/FlagProps.thy ===== *)
theory FlagProps
  imports FlagEval "HOL-Library.Multiset" "HOL-Library.Char_ord"
begin

text \<open>What flag evaluation guarantees, over the definitions of \<^verbatim>\<open>src/internal/flags/eval.go\<close>.\<close>

section \<open>Buckets\<close>

text \<open>Every user falls into a bucket from 1 to 100, so a rollout of 0 admits nobody and one of
  100 everybody.\<close>

theorem bucket_range: "1 \<le> Bucket salt user \<and> Bucket salt user \<le> 100"
  by (simp add: Bucket_def Let_def)

section \<open>Groups\<close>

definition group_admits :: "(string \<Rightarrow> rat option) \<Rightarrow> (string \<Rightarrow> string) \<Rightarrow> string \<Rightarrow> string \<Rightarrow> user_ctx
    \<Rightarrow> nat \<Rightarrow> ConditionGroup \<Rightarrow> bool" where
  "group_admits pf fv fkey user ctx i g \<longleftrightarrow> matchesTargeting pf fv (cg_conditions g) ctx
     \<and> (case cg_pct g of None \<Rightarrow> True | Some p \<Rightarrow> p \<ge> 100 \<or> Bucket (groupSalt fkey (group_key i g)) user \<le> p)"

lemma pick_group_spec:
  "pick_group pf fv fkey user ctx i m gs = (m', r) \<Longrightarrow>
    (case r of
       None \<Rightarrow> (\<forall>j < length gs. \<not> group_admits pf fv fkey user ctx (i + j) (gs ! j))
         \<and> (m' \<longleftrightarrow> m \<or> (\<exists>g \<in> set gs. matchesTargeting pf fv (cg_conditions g) ctx))
     | Some (g, k) \<Rightarrow> \<exists>j < length gs. g = gs ! j \<and> k = group_key (i + j) g
         \<and> group_admits pf fv fkey user ctx (i + j) g
         \<and> (\<forall>l < j. \<not> group_admits pf fv fkey user ctx (i + l) (gs ! l)))"
proof (induction gs arbitrary: i m)
  case Nil
  then show ?case by auto
next
  case (Cons g gs)
  show ?case
  proof (cases "group_admits pf fv fkey user ctx i g")
    case True
    then have "pick_group pf fv fkey user ctx i m (g # gs) = (True, Some (g, group_key i g))"
      by (auto simp: group_admits_def Let_def split: option.splits)
    then have r: "r = Some (g, group_key i g)" using Cons.prems by simp
    have "\<exists>j < length (g # gs). g = (g # gs) ! j \<and> group_key i g = group_key (i + j) g
        \<and> group_admits pf fv fkey user ctx (i + j) g
        \<and> (\<forall>l < j. \<not> group_admits pf fv fkey user ctx (i + l) ((g # gs) ! l))"
      by (rule exI [of _ 0]) (use True in simp)
    then show ?thesis unfolding r option.case prod.case .
  next
    case False
    define m1 where "m1 = (m \<or> matchesTargeting pf fv (cg_conditions g) ctx)"
    have rest: "pick_group pf fv fkey user ctx (i + 1) m1 gs = (m', r)"
      using Cons.prems False by (auto simp: group_admits_def Let_def m1_def split: option.splits if_splits)
    note IH = Cons.IH [OF rest]
    show ?thesis
    proof (cases r)
      case None
      then have n: "\<forall>j < length gs. \<not> group_admits pf fv fkey user ctx (i + 1 + j) (gs ! j)"
        and m': "m' \<longleftrightarrow> m1 \<or> (\<exists>g \<in> set gs. matchesTargeting pf fv (cg_conditions g) ctx)"
        using IH by simp_all
      have "\<forall>j < length (g # gs). \<not> group_admits pf fv fkey user ctx (i + j) ((g # gs) ! j)"
        using n False by (auto simp: less_Suc_eq_0_disj)
      then show ?thesis using None m' by (auto simp: m1_def)
    next
      case (Some gk)
      obtain g1 k where gk: "gk = (g1, k)" by fastforce
      from IH Some gk obtain j where j: "j < length gs" "g1 = gs ! j" "k = group_key (i + 1 + j) g1"
        "group_admits pf fv fkey user ctx (i + 1 + j) g1"
        "\<forall>l < j. \<not> group_admits pf fv fkey user ctx (i + 1 + l) (gs ! l)" by auto
      have "\<forall>l < Suc j. \<not> group_admits pf fv fkey user ctx (i + l) ((g # gs) ! l)"
        using j(5) False by (auto simp: less_Suc_eq_0_disj)
      then have "\<exists>j < length (g # gs). g1 = (g # gs) ! j \<and> k = group_key (i + j) g1
          \<and> group_admits pf fv fkey user ctx (i + j) g1
          \<and> (\<forall>l < j. \<not> group_admits pf fv fkey user ctx (i + l) ((g # gs) ! l))"
        by (intro exI [of _ "Suc j"]) (use j in simp)
      then show ?thesis unfolding Some gk option.case prod.case .
    qed
  qed
qed

lemma admit_result_enabled [simp]: "er_enabled (admit_result d u g)"
  by (simp add: admit_result_def Let_def)

lemma refuse_simps [simp]: "\<not> er_enabled (refuse r d)" "er_variant (refuse r d) = []"
  "er_group (refuse r d) = []" "er_reason (refuse r d) = r"
  by (simp_all add: refuse_def)

section \<open>When a flag is on\<close>

lemma enabled_iff:
  "er_enabled (EvaluateDefinition pf fv d user ctx) \<longleftrightarrow>
     fd_invalid d = [] \<and> fd_enabled d \<and> (fd_pct d \<ge> 100 \<or> Bucket (fd_key d) user \<le> fd_pct d)
     \<and> (if fd_groups d \<noteq> []
        then \<exists>i < length (fd_groups d). group_admits pf fv (fd_key d) user ctx i (fd_groups d ! i)
        else \<forall>r \<in> set (fd_rules d). matchRule pf fv r ctx)"
proof -
  obtain m r where p: "pick_group pf fv (fd_key d) user ctx 0 False (fd_groups d) = (m, r)" by fastforce
  note P = pick_group_spec [OF p]
  have "(r \<noteq> None) = (\<exists>i < length (fd_groups d). group_admits pf fv (fd_key d) user ctx i (fd_groups d ! i))"
    using P by (auto split: option.splits)
  then show ?thesis
    by (auto simp: EvaluateDefinition_def p matchesTargeting_def list_all_iff split: option.splits)
qed

text \<open>C16: Raising a flag's rollout percentage never takes the flag from a user who has it, and does
  not change the variant, payload or group the user gets.\<close>

theorem rollout_monotone:
  assumes "er_enabled (EvaluateDefinition pf fv d user ctx)" "fd_pct d \<le> p"
  shows "EvaluateDefinition pf fv (d\<lparr>fd_pct := p\<rparr>) user ctx = EvaluateDefinition pf fv d user ctx"
proof -
  have a: "admit_result (d\<lparr>fd_pct := p\<rparr>) user g = admit_result d user g" for g
    by (simp add: admit_result_def Let_def)
  have "fd_pct d \<ge> 100 \<or> Bucket (fd_key d) user \<le> fd_pct d" "fd_invalid d = []" "fd_enabled d"
    using assms(1) unfolding enabled_iff by blast+
  then show ?thesis using assms(2) by (auto simp: EvaluateDefinition_def a)
qed

definition sample_flag :: FlagDefinition where
  "sample_flag = \<lparr>fd_key = ''f'', fd_type = ''multivariate'', fd_enabled = True, fd_pct = 100,
     fd_variants = [\<lparr>vr_key = ''a'', vr_name = [], vr_pct = 30, vr_payload = None\<rparr>,
                    \<lparr>vr_key = ''b'', vr_name = [], vr_pct = 70, vr_payload = None\<rparr>],
     fd_rules = [], fd_groups = [\<lparr>cg_key = ''k'', cg_name = [], cg_conditions = [], cg_pct = None,
                                  cg_variant = ''b''\<rparr>], fd_invalid = []\<rparr>"

lemma sample_flag_on: "er_enabled (EvaluateDefinition pf fv sample_flag user ctx)"
  by (simp add: enabled_iff) (simp add: sample_flag_def group_admits_def matchesTargeting_def)

text \<open>C15: The evaluator fails closed: a flag is on for a user exactly when its stored config was
  valid, it is enabled, the user is inside the flag rollout, and either one of its groups both
  matches the user and admits the user by its own rollout, or (without groups) every rule of the
  legacy list matches.\<close>

theorem evaluate_enabled_iff:
  "er_enabled (EvaluateDefinition pf fv d user ctx) \<longleftrightarrow>
     fd_invalid d = [] \<and> fd_enabled d \<and> (fd_pct d \<ge> 100 \<or> Bucket (fd_key d) user \<le> fd_pct d)
     \<and> (if fd_groups d \<noteq> []
        then \<exists>i < length (fd_groups d). group_admits pf fv (fd_key d) user ctx i (fd_groups d ! i)
        else \<forall>r \<in> set (fd_rules d). matchRule pf fv r ctx)"
  by (rule enabled_iff)

theorem evaluate_enabled_iff_witness:
  "er_enabled (EvaluateDefinition (\<lambda>_. None) (\<lambda>s. s) sample_flag ''u'' [])"
  unfolding evaluate_enabled_iff by (simp add: sample_flag_def group_admits_def matchesTargeting_def)

theorem rollout_monotone_witness:
  "EvaluateDefinition (\<lambda>_. None) (\<lambda>s. s) (sample_flag\<lparr>fd_pct := 120\<rparr>) ''u'' []
     = EvaluateDefinition (\<lambda>_. None) (\<lambda>s. s) sample_flag ''u'' []"
  by (rule rollout_monotone [OF sample_flag_on]) (simp add: sample_flag_def)

lemma group_decides:
  assumes "fd_groups d \<noteq> []" "er_enabled (EvaluateDefinition pf fv d user ctx)"
  shows "\<exists>i < length (fd_groups d).
     group_admits pf fv (fd_key d) user ctx i (fd_groups d ! i)
     \<and> (\<forall>j < i. \<not> group_admits pf fv (fd_key d) user ctx j (fd_groups d ! j))
     \<and> EvaluateDefinition pf fv d user ctx
        = admit_result d user (Some (fd_groups d ! i, group_key i (fd_groups d ! i)))
     \<and> er_group (EvaluateDefinition pf fv d user ctx) = group_key i (fd_groups d ! i)"
proof -
  obtain m r where p: "pick_group pf fv (fd_key d) user ctx 0 False (fd_groups d) = (m, r)" by fastforce
  have E: "EvaluateDefinition pf fv d user ctx = (case r of
       None \<Rightarrow> refuse ReasonEvaluated (if m then ''group_rollout'' else ''targeting'')
     | Some gk \<Rightarrow> admit_result d user (Some gk))"
    using assms by (auto simp: EvaluateDefinition_def p split: option.splits)
  then obtain g k where r: "r = Some (g, k)" using assms(2) by (cases r) auto
  from pick_group_spec [OF p] r obtain i where "i < length (fd_groups d)" "g = fd_groups d ! i"
    "k = group_key i g" "group_admits pf fv (fd_key d) user ctx i g"
    "\<forall>j < i. \<not> group_admits pf fv (fd_key d) user ctx j (fd_groups d ! j)" by auto
  then show ?thesis using E r by (intro exI [of _ i]) (simp add: admit_result_def Let_def)
qed

text \<open>With groups, the group that decides is the first one, in stored order, that admits the
  user; its key is reported.\<close>

theorem first_group_wins:
  assumes "fd_groups d \<noteq> []" "er_enabled (EvaluateDefinition pf fv d user ctx)"
  shows "\<exists>i < length (fd_groups d).
     group_admits pf fv (fd_key d) user ctx i (fd_groups d ! i)
     \<and> (\<forall>j < i. \<not> group_admits pf fv (fd_key d) user ctx j (fd_groups d ! j))
     \<and> EvaluateDefinition pf fv d user ctx
        = admit_result d user (Some (fd_groups d ! i, group_key i (fd_groups d ! i)))
     \<and> er_group (EvaluateDefinition pf fv d user ctx) = group_key i (fd_groups d ! i)"
  using assms by (rule group_decides)

theorem first_group_wins_witness:
  "er_group (EvaluateDefinition (\<lambda>_. None) (\<lambda>s. s) sample_flag ''u'' []) = ''k''"
  using first_group_wins [OF _ sample_flag_on, of "\<lambda>_. None" "\<lambda>s. s" "''u''" "[]"]
  by (auto simp: sample_flag_def group_key_def)

section \<open>Variants\<close>

lemma find_index_spec: "find_index P xs = Some i \<Longrightarrow> i < length xs \<and> P (xs ! i)"
  by (induction xs arbitrary: i) (auto split: if_splits)

lemma find_index_None: "find_index P xs = None \<longleftrightarrow> (\<forall>x \<in> set xs. \<not> P x)"
  by (induction xs) auto

lemma pick_cumulative_lt: "pick_cumulative h a vs = Some i \<Longrightarrow> i < length vs"
  by (induction vs arbitrary: a i) (auto split: if_splits)

lemma choose_variant_lt: "vs \<noteq> [] \<Longrightarrow> choose_variant k u g vs < length vs"
  using find_index_spec pick_cumulative_lt
  by (fastforce simp: choose_variant_def Let_def split: option.splits if_splits)

text \<open>A multivariate flag that is on always answers with one of its declared variants, and with
  the variant its group names when the parsed config has such a group override.\<close>

theorem variant_declared:
  assumes "ParseDefinition pf f = Inr d" "er_enabled (EvaluateDefinition pf fv d user ctx)"
    and "fd_type d = ''multivariate''" "fd_variants d \<noteq> []"
  shows "er_variant (EvaluateDefinition pf fv d user ctx) \<in> vr_key ` set (fd_variants d)
    \<and> (\<forall>g \<in> set (fd_groups d). er_group (EvaluateDefinition pf fv d user ctx) = cg_key g \<and> cg_variant g \<noteq> []
         \<and> distinct (map cg_key (fd_groups d)) \<and> [] \<notin> cg_key ` set (fd_groups d)
         \<longrightarrow> er_variant (EvaluateDefinition pf fv d user ctx) = cg_variant g)"
proof -
  have decl: "\<exists>v \<in> set (fd_variants d). vr_key v = cg_variant g" if "g \<in> set (fd_groups d)" "cg_variant g \<noteq> []" for g
  proof -
    have "checkGroupVariants 0 (fd_groups d) (fd_variants d) (fd_type d = ''multivariate'') = None"
      using assms(1) by (auto simp: ParseDefinition_def split: sum.splits prod.splits option.splits)
    then have "checkGroupVariants 0 (fd_groups d) (fd_variants d) True = None" using assms(3) by simp
    moreover have "checkGroupVariants i gs vs True = None \<Longrightarrow> g \<in> set gs \<Longrightarrow> cg_variant g \<noteq> []
        \<Longrightarrow> \<exists>v \<in> set vs. vr_key v = cg_variant g" for i gs vs
      by (induction i gs vs True rule: checkGroupVariants.induct)
        (auto simp: list_ex_iff split: if_splits)
    ultimately show ?thesis using that by blast
  qed
  have adm: "er_variant (admit_result d user g)
      = vr_key (fd_variants d ! choose_variant (fd_key d) user (map_option fst g) (fd_variants d))" for g
    using assms(3,4) by (simp add: admit_result_def Let_def)
  obtain grp where E: "EvaluateDefinition pf fv d user ctx = admit_result d user grp"
    using assms(2) by (auto simp: EvaluateDefinition_def split: if_splits prod.splits option.splits)
  have mem: "er_variant (EvaluateDefinition pf fv d user ctx) \<in> vr_key ` set (fd_variants d)"
    unfolding E adm using choose_variant_lt [OF assms(4)] by simp
  have "er_variant (EvaluateDefinition pf fv d user ctx) = cg_variant g"
    if g: "g \<in> set (fd_groups d)" "er_group (EvaluateDefinition pf fv d user ctx) = cg_key g"
      "cg_variant g \<noteq> []" "distinct (map cg_key (fd_groups d))" "[] \<notin> cg_key ` set (fd_groups d)" for g
  proof -
    from g(1) have "fd_groups d \<noteq> []" by auto
    from group_decides [OF this assms(2)] obtain i where i: "i < length (fd_groups d)"
      "EvaluateDefinition pf fv d user ctx
        = admit_result d user (Some (fd_groups d ! i, group_key i (fd_groups d ! i)))"
      "er_group (EvaluateDefinition pf fv d user ctx) = group_key i (fd_groups d ! i)" by blast
    have "cg_key (fd_groups d ! i) \<noteq> []" using g(5) i(1) by (metis image_eqI nth_mem)
    then have "cg_key (fd_groups d ! i) = cg_key g" using i(3) g(2) by (simp add: group_key_def)
    then have gi: "fd_groups d ! i = g" using g(1,4) i(1) by (metis distinct_map inj_onD nth_mem)
    obtain v where v: "v \<in> set (fd_variants d)" "vr_key v = cg_variant g" using decl g(1,3) by blast
    then obtain j where j: "find_index (\<lambda>v. vr_key v = cg_variant g) (fd_variants d) = Some j"
      using find_index_None by (metis (mono_tags, lifting) not_None_eq)
    then show ?thesis
      unfolding i(2) adm gi using find_index_spec [OF j] g(3) by (simp add: choose_variant_def)
  qed
  then show ?thesis using mem by blast
qed

text \<open>A flag row whose stored config parses to two variants and one group that forces the second.\<close>

definition sample_variants :: json where
  "sample_variants = JArr [JObj [(''key'', JStr ''a''), (''rollout_pct'', JNum ''30'')],
     JObj [(''key'', JStr ''b''), (''rollout_pct'', JNum ''70'')]]"

definition sample_targeting :: json where
  "sample_targeting = JObj [(''groups'', JArr [JObj [(''key'', JStr ''k''), (''variant'', JStr ''b'')]])]"

definition sample_row :: FeatureFlag where
  "sample_row = \<lparr>ff_key = ''f'', ff_type = ''multivariate'', ff_enabled = True, ff_pct = 100,
     ff_variants = print_json sample_variants, ff_targeting = print_json sample_targeting\<rparr>"

lemma sample_json_ok: "json_ok sample_variants" "json_ok sample_targeting"
  by code_simp+

lemma sample_targeting_text: "TrimSpace (print_json sample_targeting) = print_json sample_targeting"
  "has_prefix (print_json sample_targeting) ''{''"
proof -
  obtain s where s: "print_json sample_targeting = byte 123 # s @ [byte 125]"
    by (simp add: sample_targeting_def CHR_byte del: print_members.simps)
  show "TrimSpace (print_json sample_targeting) = print_json sample_targeting"
    by (rule TrimSpace_id) (simp_all add: s is_space_def flip: byte_def)
  show "has_prefix (print_json sample_targeting) ''{''" by (simp add: s has_prefix_def CHR_byte)
qed

lemma sample_groups: "parseGroups (\<lambda>_. None) sample_targeting = Inr (fd_groups sample_flag)"
proof -
  have "fill (dec_slice (dec_group (\<lambda>_. None)) zero_group) ''groups'' None [(''groups'', JArr [JObj [(''key'', JStr ''k''), (''variant'', JStr ''b'')]])]
      = Some (Some (fd_groups sample_flag))"
    by code_simp
  moreover have "known True [''groups''] [(''groups'', v)]" for v
    by (simp add: known_def key_match_def)
  moreover have "check_groups (\<lambda>_. None) 0 [] (fd_groups sample_flag) = Inr (fd_groups sample_flag)"
    by (simp add: sample_flag_def group_key_def maxGroupKeyLen_def maxGroupConditions_def)
  ultimately show ?thesis
    by (simp add: parseGroups_def sample_targeting_def slice_list_def) (simp add: sample_flag_def maxGroups_def)
qed

lemma sample_keys:
  "\<not> key_match ''key'' ''rollout_pct''" "\<not> key_match ''name'' ''rollout_pct''" "\<not> key_match ''payload'' ''rollout_pct''"
  "\<not> key_match ''name'' ''key''" "\<not> key_match ''rollout_pct'' ''key''" "\<not> key_match ''payload'' ''key''"
  "key_match s s"
  by (simp_all add: key_match_def)

lemma sample_ints: "parse_int64 ''30'' = Some 30" "parse_int64 ''70'' = Some 70"
  by (simp_all add: parse_int64_digits parse_dec_def is_digit_def digit_val_def)

lemma sample_decoded: "dec_slice (dec_variant False) zero_variant None sample_variants = Some (Some (fd_variants sample_flag))"
  "check_variants 0 [] (fd_variants sample_flag) = None"
  by (simp_all add: sample_variants_def dec_variant_def zero_variant_def known_def sample_keys sample_ints sample_flag_def)

lemma sample_row_parses: "ParseDefinition (\<lambda>_. None) sample_row = Inr sample_flag"
proof -
  have "parseTargetingConfig (\<lambda>_. None) (print_json sample_targeting) = Inr ([], fd_groups sample_flag)"
    using sample_targeting_text sample_groups parse_json_print [OF sample_json_ok(2)]
    by (simp add: parseTargetingConfig_def sample_targeting_def)
  moreover have "ValidateVariants (print_json sample_variants) = Inr (fd_variants sample_flag)"
    using sample_decoded parse_json_print [OF sample_json_ok(1)]
    by (auto simp: ValidateVariants_def slice_list_def sample_variants_def)
  ultimately show ?thesis
    by (simp add: ParseDefinition_def sample_row_def) (simp add: sample_flag_def sample_variants_def)
qed

theorem variant_declared_witness:
  "er_variant (EvaluateDefinition (\<lambda>_. None) (\<lambda>s. s) sample_flag ''u'' []) = ''b''"
proof -
  have "er_group (EvaluateDefinition (\<lambda>_. None) (\<lambda>s. s) sample_flag ''u'' []) = ''k''"
    by (simp add: EvaluateDefinition_def sample_flag_def matchesTargeting_def admit_result_def Let_def group_key_def)
  then show ?thesis
    using variant_declared [OF sample_row_parses sample_flag_on [of "\<lambda>_. None" "\<lambda>s. s" "''u''" "[]"]]
    by (simp add: sample_flag_def)
qed

lemma pick_cumulative_range:
  assumes "\<forall>v \<in> set vs. 0 \<le> vr_pct v" "a < b"
  shows "pick_cumulative b a vs = Some i \<longleftrightarrow> i < length vs
     \<and> a + sum_list (map vr_pct (take i vs)) < b \<and> b \<le> a + sum_list (map vr_pct (take (Suc i) vs))"
  using assms
proof (induction vs arbitrary: a i)
  case (Cons v vs)
  show ?case
  proof (cases "b \<le> a + vr_pct v")
    case True
    have nn: "0 \<le> sum_list (map vr_pct (take j vs))" for j
      using Cons.prems(1) by (intro sum_list_nonneg) (auto dest: in_set_takeD)
    show ?thesis using True Cons.prems(2) nn by (cases i) (auto simp: not_less add.assoc [symmetric] intro: add_increasing2)
  next
    case False
    then show ?thesis using Cons.IH [of "a + vr_pct v"] Cons.prems by (cases i) (auto simp: algebra_simps)
  qed
qed simp

definition share :: "Variant list \<Rightarrow> nat \<Rightarrow> int set" where
  "share vs i = {b \<in> {1..100}. (case pick_cumulative b 0 vs of Some j \<Rightarrow> j | None \<Rightarrow> 0) = i}"

text \<open>The hash buckets are split among the variants exactly by their percentages: when the
  percentages are non-negative and sum to at most 100, a variant other than the first gets as many
  of the 100 buckets as its percentage says; the buckets left over go to the first.\<close>

theorem variant_shares:
  assumes "\<forall>v \<in> set vs. 0 \<le> vr_pct v" "sum_list (map vr_pct vs) \<le> 100" "i < length vs"
  shows "int (card (share vs i)) = vr_pct (vs ! i) + (if i = 0 then 100 - sum_list (map vr_pct vs) else 0)"
proof -
  let ?s = "\<lambda>k. sum_list (map vr_pct (take k vs))"
  have all: "sum_list (map vr_pct vs) = ?s i + sum_list (map vr_pct (drop i vs))" for i
    by (metis append_take_drop_id map_append sum_list_append)
  have nn: "0 \<le> sum_list (map vr_pct xs)" if "set xs \<subseteq> set vs" for xs
    using that assms(1) by (intro sum_list_nonneg) auto
  have le: "?s k \<le> sum_list (map vr_pct vs)" for k
    using all [of k] nn [of "drop k vs"] by (simp add: set_drop_subset)
  have pos: "0 \<le> ?s k" for k using nn [of "take k vs"] by (simp add: set_take_subset)
  have suc: "?s (Suc i) = ?s i + vr_pct (vs ! i)" using assms(3) by (simp add: take_Suc_conv_app_nth)
  have R: "pick_cumulative b 0 vs = Some j \<longleftrightarrow> j < length vs \<and> ?s j < b \<and> b \<le> ?s (Suc j)" if "1 \<le> b" for b j
    using pick_cumulative_range [OF assms(1), of 0 b j] that by simp
  have N: "pick_cumulative b 0 vs = None \<longleftrightarrow> sum_list (map vr_pct vs) < b" if b: "1 \<le> b" for b
  proof
    assume n: "pick_cumulative b 0 vs = None"
    have "k \<le> length vs \<Longrightarrow> ?s k < b" for k
    proof (induction k)
      case (Suc k)
      then have "\<not> b \<le> ?s (Suc k)" using n R [OF b, of k] by auto
      then show ?case by simp
    qed (use b in simp)
    from this [of "length vs"] show "sum_list (map vr_pct vs) < b" by simp
  next
    assume "sum_list (map vr_pct vs) < b"
    then have "pick_cumulative b 0 vs \<noteq> Some j" for j using R [OF b, of j] le [of "Suc j"] by auto
    then show "pick_cumulative b 0 vs = None" by (cases "pick_cumulative b 0 vs") auto
  qed
  have up: "vr_pct (vs ! i) \<ge> 0" using assms by simp
  show ?thesis
  proof (cases "i = 0")
    case False
    have "share vs i = {?s i + 1 .. ?s (Suc i)}"
    proof (intro set_eqI iffI)
      fix b assume "b \<in> share vs i"
      then have "1 \<le> b" "pick_cumulative b 0 vs = Some i"
        using False by (auto simp: share_def split: option.splits)
      then show "b \<in> {?s i + 1 .. ?s (Suc i)}" using R by simp
    next
      fix b assume "b \<in> {?s i + 1 .. ?s (Suc i)}"
      then have b: "1 \<le> b" "b \<le> 100" "?s i < b" "b \<le> ?s (Suc i)"
        using pos [of i] le [of "Suc i"] assms(2) by auto
      then show "b \<in> share vs i" using R [OF b(1), of i] assms(3) by (simp add: share_def)
    qed
    then show ?thesis using False suc up by simp
  next
    case True
    let ?t = "sum_list (map vr_pct vs)"
    have "share vs i = {1 .. ?s (Suc 0)} \<union> {?t + 1 .. 100}"
    proof (intro set_eqI iffI)
      fix b assume "b \<in> share vs i"
      then have b: "1 \<le> b" "b \<le> 100" "pick_cumulative b 0 vs = Some 0 \<or> pick_cumulative b 0 vs = None"
        using True by (auto simp: share_def split: option.splits)
      then show "b \<in> {1 .. ?s (Suc 0)} \<union> {?t + 1 .. 100}" using R [OF b(1), of 0] N [OF b(1)] by auto
    next
      fix b assume "b \<in> {1 .. ?s (Suc 0)} \<union> {?t + 1 .. 100}"
      then have b: "1 \<le> b" "b \<le> 100" "b \<le> ?s (Suc 0) \<or> ?t < b"
        using le [of "Suc 0"] assms(2) nn [of vs] by auto
      then have "pick_cumulative b 0 vs = Some 0 \<or> pick_cumulative b 0 vs = None"
        using R [OF b(1), of 0] N [OF b(1)] assms(3) True by auto
      then show "b \<in> share vs i" using b True by (auto simp: share_def)
    qed
    moreover have "{1 .. ?s (Suc 0)} \<inter> {?t + 1 .. 100} = {}" using le [of "Suc 0"] by auto
    ultimately have "card (share vs i) = card {1 .. ?s (Suc 0)} + card {?t + 1 .. 100}"
      by (simp add: card_Un_disjoint)
    then show ?thesis using True suc up assms(2) by simp
  qed
qed

theorem variant_shares_witness: "int (card (share (fd_variants sample_flag) 1)) = 70"
  using variant_shares [of "fd_variants sample_flag" 1] by (simp add: sample_flag_def)

section \<open>Quarantine\<close>

lemma insert_by_mset: "mset (insert_by f x ys) = add_mset x (mset ys)"
  by (induction ys) auto

lemma key_le_lex: "key_le a b \<longleftrightarrow> lexordp_eq a b"
proof (induction a arbitrary: b)
  case (Cons x a)
  then show ?case by (cases b) (simp_all add: key_le_def less_char_def)
qed (simp add: key_le_def)

lemma clampDetail_twice: "clampDetail (clampDetail s) = clampDetail s"
  by (simp add: clampDetail_def)

lemma clampDetail_Nil: "clampDetail s = [] \<longleftrightarrow> s = []"
  by (simp add: clampDetail_def)

lemma key_le_total: "key_le a b \<or> key_le b a"
  unfolding key_le_lex by (rule lexordp_eq_linear)

lemma key_le_trans: "key_le a b \<Longrightarrow> key_le b c \<Longrightarrow> key_le a c"
  unfolding key_le_lex by (rule lexordp_eq_trans)

lemma insert_by_sorted:
  "sorted_wrt (\<lambda>a b. key_le (f a) (f b)) ys \<Longrightarrow> sorted_wrt (\<lambda>a b. key_le (f a) (f b)) (insert_by f x ys)"
proof (induction ys)
  case (Cons y ys)
  have "set (insert_by f x ys) = insert x (set ys)"
    by (metis insert_by_mset set_mset_add_mset_insert set_mset_mset)
  then show ?case using Cons key_le_total key_le_trans by fastforce
qed simp

lemma BuildConfig_Cons:
  "BuildConfig t pf (r # rs) = insert_by fd_key (bundle_definition t pf r) (BuildConfig t pf rs)"
  by (simp add: BuildConfig_def)

text \<open>The config bundle serves every flag row exactly once, ordered by key; a row whose stored
  config does not parse is served quarantined, and a quarantined flag is off for every user.\<close>

theorem bundle_complete:
  "mset (BuildConfig t pf rows) = image_mset (bundle_definition t pf) (mset rows)
   \<and> sorted_wrt (\<lambda>a b. key_le (fd_key a) (fd_key b)) (BuildConfig t pf rows)
   \<and> (case ParseDefinition pf row of
        Inr d \<Rightarrow> bundle_definition t pf row = d
      | Inl (part, e) \<Rightarrow> EvaluateDefinition pf fv (bundle_definition t pf row) user ctx
          = refuse ReasonInvalid (clampDetail (''stored '' @ part @ '' failed validation: '' @ t e)))"
proof (intro conjI)
  show "mset (BuildConfig t pf rows) = image_mset (bundle_definition t pf) (mset rows)"
    by (induction rows) (simp_all add: BuildConfig_Cons insert_by_mset, simp add: BuildConfig_def)
  show "sorted_wrt (\<lambda>a b. key_le (fd_key a) (fd_key b)) (BuildConfig t pf rows)"
    by (induction rows) (simp_all add: BuildConfig_Cons insert_by_sorted, simp add: BuildConfig_def)
  show "case ParseDefinition pf row of
        Inr d \<Rightarrow> bundle_definition t pf row = d
      | Inl (part, e) \<Rightarrow> EvaluateDefinition pf fv (bundle_definition t pf row) user ctx
          = refuse ReasonInvalid (clampDetail (''stored '' @ part @ '' failed validation: '' @ t e))"
    by (cases "ParseDefinition pf row") (auto simp: bundle_definition_def EvaluateDefinition_def
      clampDetail_twice clampDetail_Nil)
qed

end
