(* ===== verification/FlagService.thy ===== *)
theory FlagService
  imports FlagEval
begin

text \<open>
  The flag service around the evaluator (\<^verbatim>\<open>src/internal/flags/flags.go\<close>, \<^verbatim>\<open>evaldedup.go\<close>): the bounded
  cache that keeps evaluation rows to one per window, and \<^verbatim>\<open>Evaluate\<close> with its accounting.  The
  clock, the store's answer to the config read and the outcome of the row insert are arguments.
\<close>

section \<open>The dedupe cache\<close>

text \<open>\<^verbatim>\<open>order\<close> holds key and recording time, most recently touched first; the Go map \<^verbatim>\<open>entries\<close> only
  indexes this list by key.\<close>

record 'k evalDedup =
  ed_window :: int
  ed_max :: nat
  ed_order :: "('k \<times> int) list"
  ed_evicted :: nat

definition DefaultEvalDedupWindow :: int where "DefaultEvalDedupWindow = 5 * 60 * 1000000000"
definition DefaultEvalDedupMax :: nat where "DefaultEvalDedupMax = 50000"

definition newEvalDedup :: "int \<Rightarrow> int \<Rightarrow> 'k evalDedup" where
  "newEvalDedup window m = \<lparr>ed_window = window, ed_max = (if m \<le> 0 then DefaultEvalDedupMax else nat m),
     ed_order = [], ed_evicted = 0\<rparr>"

definition LoadEvalDedupFromEnv :: "string \<Rightarrow> string \<Rightarrow> int \<times> int" where
  "LoadEvalDedupFromEnv seconds m =
     ((case parse_int64 (TrimSpace seconds) of
         Some n \<Rightarrow> if 0 \<le> n \<and> n \<le> 86400 then n * 1000000000 else DefaultEvalDedupWindow
       | None \<Rightarrow> DefaultEvalDedupWindow),
      (case parse_int64 (TrimSpace m) of
         Some n \<Rightarrow> if 0 < n \<and> n \<le> 5000000 then n else int DefaultEvalDedupMax
       | None \<Rightarrow> int DefaultEvalDedupMax))"

definition evalKey :: "string \<Rightarrow> string \<Rightarrow> string \<Rightarrow> string \<Rightarrow> nat list" where
  "evalKey siteID flagKey variant userID =
     Sum256 (concat (map (\<lambda>p. p @ [char_of (0 :: nat)]) [siteID, flagKey, variant, userID]))"

function evict_back :: "nat \<Rightarrow> 'a list \<Rightarrow> nat \<Rightarrow> 'a list \<times> nat" where
  "evict_back m xs n = (if length xs > m then evict_back m (butlast xs) (n + 1) else (xs, n))"
  by pat_completeness auto
termination by (relation "measure (\<lambda>(m, xs, n). length xs)") auto

declare evict_back.simps [simp del]

definition admit :: "'k evalDedup \<Rightarrow> int \<Rightarrow> 'k \<Rightarrow> bool \<times> 'k evalDedup" where
  "admit d now key =
     (if ed_window d \<le> 0 then (True, d)
      else case map_of (ed_order d) key of
        Some recordedAt \<Rightarrow>
          if now - recordedAt < ed_window d
          then (False, d\<lparr>ed_order := (key, recordedAt) # AList.delete key (ed_order d)\<rparr>)
          else (True, d\<lparr>ed_order := (key, now) # AList.delete key (ed_order d)\<rparr>)
      | None \<Rightarrow>
          (let (order, evicted) = evict_back (ed_max d) ((key, now) # ed_order d) (ed_evicted d)
           in (True, d\<lparr>ed_order := order, ed_evicted := evicted\<rparr>)))"

definition forget :: "'k evalDedup \<Rightarrow> 'k \<Rightarrow> 'k evalDedup" where
  "forget d key = (if ed_window d \<le> 0 then d else d\<lparr>ed_order := AList.delete key (ed_order d)\<rparr>)"

lemma evict_back_take: "evict_back m xs n = (take m xs, n + (length xs - m))"
proof (induction m xs n rule: evict_back.induct)
  case (1 m xs n)
  show ?case
  proof (cases "length xs > m")
    case True
    then have "take m (butlast xs) = take m xs" by (auto simp: butlast_conv_take min_def)
    then show ?thesis using 1 True by (subst evict_back.simps) simp
  qed (subst evict_back.simps, simp)
qed

lemma delete_map_fst: "map fst (AList.delete k xs) = filter (\<lambda>x. x \<noteq> k) (map fst xs)"
  by (induction xs) auto

lemma delete_lt: "k \<in> fst ` set xs \<Longrightarrow> length (AList.delete k xs) < length xs"
  by (auto simp: AList.delete_eq intro!: length_filter_less)

section \<open>The invariant of the cache\<close>

datatype 'k dedup_op = Admit int 'k | Forget 'k

fun dedup_step :: "'k evalDedup \<Rightarrow> 'k dedup_op \<Rightarrow> 'k evalDedup" where
  "dedup_step d (Admit now k) = snd (admit d now k)"
| "dedup_step d (Forget k) = forget d k"

definition dedup_inv :: "'k evalDedup \<Rightarrow> bool" where
  "dedup_inv d \<longleftrightarrow> distinct (map fst (ed_order d)) \<and> length (ed_order d) \<le> ed_max d"

lemma admit_inv [inv_intros]: "dedup_inv d \<Longrightarrow> dedup_inv (snd (admit d now k))"
proof -
  assume i: "dedup_inv d"
  then have D: "distinct (map fst ((k, t) # AList.delete k (ed_order d)))" for t
    by (auto simp: dedup_inv_def delete_map_fst image_iff)
  show ?thesis
  proof (cases "map_of (ed_order d) k")
    case None
    then have "distinct (map fst ((k, now) # ed_order d))"
      using i by (auto simp: dedup_inv_def map_of_eq_None_iff)
    then have "distinct (map fst (take (ed_max d) ((k, now) # ed_order d)))"
      by (metis distinct_take take_map)
    then show ?thesis using None i by (auto simp: admit_def evict_back_take dedup_inv_def)
  next
    case (Some t)
    then have "k \<in> fst ` set (ed_order d)" by (metis domI dom_map_of_conv_image_fst)
    then have "length (AList.delete k (ed_order d)) < ed_max d"
      using i delete_lt [of k "ed_order d"] by (simp add: dedup_inv_def)
    then show ?thesis using Some i D by (auto simp: admit_def dedup_inv_def)
  qed
qed

lemma forget_inv [inv_intros]: "dedup_inv d \<Longrightarrow> dedup_inv (forget d k)"
  using AList.length_delete_le [of k "ed_order d"]
  by (auto simp: forget_def dedup_inv_def delete_map_fst)

interpretation dedup: invariant_machine dedup_step dedup_inv
proof
  show "dedup_inv (dedup_step d x)" if "dedup_inv d" for d :: "'k evalDedup" and x
    using that by (cases x) (auto intro: inv_intros)
qed

text \<open>Whatever evaluations and failed writes come, the cache never holds more entries than its
  bound, and never two entries for one key.\<close>

theorem dedup_bounded:
  fixes ops :: "'k dedup_op list"
  shows "length (ed_order (run_ops dedup_step (newEvalDedup w m) ops)) \<le> (if m \<le> 0 then 50000 else nat m)
   \<and> distinct (map fst (ed_order (run_ops dedup_step (newEvalDedup w m) ops)))"
proof -
  have "dedup_inv (newEvalDedup w m :: 'k evalDedup)" by (simp add: dedup_inv_def newEvalDedup_def)
  from dedup.run_inv [OF this, of ops]
  have *: "dedup_inv (run_ops dedup_step (newEvalDedup w m) ops)" .
  have "ed_max (dedup_step d x) = ed_max d" for d :: "'k evalDedup" and x
    by (cases x) (auto simp: admit_def forget_def evict_back_take split: option.splits)
  then have "ed_max (run_ops dedup_step d ops) = ed_max d" for d :: "'k evalDedup"
    by (induction ops arbitrary: d) simp_all
  moreover have "ed_max (newEvalDedup w m :: 'k evalDedup) = (if m \<le> 0 then 50000 else nat m)"
    by (simp add: newEvalDedup_def DefaultEvalDedupMax_def)
  ultimately show ?thesis using * by (simp add: dedup_inv_def)
qed

section \<open>A suppressed row was written\<close>

lemma map_of_take: "map_of (take n xs) k = Some v \<Longrightarrow> map_of xs k = Some v"
  by (metis append_take_drop_id map_add_Some_iff map_of_append)

lemma admit_entry:
  assumes "map_of (ed_order (snd (admit d now k'))) k = Some t"
  shows "map_of (ed_order d) k = Some t \<or> (k = k' \<and> t = now \<and> fst (admit d now k'))"
  using assms map_of_take [of "ed_max d" "(k', now) # ed_order d" k t]
  by (cases "k = k'") (auto simp: admit_def evict_back_take split: if_splits option.splits)

lemma forget_entry:
  "map_of (ed_order (forget d k')) k = Some t \<Longrightarrow> ed_window d > 0 \<Longrightarrow> map_of (ed_order d) k = Some t \<and> k \<noteq> k'"
  by (cases "k = k'") (auto simp: forget_def)

lemma run_window [simp]: "ed_window (run_ops dedup_step d ops) = ed_window d"
proof (induction ops arbitrary: d)
  case (Cons x ops)
  have "ed_window (dedup_step d x) = ed_window d"
    by (cases x) (auto simp: admit_def forget_def evict_back_take split: option.splits)
  then show ?case using Cons by simp
qed simp

lemma entry_recorded:
  assumes "d = newEvalDedup w m" "w > 0" "map_of (ed_order (run_ops dedup_step d ops)) k = Some t"
  shows "\<exists>pre post. ops = pre @ Admit t k # post \<and> Forget k \<notin> set post
    \<and> fst (admit (run_ops dedup_step d pre) t k)"
  using assms
proof (induction ops arbitrary: t rule: rev_induct)
  case Nil
  then show ?case by (simp add: newEvalDedup_def)
next
  case (snoc x ops)
  have w: "ed_window (run_ops dedup_step d ops) > 0" using snoc.prems by (simp add: newEvalDedup_def)
  have step: "map_of (ed_order (dedup_step (run_ops dedup_step d ops) x)) k = Some t"
    using snoc.prems(3) by (simp add: run_ops_append)
  consider "map_of (ed_order (run_ops dedup_step d ops)) k = Some t" "x \<noteq> Forget k"
    | "x = Admit t k" "fst (admit (run_ops dedup_step d ops) t k)"
    using step admit_entry [of "run_ops dedup_step d ops"] forget_entry [OF _ w] by (cases x) fastforce+
  then show ?case
  proof cases
    case 1
    from snoc.IH [OF snoc.prems(1,2) 1(1)] obtain pre post where
      "ops = pre @ Admit t k # post" "Forget k \<notin> set post" "fst (admit (run_ops dedup_step d pre) t k)" by blast
    then show ?thesis using 1(2) by (intro exI [of _ pre] exI [of _ "post @ [x]"]) auto
  next
    case 2
    then show ?thesis by (intro exI [of _ ops] exI [of _ "[]"]) simp
  qed
qed

text \<open>A row is suppressed only when an evaluation of the same site, flag, variant and user was
  told to write its row less than one window ago, and no failed write was reported since: the
  cache's bound and evictions can cost extra rows, never a lost one.\<close>

theorem suppressed_was_written:
  assumes "\<not> fst (admit (run_ops dedup_step (newEvalDedup w m) ops) now k)"
  shows "\<exists>pre t post. ops = pre @ Admit t k # post \<and> now - t < w \<and> Forget k \<notin> set post
    \<and> fst (admit (run_ops dedup_step (newEvalDedup w m) pre) t k)"
proof -
  let ?d = "run_ops dedup_step (newEvalDedup w m) ops"
  from assms obtain t where w: "\<not> w \<le> 0" and t: "map_of (ed_order ?d) k = Some t" "now - t < w"
    by (auto simp: admit_def newEvalDedup_def evict_back_take split: if_splits option.splits)
  with entry_recorded [OF refl _ t(1)] show ?thesis by fastforce
qed

theorem suppressed_was_written_witness:
  "\<exists>pre t post. [Admit 0 (7 :: nat)] = pre @ Admit t 7 # post \<and> 5 - t < 10 \<and> Forget 7 \<notin> set post
    \<and> fst (admit (run_ops dedup_step (newEvalDedup 10 1) pre) t 7)"
  by (rule suppressed_was_written) (simp add: admit_def newEvalDedup_def evict_back_take)

section \<open>The service\<close>

datatype read_error = Deadline | Canceled | Storage

definition errorClass :: "read_error \<Rightarrow> string" where
  "errorClass e = (case e of Deadline \<Rightarrow> ''deadline'' | Canceled \<Rightarrow> ''canceled'' | Storage \<Rightarrow> ''storage'')"

record flagService =
  fs_unavailable :: nat
  fs_invalid :: nat
  fs_seen :: "string list"   \<comment> \<open>\<^verbatim>\<open>quarantineSeen\<close>: flag id, a bar, the failing part\<close>
  fs_dedup :: "nat list evalDedup"
  fs_written :: nat
  fs_deduped :: nat
  fs_failed :: nat

definition NewFlagService :: flagService where
  "NewFlagService = \<lparr>fs_unavailable = 0, fs_invalid = 0, fs_seen = [],
     fs_dedup = newEvalDedup DefaultEvalDedupWindow (int DefaultEvalDedupMax),
     fs_written = 0, fs_deduped = 0, fs_failed = 0\<rparr>"

definition WithEvalDedup :: "flagService \<Rightarrow> int \<Rightarrow> int \<Rightarrow> flagService" where
  "WithEvalDedup s window m = s\<lparr>fs_dedup := newEvalDedup window m\<rparr>"

definition flagStats :: "flagService \<Rightarrow> (string \<times> nat) list" where
  "flagStats s = [(''config_unavailable_total'', fs_unavailable s), (''invalid_config_total'', fs_invalid s),
     (''invalid_config_distinct'', length (fs_seen s)), (''eval_rows_written_total'', fs_written s),
     (''eval_rows_deduped_total'', fs_deduped s), (''eval_rows_failed_total'', fs_failed s),
     (''eval_dedup_entries'', length (ed_order (fs_dedup s))), (''eval_dedup_evicted'', ed_evicted (fs_dedup s))]"

text \<open>\<open>ok\<close>: whether the insert of the row, if it is tried, succeeds.\<close>

definition recordEvaluation :: "flagService \<Rightarrow> int \<Rightarrow> bool \<Rightarrow> string \<Rightarrow> string \<Rightarrow> string \<Rightarrow> string \<Rightarrow> flagService" where
  "recordEvaluation s now ok siteID flagKey userID variant =
     (let key = evalKey siteID flagKey variant userID; (adm, d) = admit (fs_dedup s) now key in
      if \<not> adm then s\<lparr>fs_dedup := d, fs_deduped := fs_deduped s + 1\<rparr>
      else if \<not> ok then s\<lparr>fs_dedup := forget d key, fs_failed := fs_failed s + 1\<rparr>
      else s\<lparr>fs_dedup := d, fs_written := fs_written s + 1\<rparr>)"

definition quarantine :: "(config_error \<Rightarrow> string) \<Rightarrow> flagService \<Rightarrow> string \<Rightarrow> string \<Rightarrow> config_error
    \<Rightarrow> EvaluationResult \<times> flagService" where
  "quarantine error_text s flagID part e =
     (refuse ReasonInvalid (clampDetail (''stored '' @ part @ '' failed validation: '' @ error_text e)),
      s\<lparr>fs_invalid := fs_invalid s + 1, fs_seen := List.insert (flagID @ ''|'' @ part) (fs_seen s)\<rparr>)"

text \<open>The read answers an error or the rows, each with its flag id.\<close>

definition Evaluate :: "(config_error \<Rightarrow> string) \<Rightarrow> (string \<Rightarrow> rat option) \<Rightarrow> (string \<Rightarrow> string) \<Rightarrow> flagService
    \<Rightarrow> read_error + (string \<times> FeatureFlag) list \<Rightarrow> int \<Rightarrow> bool \<Rightarrow> string \<Rightarrow> string \<Rightarrow> string \<Rightarrow> user_ctx
    \<Rightarrow> EvaluationResult \<times> flagService" where
  "Evaluate error_text pf fv s fetched now ok siteID flagKey userID ctx =
     (case fetched of
        Inl e \<Rightarrow> (refuse ReasonUnavailable (''flags config read failed: '' @ errorClass e),
                  s\<lparr>fs_unavailable := fs_unavailable s + 1\<rparr>)
      | Inr [] \<Rightarrow> (refuse ReasonEvaluated ''flag not found'', s)
      | Inr ((flagID, flag) # _) \<Rightarrow>
          (case ParseDefinition pf flag of
             Inl (part, e) \<Rightarrow> quarantine error_text s flagID part e
           | Inr def \<Rightarrow>
               (let r = EvaluateDefinition pf fv def userID ctx in
                if \<not> er_enabled r then (r, s)
                else (r, recordEvaluation s now ok siteID flagKey userID (er_variant r)))))"

definition tracked :: "flagService \<Rightarrow> nat" where
  "tracked s = fs_written s + fs_deduped s + fs_failed s"

lemma tracked_other [simp]: "tracked (s\<lparr>fs_unavailable := a\<rparr>) = tracked s"
  "tracked (s\<lparr>fs_invalid := b, fs_seen := c\<rparr>) = tracked s"
  by (simp_all add: tracked_def)

lemma recordEvaluation_counts:
  "tracked (recordEvaluation s now ok a b c v) = tracked s + 1"
  "fs_unavailable (recordEvaluation s now ok a b c v) = fs_unavailable s"
  "fs_invalid (recordEvaluation s now ok a b c v) = fs_invalid s"
  by (auto simp: recordEvaluation_def tracked_def Let_def split: prod.splits)

text \<open>An evaluation answers enabled only from a row that was read and whose config is valid;
  the answer is then the evaluator's and does not depend on the tracking.  Every answer is counted
  exactly once: a failed read as unavailable, a rejected config as invalid, an enabled decision as
  written, deduplicated or failed, and a disabled decision not at all.\<close>

theorem evaluate_fail_safe:
  "case Evaluate t pf fv s fetched now ok site fkey user ctx of (r, s') \<Rightarrow>
     (er_enabled r \<longleftrightarrow> (\<exists>i f rest d. fetched = Inr ((i, f) # rest) \<and> ParseDefinition pf f = Inr d
         \<and> er_enabled (EvaluateDefinition pf fv d user ctx) \<and> r = EvaluateDefinition pf fv d user ctx))
     \<and> fs_unavailable s' = fs_unavailable s + (if er_reason r = ReasonUnavailable then 1 else 0)
     \<and> fs_invalid s' = fs_invalid s + (if er_reason r = ReasonInvalid then 1 else 0)
     \<and> tracked s' = tracked s + (if er_enabled r then 1 else 0)"
proof -
  have reasons: "ReasonEvaluated \<noteq> ReasonUnavailable" "ReasonEvaluated \<noteq> ReasonInvalid" "ReasonInvalid \<noteq> ReasonUnavailable"
    by (simp_all add: ReasonEvaluated_def ReasonUnavailable_def ReasonInvalid_def)
  have valid: "fd_invalid d = []" if "ParseDefinition pf f = Inr d" for f d
    using that by (auto simp: ParseDefinition_def split: sum.splits prod.splits option.splits)
  have evaluated: "er_reason (EvaluateDefinition pf fv d user ctx) = ReasonEvaluated"
    if "fd_invalid d = []" for d
    using that by (auto simp: EvaluateDefinition_def admit_result_def refuse_def Let_def split: prod.splits option.splits)
  show ?thesis
    using reasons valid evaluated
    by (auto simp: Evaluate_def quarantine_def refuse_def
        recordEvaluation_counts Let_def split: sum.splits list.splits prod.splits)
qed

end
