(* ===== verification/CohortTree.thy ===== *)
theory CohortTree
  imports Json "HOL-Library.List_Lexorder" "HOL-Library.Char_ord"
begin

text \<open>
  Cohort rule trees (\<^verbatim>\<open>src/internal/cohorts/tree.go\<close> and the rule evaluation of \<^verbatim>\<open>cohorts.go\<close>): the
  definition in its three shapes, write-time validation, and evaluation by set algebra over the
  answers of bounded queries.  The database is an argument: \<^verbatim>\<open>cohort_store\<close> holds what each query
  returns without its \<^verbatim>\<open>LIMIT\<close>; the model cuts the rows at the limit the code asks for.
\<close>

section \<open>Definitions\<close>

record Rule =
  rl_type :: string
  rl_name :: string
  rl_window :: string
  rl_min :: int
  rl_key :: string
  rl_op :: string
  rl_value :: string

datatype Definition = Definition (df_op: string) (df_rules: "Rule list")
  (df_children: "Definition list") (df_leaf: "Rule option")

datatype node = Node (nd_op: string) (nd_kids: "node list") (nd_leaf: "Rule option")

datatype cohort_error =
    StaticCarriesRules | LeafCarriesMore | RulesAndChildren | StaticNested | TooDeep
  | EmptyGroup string | NotArity nat | UnknownOp string | NoCondition | TooManyLeaves nat
  | RuleTextTooLong | EventNeedsName | MinCountRange | WindowMalformed | PropertyNeedsKey
  | KeyNotAllowed string | OperatorNotSupported string | UnsupportedRuleType string
  | WindowInvalid | WindowOverMaximum | StaticHasNoRule
  | TooLarge | RowBudget | ContextEnded | Refused | QueryFailed string

definition MaxTreeDepth :: nat where "MaxTreeDepth = 4"
definition MaxTreeLeaves :: nat where "MaxTreeLeaves = 30"
definition MaxLeafRows :: nat where "MaxLeafRows = 200000"
definition MaxEvalSet :: nat where "MaxEvalSet = 1000000"
definition OpStatic :: string where "OpStatic = ''static''"
definition maxRuleStr :: nat where "maxRuleStr = 512"
definition maxRuleMinCount :: int where "maxRuleMinCount = 1000000"

definition IsStatic :: "Definition \<Rightarrow> bool" where
  "IsStatic def \<longleftrightarrow> df_op def = OpStatic"

definition leaf_node :: "Rule \<Rightarrow> node" where
  "leaf_node r = Node [] [] (Some r)"

fun normalize :: "Definition \<Rightarrow> node" where
  "normalize (Definition op rules children leaf) =
     (case leaf of
        Some r \<Rightarrow> leaf_node r
      | None \<Rightarrow> Node (if op = [] then ''and'' else op) (map leaf_node rules @ map normalize children) None)"

section \<open>Validation\<close>

fun checkMixing :: "Definition \<Rightarrow> cohort_error option"
  and checkMixings :: "Definition list \<Rightarrow> cohort_error option" where
  "checkMixing (Definition op rules children leaf) =
     (if leaf \<noteq> None then
        (if op \<noteq> [] \<or> rules \<noteq> [] \<or> children \<noteq> [] then Some LeafCarriesMore else None)
      else if rules \<noteq> [] \<and> children \<noteq> [] then Some RulesAndChildren
      else checkMixings children)"
| "checkMixings [] = None"
| "checkMixings (c # cs) =
     (if df_op c = OpStatic then Some StaticNested
      else case checkMixing c of Some e \<Rightarrow> Some e | None \<Rightarrow> checkMixings cs)"

definition allowedPropertyKeys :: "string list" where
  "allowedPropertyKeys = [''country'', ''region'', ''city'', ''browser'', ''os'', ''device'', ''language'',
     ''utm_source'', ''utm_medium'', ''utm_campaign'', ''pathname'', ''referrer'']"

definition isAllowedPropertyKey :: "string \<Rightarrow> bool" where
  "isAllowedPropertyKey key = list_ex (\<lambda>k. k = key) allowedPropertyKeys"

text \<open>\<^verbatim>\<open>^[0-9]{1,4}[dhm]$\<close>\<close>

definition windowRe :: "string \<Rightarrow> bool" where
  "windowRe w \<longleftrightarrow> 2 \<le> length w \<and> length w \<le> 5 \<and> list_all is_digit (butlast w) \<and> last w \<in> set ''dhm''"

definition clean_window :: "string \<Rightarrow> string" where
  "clean_window w = map lower (TrimSpace w)"

definition validateRule :: "Rule \<Rightarrow> cohort_error option" where
  "validateRule r =
     (if length (rl_name r) > maxRuleStr \<or> length (rl_value r) > maxRuleStr then Some RuleTextTooLong
      else if rl_type r = ''event'' then
        (if TrimSpace (rl_name r) = [] then Some EventNeedsName
         else if rl_min r < 0 \<or> rl_min r > maxRuleMinCount then Some MinCountRange
         else if rl_window r \<noteq> [] \<and> \<not> windowRe (clean_window (rl_window r)) then Some WindowMalformed
         else None)
      else if rl_type r = ''property'' then
        (if rl_key r = [] then Some PropertyNeedsKey
         else if \<not> isAllowedPropertyKey (rl_key r) then Some (KeyNotAllowed (rl_key r))
         else if rl_op r \<noteq> [] \<and> rl_op r \<noteq> ''='' \<and> rl_op r \<noteq> ''!='' then Some (OperatorNotSupported (rl_op r))
         else None)
      else Some (UnsupportedRuleType (rl_type r)))"

text \<open>The leaf count is threaded through, as the pointer \<^verbatim>\<open>leaves\<close> is.\<close>

fun checkNode :: "bool \<Rightarrow> nat \<Rightarrow> node \<Rightarrow> nat \<Rightarrow> cohort_error option \<times> nat"
  and checkNodes :: "bool \<Rightarrow> nat \<Rightarrow> node list \<Rightarrow> nat \<Rightarrow> cohort_error option \<times> nat" where
  "checkNode strict depth (Node op kids leaf) leaves =
     (if depth > MaxTreeDepth then (Some TooDeep, leaves)
      else case leaf of
        Some r \<Rightarrow> (if strict then validateRule r else None, leaves + 1)
      | None \<Rightarrow>
          if op = ''and'' \<or> op = ''or'' then
            (if kids = [] then (Some (EmptyGroup op), leaves) else checkNodes strict (depth + 1) kids leaves)
          else if op = ''not'' then
            (if length kids \<noteq> 1 then (Some (NotArity (length kids)), leaves)
             else checkNodes strict (depth + 1) kids leaves)
          else (Some (UnknownOp op), leaves))"
| "checkNodes strict depth [] leaves = (None, leaves)"
| "checkNodes strict depth (k # ks) leaves =
     (case checkNode strict depth k leaves of
        (Some e, n) \<Rightarrow> (Some e, n)
      | (None, n) \<Rightarrow> checkNodes strict depth ks n)"

definition validateDefinition :: "bool \<Rightarrow> Definition \<Rightarrow> cohort_error option" where
  "validateDefinition strict def =
     (if df_op def = OpStatic then
        (if df_leaf def \<noteq> None \<or> df_rules def \<noteq> [] \<or> df_children def \<noteq> [] then Some StaticCarriesRules else None)
      else case checkMixing def of
        Some e \<Rightarrow> Some e
      | None \<Rightarrow>
          (case checkNode strict 1 (normalize def) 0 of
             (Some e, leaves) \<Rightarrow> Some e
           | (None, leaves) \<Rightarrow>
               if leaves = 0 then Some NoCondition
               else if leaves > MaxTreeLeaves then Some (TooManyLeaves leaves)
               else None))"

definition ValidateDefinition :: "Definition \<Rightarrow> cohort_error option" where
  "ValidateDefinition def = validateDefinition True def"

definition validateShape :: "Definition \<Rightarrow> cohort_error option" where
  "validateShape def = validateDefinition False def"

section \<open>Windows\<close>

definition time_unit :: "char \<Rightarrow> int" where
  "time_unit c = (if c = CHR ''d'' then 24 * 3600000000000 else if c = CHR ''h'' then 3600000000000
     else if c = CHR ''m'' then 60000000000 else 0)"

definition checkedWindow :: "string \<Rightarrow> cohort_error + int" where
  "checkedWindow w0 =
     (let w = TrimSpace (map lower w0) in
      if w = [] then Inr (30 * 24 * 3600000000000)
      else if length w < 2 then Inl WindowInvalid
      else case parse_int64 (butlast w) of
        None \<Rightarrow> Inl WindowInvalid
      | Some n \<Rightarrow>
          if n \<le> 0 \<or> time_unit (last w) = 0 \<or> n > (2 ^ 63 - 1) div time_unit (last w) then Inl WindowInvalid
          else Inr (n * time_unit (last w)))"

section \<open>Set algebra\<close>

type_synonym idSet = "string set"

definition toSet :: "string list \<Rightarrow> idSet" where
  "toSet ids = set (filter (\<lambda>i. i \<noteq> []) ids)"

definition sorted_ids :: "idSet \<Rightarrow> string list" where
  "sorted_ids s = sorted_list_of_set s"

definition intersectSets :: "idSet \<Rightarrow> idSet \<Rightarrow> idSet" where
  "intersectSets a b = {i \<in> a. i \<in> b}"

definition unionSets :: "idSet \<Rightarrow> idSet \<Rightarrow> cohort_error + idSet" where
  "unionSets a b =
     (if card a + card b > MaxEvalSet \<and> card a + card {i \<in> b. i \<notin> a} > MaxEvalSet then Inl TooLarge
      else Inr (a \<union> b))"

definition differenceSets :: "idSet \<Rightarrow> idSet \<Rightarrow> idSet" where
  "differenceSets a b = {i \<in> a. i \<notin> b}"

text \<open>Evaluation of a node: \<open>leaf\<close> and \<open>uni\<close> are the two data sources, which thread a work state.\<close>

fun evalNode :: "(Rule \<Rightarrow> 'w \<Rightarrow> (cohort_error + idSet) \<times> 'w) \<Rightarrow> ('w \<Rightarrow> (cohort_error + idSet) \<times> 'w)
    \<Rightarrow> node \<Rightarrow> 'w \<Rightarrow> (cohort_error + idSet) \<times> 'w"
  and evalAnd :: "(Rule \<Rightarrow> 'w \<Rightarrow> (cohort_error + idSet) \<times> 'w) \<Rightarrow> ('w \<Rightarrow> (cohort_error + idSet) \<times> 'w)
    \<Rightarrow> node list \<Rightarrow> idSet option \<Rightarrow> 'w \<Rightarrow> (cohort_error + idSet) \<times> 'w"
  and evalOr :: "(Rule \<Rightarrow> 'w \<Rightarrow> (cohort_error + idSet) \<times> 'w) \<Rightarrow> ('w \<Rightarrow> (cohort_error + idSet) \<times> 'w)
    \<Rightarrow> node list \<Rightarrow> idSet \<Rightarrow> 'w \<Rightarrow> (cohort_error + idSet) \<times> 'w" where
  "evalNode leaf uni (Node op kids lf) w =
     (case lf of
        Some r \<Rightarrow> leaf r w
      | None \<Rightarrow>
          if op = ''and'' then evalAnd leaf uni kids None w
          else if op = ''or'' then evalOr leaf uni kids {} w
          else if op = ''not'' then
            (case kids of
               [k] \<Rightarrow>
                 (case evalNode leaf uni k w of
                    (Inl e, w1) \<Rightarrow> (Inl e, w1)
                  | (Inr s, w1) \<Rightarrow>
                      (case uni w1 of
                         (Inl e, w2) \<Rightarrow> (Inl e, w2)
                       | (Inr allIds, w2) \<Rightarrow> (Inr (differenceSets allIds s), w2)))
             | _ \<Rightarrow> (Inl (NotArity (length kids)), w))
          else (Inl (UnknownOp op), w))"
| "evalAnd leaf uni [] acc w = (Inr (case acc of None \<Rightarrow> {} | Some s \<Rightarrow> s), w)"
| "evalAnd leaf uni (k # ks) acc w =
     (case evalNode leaf uni k w of
        (Inl e, w1) \<Rightarrow> (Inl e, w1)
      | (Inr s, w1) \<Rightarrow>
          let acc1 = (case acc of None \<Rightarrow> s | Some a \<Rightarrow> intersectSets a s) in
          if acc1 = {} then (Inr {}, w1) else evalAnd leaf uni ks (Some acc1) w1)"
| "evalOr leaf uni [] acc w = (Inr acc, w)"
| "evalOr leaf uni (k # ks) acc w =
     (case evalNode leaf uni k w of
        (Inl e, w1) \<Rightarrow> (Inl e, w1)
      | (Inr s, w1) \<Rightarrow>
          (case unionSets acc s of Inl e \<Rightarrow> (Inl e, w1) | Inr acc1 \<Rightarrow> evalOr leaf uni ks acc1 w1))"

end
