(* ===== verification/QueryGuard.thy ===== *)
theory QueryGuard
  imports Prelude
begin

text \<open>
  Query admission (\<^verbatim>\<open>src/internal/queryguard/queryguard.go\<close>): the slots an expensive query takes and
  gives back, the labelled refusals, and the budgets read from the environment.  Durations are
  nanoseconds in the signed 64-bit range; \<^verbatim>\<open>*\<close> on them wraps around.
\<close>

section \<open>Budgets\<close>

definition wrap64 :: "int \<Rightarrow> int" where
  "wrap64 x = (x + 2 ^ 63) mod 2 ^ 64 - 2 ^ 63"

record Budgets =
  bd_timeout :: int
  bd_rows :: int
  bd_window :: int

definition DefaultBudgets :: Budgets where
  "DefaultBudgets = \<lparr>bd_timeout = 30 * 1000000000, bd_rows = 1000000, bd_window = 186 * 24 * 3600000000000\<rparr>"

definition int_knob :: "string \<Rightarrow> int \<Rightarrow> int" where
  "int_knob raw old =
     (let t = TrimSpace raw in
      if t = [] then old
      else case parse_int64 t of None \<Rightarrow> old | Some n \<Rightarrow> if n \<le> 0 then old else n)"

definition LoadBudgetsFromEnv :: "(string \<Rightarrow> string) \<Rightarrow> Budgets" where
  "LoadBudgetsFromEnv getenv =
     (let b = DefaultBudgets;
          ms = int_knob (getenv ''OBSERVE_QUERY_TIMEOUT_MS'') 0;
          b1 = (if ms > 0 then b\<lparr>bd_timeout := wrap64 (ms * 1000000)\<rparr> else b);
          b2 = b1\<lparr>bd_rows := int_knob (getenv ''OBSERVE_QUERY_MAX_SCAN_ROWS'') (bd_rows b1)\<rparr>;
          days = int_knob (getenv ''OBSERVE_QUERY_MAX_WINDOW_DAYS'') 0
      in if days > 0 then b2\<lparr>bd_window := wrap64 (wrap64 (days * 24) * 3600000000000)\<rparr> else b2)"

definition DefaultGlobalSlots :: int where "DefaultGlobalSlots = 8"
definition DefaultSiteSlots :: int where "DefaultSiteSlots = 4"

definition LoadSlotsFromEnv :: "(string \<Rightarrow> string) \<Rightarrow> int \<times> int" where
  "LoadSlotsFromEnv getenv =
     (int_knob (getenv ''OBSERVE_QUERY_GLOBAL_CONCURRENCY'') DefaultGlobalSlots,
      int_knob (getenv ''OBSERVE_QUERY_SITE_CONCURRENCY'') DefaultSiteSlots)"

section \<open>The limiter\<close>

text \<open>
  \<^verbatim>\<open>lm_once\<close> holds, per admitted query, the site its release function gives the slot back to and
  whether its \<^verbatim>\<open>sync.Once\<close> has run; the release function is the index into it.
\<close>

record Limiter =
  lm_globalSlots :: int
  lm_siteSlots :: int
  lm_global :: int
  lm_sites :: "string \<Rightarrow> int option"
  lm_refused :: "string \<Rightarrow> int"
  lm_acquired :: int
  lm_once :: "(string \<times> bool) list"

datatype code = CodeConcurrencyGlobal | CodeConcurrencySite | CodeBudgetRows | CodeBudgetTime

definition code_name :: "code \<Rightarrow> string" where
  "code_name c = (case c of
     CodeConcurrencyGlobal \<Rightarrow> ''query_concurrency_global'' | CodeConcurrencySite \<Rightarrow> ''query_concurrency_site''
   | CodeBudgetRows \<Rightarrow> ''query_budget_rows'' | CodeBudgetTime \<Rightarrow> ''query_budget_time'')"

record Refusal =
  rf_code :: code
  rf_used :: int     \<comment> \<open>the numbers of the message\<close>
  rf_limit :: int
  rf_status :: int

definition NewLimiter :: "int \<Rightarrow> int \<Rightarrow> Limiter" where
  "NewLimiter globalSlots siteSlots =
     \<lparr>lm_globalSlots = (if globalSlots \<le> 0 then DefaultGlobalSlots else globalSlots),
      lm_siteSlots = (if siteSlots \<le> 0 then DefaultSiteSlots else siteSlots),
      lm_global = 0, lm_sites = Map.empty, lm_refused = (\<lambda>_. 0), lm_acquired = 0, lm_once = []\<rparr>"

definition site_running :: "Limiter \<Rightarrow> string \<Rightarrow> int" where
  "site_running l site = (case lm_sites l site of None \<Rightarrow> 0 | Some n \<Rightarrow> n)"

definition CountRefusal :: "Limiter \<Rightarrow> code \<Rightarrow> Limiter" where
  "CountRefusal l c = l\<lparr>lm_refused := (lm_refused l)(code_name c := lm_refused l (code_name c) + 1)\<rparr>"

definition Acquire :: "Limiter \<Rightarrow> string \<Rightarrow> (Refusal + nat) \<times> Limiter" where
  "Acquire l site =
     (if lm_global l \<ge> lm_globalSlots l then
        (Inl \<lparr>rf_code = CodeConcurrencyGlobal, rf_used = lm_global l, rf_limit = lm_globalSlots l, rf_status = 429\<rparr>,
         CountRefusal l CodeConcurrencyGlobal)
      else if site_running l site \<ge> lm_siteSlots l then
        (Inl \<lparr>rf_code = CodeConcurrencySite, rf_used = site_running l site, rf_limit = lm_siteSlots l, rf_status = 429\<rparr>,
         CountRefusal l CodeConcurrencySite)
      else
        (Inr (length (lm_once l)),
         l\<lparr>lm_global := lm_global l + 1, lm_sites := (lm_sites l)(site \<mapsto> site_running l site + 1),
           lm_acquired := lm_acquired l + 1, lm_once := lm_once l @ [(site, False)]\<rparr>))"

definition release :: "Limiter \<Rightarrow> nat \<Rightarrow> Limiter" where
  "release l i =
     (if i \<ge> length (lm_once l) \<or> snd (lm_once l ! i) then l
      else let site = fst (lm_once l ! i); n = site_running l site - 1 in
        l\<lparr>lm_global := lm_global l - 1,
          lm_sites := (if n \<le> 0 then (lm_sites l)(site := None) else (lm_sites l)(site \<mapsto> n)),
          lm_once := (lm_once l)[i := (site, True)]\<rparr>)"

definition RowBudgetRefusal :: "Limiter option \<Rightarrow> int \<Rightarrow> Refusal \<times> Limiter option" where
  "RowBudgetRefusal l m = (\<lparr>rf_code = CodeBudgetRows, rf_used = m, rf_limit = m, rf_status = 429\<rparr>,
     map_option (\<lambda>x. CountRefusal x CodeBudgetRows) l)"

definition TimeBudgetRefusal :: "Limiter option \<Rightarrow> int \<Rightarrow> Refusal \<times> Limiter option" where
  "TimeBudgetRefusal l budget = (\<lparr>rf_code = CodeBudgetTime, rf_used = budget, rf_limit = budget, rf_status = 504\<rparr>,
     map_option (\<lambda>x. CountRefusal x CodeBudgetTime) l)"

record Snapshot =
  sn_running :: int
  sn_globalLimit :: int
  sn_siteLimit :: int
  sn_sites :: "string \<Rightarrow> int option"
  sn_refused :: "string \<Rightarrow> int"
  sn_acquired :: int

definition snapshot :: "Limiter \<Rightarrow> Snapshot" where
  "snapshot l = \<lparr>sn_running = lm_global l, sn_globalLimit = lm_globalSlots l, sn_siteLimit = lm_siteSlots l,
     sn_sites = lm_sites l, sn_refused = lm_refused l, sn_acquired = lm_acquired l\<rparr>"

section \<open>The slots are exact\<close>

datatype guard_op = OpAcquire string | OpRelease nat | OpCount code

fun guard_step :: "Limiter \<Rightarrow> guard_op \<Rightarrow> Limiter" where
  "guard_step l (OpAcquire site) = snd (Acquire l site)"
| "guard_step l (OpRelease i) = release l i"
| "guard_step l (OpCount c) = CountRefusal l c"

text \<open>Queries admitted and not yet released, all together and for one site.\<close>

definition running :: "(string \<times> bool) list \<Rightarrow> nat" where
  "running xs = length (filter (\<lambda>(s, d). \<not> d) xs)"

definition running_at :: "string \<Rightarrow> (string \<times> bool) list \<Rightarrow> nat" where
  "running_at site xs = length (filter (\<lambda>(s, d). \<not> d \<and> s = site) xs)"

definition limiter_inv :: "Limiter \<Rightarrow> bool" where
  "limiter_inv l \<longleftrightarrow> lm_global l = int (running (lm_once l)) \<and> lm_global l \<le> lm_globalSlots l
     \<and> (\<forall>s. lm_sites l s = (if running_at s (lm_once l) = 0 then None else Some (int (running_at s (lm_once l)))))
     \<and> (\<forall>s. int (running_at s (lm_once l)) \<le> lm_siteSlots l)
     \<and> lm_acquired l = int (length (lm_once l))"

lemma running_update:
  assumes "i < length xs" "\<not> snd (xs ! i)"
  shows "running (xs[i := (fst (xs ! i), True)]) = running xs - 1" "running xs \<noteq> 0"
    "running_at s (xs[i := (fst (xs ! i), True)]) = running_at s xs - (if s = fst (xs ! i) then 1 else 0)"
    "s = fst (xs ! i) \<Longrightarrow> running_at s xs \<noteq> 0"
  using assms running_member [of i xs "\<lambda>(s, d). \<not> d"] running_member [of i xs "\<lambda>(u, d). \<not> d \<and> u = s"]
    length_filter_update [of i xs "\<lambda>(s, d). \<not> d" "(fst (xs ! i), True)"]
    length_filter_update [of i xs "\<lambda>(u, d). \<not> d \<and> u = s" "(fst (xs ! i), True)"]
  by (auto simp: running_def running_at_def case_prod_beta split: if_splits)

lemma acquire_inv [inv_intros]: "limiter_inv l \<Longrightarrow> limiter_inv (snd (Acquire l site))"
  by (auto simp: limiter_inv_def Acquire_def CountRefusal_def running_def running_at_def site_running_def)

lemma release_inv [inv_intros]:
  assumes "limiter_inv l"
  shows "limiter_inv (release l i)"
proof (cases "i \<ge> length (lm_once l) \<or> snd (lm_once l ! i)")
  case False
  note R = running_update [of i "lm_once l"]
  have "int (running_at (fst (lm_once l ! i)) (lm_once l)) \<le> lm_siteSlots l"
    using assms by (simp add: limiter_inv_def)
  then have "int (running_at (fst (lm_once l ! i)) (lm_once l)) - 1 \<le> lm_siteSlots l" by simp
  then show ?thesis using assms False R by (auto simp: limiter_inv_def release_def Let_def site_running_def)
qed (use assms in \<open>simp add: release_def\<close>)

lemma count_inv [inv_intros]: "limiter_inv l \<Longrightarrow> limiter_inv (CountRefusal l c)"
  by (simp add: limiter_inv_def CountRefusal_def)

interpretation guard: invariant_machine guard_step limiter_inv
proof
  show "limiter_inv (guard_step l x)" if "limiter_inv l" for l x
    using that by (cases x) (auto intro: inv_intros)
qed

lemma new_limiter_inv: "limiter_inv (NewLimiter g s)"
  by (simp add: limiter_inv_def NewLimiter_def running_def running_at_def DefaultGlobalSlots_def DefaultSiteSlots_def)

lemma guard_slots: "lm_globalSlots (run_ops guard_step l ops) = lm_globalSlots l
    \<and> lm_siteSlots (run_ops guard_step l ops) = lm_siteSlots l"
proof (induction ops arbitrary: l)
  case (Cons x ops)
  have "lm_globalSlots (guard_step l x) = lm_globalSlots l \<and> lm_siteSlots (guard_step l x) = lm_siteSlots l"
    by (cases x) (auto simp: Acquire_def release_def CountRefusal_def Let_def)
  then show ?case using Cons by simp
qed simp

text \<open>C17: After any sequence of admissions, releases (however often a release function is called)
  and budget refusals, the limiter's counters are exactly the admitted and unreleased queries; they
  stay within the global and the per-site slots, a query is admitted exactly when both have room, and
  a site without running queries leaves the table.\<close>

theorem slots_exact:
  fixes ops g s
  defines "l \<equiv> run_ops guard_step (NewLimiter g s) ops"
  shows "lm_global l = int (running (lm_once l)) \<and> lm_global l \<le> (if g \<le> 0 then 8 else g)
    \<and> site_running l site = int (running_at site (lm_once l)) \<and> site_running l site \<le> (if s \<le> 0 then 4 else s)
    \<and> (lm_sites l site = None \<longleftrightarrow> running_at site (lm_once l) = 0)
    \<and> ((\<exists>i. fst (Acquire l site) = Inr i) \<longleftrightarrow>
         int (running (lm_once l)) < (if g \<le> 0 then 8 else g)
         \<and> int (running_at site (lm_once l)) < (if s \<le> 0 then 4 else s))
    \<and> release (release l i) i = release l i"
proof -
  have I: "limiter_inv l" unfolding l_def by (rule guard.run_inv [OF new_limiter_inv])
  have S: "lm_globalSlots l = (if g \<le> 0 then 8 else g)" "lm_siteSlots l = (if s \<le> 0 then 4 else s)"
    unfolding l_def using guard_slots [of "NewLimiter g s" ops]
    by (simp_all add: NewLimiter_def DefaultGlobalSlots_def DefaultSiteSlots_def)
  have R: "site_running l site = int (running_at site (lm_once l))" using I by (simp add: limiter_inv_def site_running_def)
  have "release (release l i) i = release l i" by (auto simp: release_def Let_def)
  moreover have "(\<exists>i. fst (Acquire l site) = Inr i)
      \<longleftrightarrow> lm_global l < lm_globalSlots l \<and> site_running l site < lm_siteSlots l"
    by (auto simp: Acquire_def)
  ultimately show ?thesis using I R unfolding S [symmetric] by (auto simp: limiter_inv_def)
qed

text \<open>When every admitted query has been released, the limiter is back where it started: nothing
  is running and any site is admitted again.\<close>

theorem slots_returned:
  assumes "\<forall>x \<in> set (lm_once (run_ops guard_step (NewLimiter g s) ops)). snd x"
  shows "lm_global (run_ops guard_step (NewLimiter g s) ops) = 0
    \<and> lm_sites (run_ops guard_step (NewLimiter g s) ops) = Map.empty
    \<and> fst (Acquire (run_ops guard_step (NewLimiter g s) ops) site)
      = Inr (length (lm_once (run_ops guard_step (NewLimiter g s) ops)))"
proof -
  let ?l = "run_ops guard_step (NewLimiter g s) ops"
  have I: "limiter_inv ?l" by (rule guard.run_inv [OF new_limiter_inv])
  have Z: "running (lm_once ?l) = 0" "running_at t (lm_once ?l) = 0" for t
    using assms by (auto simp: running_def running_at_def filter_empty_conv)
  have E: "lm_global ?l = 0" "lm_sites ?l = Map.empty"
    using I Z by (auto simp: limiter_inv_def fun_eq_iff)
  moreover have "lm_globalSlots ?l > 0" "lm_siteSlots ?l > 0"
    using guard_slots [of "NewLimiter g s" ops] by (simp_all add: NewLimiter_def DefaultGlobalSlots_def DefaultSiteSlots_def)
  ultimately show ?thesis by (simp add: Acquire_def site_running_def)
qed

theorem slots_returned_witness:
  "fst (Acquire (run_ops guard_step (NewLimiter 1 1) [OpAcquire ''s'', OpAcquire ''t'', OpRelease 0]) ''t'') = Inr 1"
proof -
  let ?o = "[OpAcquire ''s'', OpAcquire ''t'', OpRelease 0]"
  have once: "lm_once (run_ops guard_step (NewLimiter 1 1) ?o) = [(''s'', True)]"
    by (simp add: Acquire_def NewLimiter_def CountRefusal_def release_def Let_def site_running_def)
  show ?thesis using slots_returned [of 1 1 ?o "''t''"] unfolding once by simp
qed

section \<open>Budgets from the environment\<close>

lemma wrap64_id: "- (2 ^ 63) \<le> x \<Longrightarrow> x < 2 ^ 63 \<Longrightarrow> wrap64 x = x"
  by (simp add: wrap64_def)

text \<open>Unset, malformed and non-positive knobs keep the defaults, and the budgets stay positive as
  long as the timeout is at most 9223372036854 ms and the window at most 106751 days.  Past that the
  multiplication wraps around: one millisecond more and the timeout of every query is negative.\<close>

theorem budgets_positive:
  "(int_knob (env ''OBSERVE_QUERY_TIMEOUT_MS'') 0 \<le> 9223372036854
      \<and> int_knob (env ''OBSERVE_QUERY_MAX_WINDOW_DAYS'') 0 \<le> 106751
    \<longrightarrow> 0 < bd_timeout (LoadBudgetsFromEnv env) \<and> 0 < bd_rows (LoadBudgetsFromEnv env)
      \<and> 0 < bd_window (LoadBudgetsFromEnv env))
   \<and> bd_timeout (LoadBudgetsFromEnv (\<lambda>k. if k = ''OBSERVE_QUERY_TIMEOUT_MS'' then ''9223372036855'' else [])) < 0"
proof -
  have rows: "0 < bd_rows (LoadBudgetsFromEnv env)"
    by (simp add: LoadBudgetsFromEnv_def Let_def DefaultBudgets_def int_knob_def split: option.splits)
  have timeout: "0 < bd_timeout (LoadBudgetsFromEnv env)"
    if "int_knob (env ''OBSERVE_QUERY_TIMEOUT_MS'') 0 \<le> 9223372036854"
    using that by (simp add: LoadBudgetsFromEnv_def Let_def DefaultBudgets_def wrap64_id)
  have window: "0 < bd_window (LoadBudgetsFromEnv env)"
    if "int_knob (env ''OBSERVE_QUERY_MAX_WINDOW_DAYS'') 0 \<le> 106751"
    using that by (simp add: LoadBudgetsFromEnv_def Let_def DefaultBudgets_def wrap64_id)
  have knob: "int_knob ''9223372036855'' 0 = 9223372036855"
  proof -
    have "TrimSpace ''9223372036855'' = ''9223372036855''" by (rule TrimSpace_id) (simp_all add: is_space_iff)
    moreover have "parse_int64 ''9223372036855'' = Some 9223372036855"
      by (simp add: parse_int64_digits parse_dec_def is_digit_def digit_val_def)
    ultimately show ?thesis by (simp add: int_knob_def)
  qed
  have "bd_timeout (LoadBudgetsFromEnv (\<lambda>k. if k = ''OBSERVE_QUERY_TIMEOUT_MS'' then ''9223372036855'' else [])) < 0"
    by (simp add: LoadBudgetsFromEnv_def Let_def knob wrap64_def)
  then show ?thesis using rows timeout window by blast
qed

theorem budgets_positive_witness: "0 < bd_window (LoadBudgetsFromEnv (\<lambda>k. []))"
  using budgets_positive [of "\<lambda>k. []"] by (simp add: int_knob_def TrimSpace_def)

end
