(* ===== verification/CohortEval.thy ===== *)
theory CohortEval
  imports CohortTree QueryGuard
begin

text \<open>
  Evaluation of a rule cohort (\<^verbatim>\<open>src/internal/cohorts/cohorts.go\<close>, \<^verbatim>\<open>guard.go\<close>): admission, the bounded
  leaf queries with their row accounting, and \<^verbatim>\<open>EvaluateCohort\<close>.
\<close>

section \<open>The queries\<close>

text \<open>What each query returns without its \<^verbatim>\<open>LIMIT\<close>, for the site at hand; \<open>Inl\<close> is a failed query.\<close>

record cohort_store =
  st_event :: "string \<Rightarrow> int \<Rightarrow> string + (string \<times> int) list"
  st_property :: "string \<Rightarrow> string \<Rightarrow> string + string list"
  st_universe :: "string + string list"

record readWork =
  wk_rows :: int
  wk_calls :: nat                 \<comment> \<open>accountings so far, each of which looks at the context\<close>
  wk_universe :: "idSet option"   \<comment> \<open>the variable \<^verbatim>\<open>universe\<close> of \<^verbatim>\<open>EvaluateCohort\<close>\<close>

definition leafLimit :: "Budgets \<Rightarrow> nat" where
  "leafLimit b = nat ((if bd_rows b > 0 \<and> bd_rows b < int MaxLeafRows then bd_rows b else int MaxLeafRows) + 1)"

text \<open>\<open>ended n\<close>: whether the context has ended when it is looked at for the \<open>n\<close>-th time.\<close>

definition accountRows :: "Budgets \<Rightarrow> (nat \<Rightarrow> bool) \<Rightarrow> nat \<Rightarrow> readWork \<Rightarrow> cohort_error option \<times> readWork" where
  "accountRows b ended n w =
     (let w' = w\<lparr>wk_rows := wk_rows w + int n, wk_calls := wk_calls w + 1\<rparr> in
      (if bd_rows b > 0 \<and> wk_rows w' > bd_rows b then Some RowBudget
       else if ended (wk_calls w) then Some ContextEnded else None, w'))"

text \<open>A query, its accounting and the bound on its rows.\<close>

definition bounded_rows :: "Budgets \<Rightarrow> (nat \<Rightarrow> bool) \<Rightarrow> string + 'r list \<Rightarrow> readWork
    \<Rightarrow> (cohort_error + 'r list) \<times> readWork" where
  "bounded_rows b ended answer w =
     (case answer of
        Inl e \<Rightarrow> (Inl (QueryFailed e), w)
      | Inr full \<Rightarrow>
          (let rows = take (leafLimit b) full in
           case accountRows b ended (length rows) w of
             (Some e, w') \<Rightarrow> (Inl e, w')
           | (None, w') \<Rightarrow> if length rows > MaxLeafRows then (Inl TooLarge, w') else (Inr rows, w')))"

definition loadUniverse :: "Budgets \<Rightarrow> cohort_store \<Rightarrow> (nat \<Rightarrow> bool) \<Rightarrow> readWork
    \<Rightarrow> (cohort_error + string list) \<times> readWork" where
  "loadUniverse b st ended w = bounded_rows b ended (st_universe st) w"

definition min_count :: "Rule \<Rightarrow> int" where
  "min_count r = (if rl_min r \<le> 0 then 1 else rl_min r)"

text \<open>\<open>now\<close> is in nanoseconds, the query's lower bound in milliseconds.\<close>

definition evalEventRule :: "Budgets \<Rightarrow> cohort_store \<Rightarrow> (nat \<Rightarrow> bool) \<Rightarrow> int \<Rightarrow> Rule \<Rightarrow> readWork
    \<Rightarrow> (cohort_error + string list) \<times> readWork" where
  "evalEventRule b st ended now r w =
     (if rl_name r = [] then (Inl EventNeedsName, w)
      else case checkedWindow (rl_window r) of
        Inl e \<Rightarrow> (Inl e, w)
      | Inr d \<Rightarrow>
          if bd_window b > 0 \<and> d > bd_window b then (Inl WindowOverMaximum, w)
          else case bounded_rows b ended (st_event st (rl_name r) ((now - d) div 1000000)) w of
            (Inl e, w') \<Rightarrow> (Inl e, w')
          | (Inr rows, w') \<Rightarrow> (Inr (map fst (filter (\<lambda>(i, c). c \<ge> min_count r) rows)), w'))"

definition subtractIDs :: "string list \<Rightarrow> string list \<Rightarrow> string list" where
  "subtractIDs allIds gone = filter (\<lambda>i. i \<notin> set gone) allIds"

definition evalPropertyRule :: "Budgets \<Rightarrow> cohort_store \<Rightarrow> (nat \<Rightarrow> bool) \<Rightarrow> Rule \<Rightarrow> readWork
    \<Rightarrow> (cohort_error + string list) \<times> readWork" where
  "evalPropertyRule b st ended r w =
     (if rl_key r = [] then (Inl PropertyNeedsKey, w)
      else if \<not> isAllowedPropertyKey (rl_key r) then (Inl (KeyNotAllowed (rl_key r)), w)
      else
        let op = (if rl_op r = [] then ''='' else rl_op r) in
        if op \<noteq> ''='' \<and> op \<noteq> ''!='' then (Inl (OperatorNotSupported op), w)
        else case bounded_rows b ended (st_property st (rl_key r) (rl_value r)) w of
          (Inl e, w1) \<Rightarrow> (Inl e, w1)
        | (Inr matched, w1) \<Rightarrow>
            if op = ''='' then (Inr matched, w1)
            else case loadUniverse b st ended w1 of
              (Inl e, w2) \<Rightarrow> (Inl e, w2)
            | (Inr allIds, w2) \<Rightarrow> (Inr (subtractIDs allIds matched), w2))"

definition evalRule :: "Budgets \<Rightarrow> cohort_store \<Rightarrow> (nat \<Rightarrow> bool) \<Rightarrow> int \<Rightarrow> Rule \<Rightarrow> readWork
    \<Rightarrow> (cohort_error + string list) \<times> readWork" where
  "evalRule b st ended now r w =
     (if rl_type r = ''event'' then evalEventRule b st ended now r w
      else if rl_type r = ''property'' then evalPropertyRule b st ended r w
      else (Inl (UnsupportedRuleType (rl_type r)), w))"

section \<open>EvaluateCohort\<close>

definition env_leaf :: "Budgets \<Rightarrow> cohort_store \<Rightarrow> (nat \<Rightarrow> bool) \<Rightarrow> int \<Rightarrow> Rule \<Rightarrow> readWork
    \<Rightarrow> (cohort_error + idSet) \<times> readWork" where
  "env_leaf b st ended now r w =
     (case evalRule b st ended now r w of
        (Inl e, w') \<Rightarrow> (Inl e, w') | (Inr ids, w') \<Rightarrow> (Inr (toSet ids), w'))"

definition env_universe :: "Budgets \<Rightarrow> cohort_store \<Rightarrow> (nat \<Rightarrow> bool) \<Rightarrow> readWork
    \<Rightarrow> (cohort_error + idSet) \<times> readWork" where
  "env_universe b st ended w =
     (case wk_universe w of
        Some u \<Rightarrow> (Inr u, w)
      | None \<Rightarrow>
          (case loadUniverse b st ended w of
             (Inl e, w') \<Rightarrow> (Inl e, w')
           | (Inr ids, w') \<Rightarrow> (Inr (toSet ids), w'\<lparr>wk_universe := Some (toSet ids)\<rparr>)))"

definition evaluate_tree :: "Budgets \<Rightarrow> cohort_store \<Rightarrow> (nat \<Rightarrow> bool) \<Rightarrow> int \<Rightarrow> string \<Rightarrow> Definition \<Rightarrow> readWork
    \<Rightarrow> cohort_error + string list" where
  "evaluate_tree b st ended now siteID def w =
     (if siteID = [] then Inr []
      else if IsStatic def then Inl StaticHasNoRule
      else if df_rules def = [] \<and> df_children def = [] \<and> df_leaf def = None then Inr []
      else case validateShape def of
        Some e \<Rightarrow> Inl e
      | None \<Rightarrow>
          (case evalNode (env_leaf b st ended now) (env_universe b st ended) (normalize def)
              (w\<lparr>wk_universe := None\<rparr>) of
             (Inl e, _) \<Rightarrow> Inl e
           | (Inr s, _) \<Rightarrow> Inr (sorted_ids s)))"

text \<open>Admission: a caller that already holds a slot (or a service without a guard) takes none.\<close>

definition beginRead :: "Limiter option \<Rightarrow> bool \<Rightarrow> string \<Rightarrow> (Refusal + nat option) \<times> Limiter option" where
  "beginRead guard admitted siteID =
     (if admitted then (Inr None, guard)
      else case guard of
        None \<Rightarrow> (Inr None, None)
      | Some l \<Rightarrow> (case Acquire l siteID of
            (Inl e, l') \<Rightarrow> (Inl e, Some l') | (Inr h, l') \<Rightarrow> (Inr (Some h), Some l')))"

definition finish :: "nat option \<Rightarrow> Limiter option \<Rightarrow> Limiter option" where
  "finish h guard = (case h of None \<Rightarrow> guard | Some i \<Rightarrow> map_option (\<lambda>l. release l i) guard)"

definition fresh_work :: readWork where
  "fresh_work = \<lparr>wk_rows = 0, wk_calls = 0, wk_universe = None\<rparr>"

text \<open>\<open>w\<close> is the row account of the context, a fresh one when the context carries none.\<close>

definition EvaluateCohort :: "Limiter option \<Rightarrow> bool \<Rightarrow> readWork \<Rightarrow> Budgets \<Rightarrow> cohort_store \<Rightarrow> (nat \<Rightarrow> bool)
    \<Rightarrow> int \<Rightarrow> string \<Rightarrow> Definition \<Rightarrow> (cohort_error + string list) \<times> Limiter option" where
  "EvaluateCohort guard admitted w b st ended now siteID def =
     (case beginRead guard admitted siteID of
        (Inl e, g) \<Rightarrow> (Inl Refused, g)
      | (Inr h, g) \<Rightarrow>
          (let r = evaluate_tree b st ended now siteID def w;
               g1 = (if r = Inl RowBudget then snd (RowBudgetRefusal g (bd_rows b)) else g)
           in (r, finish h g1)))"

end
