(* ===== verification/CohortProps.thy ===== *)
theory CohortProps
  imports CohortEval
begin

text \<open>
  What cohort definitions and their evaluation guarantee: the write check accepts exactly the
  well-formed trees, and evaluation returns exactly the users the tree describes, over the events
  the store's queries are about.
\<close>

section \<open>Validation\<close>

text \<open>The shape of a tree, without the code's order of checks.\<close>

fun node_depth :: "node \<Rightarrow> nat" where
  "node_depth (Node op kids leaf) = Suc (if leaf \<noteq> None then 0 else fold max (map node_depth kids) 0)"

fun leaf_rules :: "node \<Rightarrow> Rule list" where
  "leaf_rules (Node op kids leaf) = (case leaf of Some r \<Rightarrow> [r] | None \<Rightarrow> concat (map leaf_rules kids))"

fun arity_ok :: "node \<Rightarrow> bool" where
  "arity_ok (Node op kids leaf) = (leaf \<noteq> None
     \<or> ((op = ''and'' \<or> op = ''or'') \<and> kids \<noteq> [] \<or> op = ''not'' \<and> length kids = 1) \<and> list_all arity_ok kids)"

fun unmixed :: "Definition \<Rightarrow> bool" where
  "unmixed (Definition op rules children leaf) =
     (if leaf \<noteq> None then op = [] \<and> rules = [] \<and> children = []
      else (rules = [] \<or> children = []) \<and> list_all (\<lambda>c. df_op c \<noteq> OpStatic \<and> unmixed c) children)"

lemma checkMixing_None:
  "checkMixing d = None \<longleftrightarrow> unmixed d"
  "checkMixings ds = None \<longleftrightarrow> list_all (\<lambda>c. df_op c \<noteq> OpStatic \<and> unmixed c) ds"
proof (induction d and ds rule: checkMixing_checkMixings.induct)
  case (1 op rules children leaf)
  then show ?case by (cases "leaf = None"; cases "rules = [] \<or> children = []") auto
next
  case (3 c cs)
  then show ?case by (auto split: option.splits)
qed simp

lemma fold_max_le: "fold max xs (a :: nat) \<le> n \<longleftrightarrow> a \<le> n \<and> (\<forall>x \<in> set xs. x \<le> n)"
  by (induction xs arbitrary: a) auto

definition leaves_valid :: "bool \<Rightarrow> Rule list \<Rightarrow> bool" where
  "leaves_valid strict rs \<longleftrightarrow> (strict \<longrightarrow> (\<forall>r \<in> set rs. validateRule r = None))"

lemma leaves_valid_simps [simp]:
  "leaves_valid strict []" "leaves_valid strict (rs @ ss) \<longleftrightarrow> leaves_valid strict rs \<and> leaves_valid strict ss"
  by (auto simp: leaves_valid_def)

lemma checkNode_None:
  "d \<ge> 1 \<Longrightarrow> (\<exists>m. checkNode strict d n k = (None, m)) \<longleftrightarrow>
     arity_ok n \<and> node_depth n + d \<le> Suc MaxTreeDepth \<and> leaves_valid strict (leaf_rules n)"
  "d \<ge> 1 \<Longrightarrow> (\<exists>m. checkNodes strict d ns k = (None, m)) \<longleftrightarrow>
     list_all arity_ok ns \<and> (\<forall>n \<in> set ns. node_depth n + d \<le> Suc MaxTreeDepth)
     \<and> leaves_valid strict (concat (map leaf_rules ns))"
proof (induction strict d n k and strict d ns k rule: checkNode_checkNodes.induct)
  case (1 strict d op kids leaf k)
  show ?case
  proof (cases leaf)
    case (Some r)
    then show ?thesis by (auto simp: leaves_valid_def)
  next
    case None
    have D: "node_depth (Node op kids None) + d \<le> Suc MaxTreeDepth \<longleftrightarrow>
        d \<le> MaxTreeDepth \<and> (\<forall>n \<in> set kids. node_depth n + Suc d \<le> Suc MaxTreeDepth)"
      if "d \<le> MaxTreeDepth \<or> kids = []"
    proof -
      have "node_depth (Node op kids None) + d \<le> Suc MaxTreeDepth
          \<longleftrightarrow> fold max (map node_depth kids) 0 + d \<le> MaxTreeDepth" by simp
      also have "\<dots> \<longleftrightarrow> d \<le> MaxTreeDepth \<and> fold max (map node_depth kids) 0 \<le> MaxTreeDepth - d" by auto
      also have "\<dots> \<longleftrightarrow> d \<le> MaxTreeDepth \<and> (\<forall>n \<in> set kids. node_depth n \<le> MaxTreeDepth - d)"
        by (simp add: fold_max_le)
      also have "\<dots> \<longleftrightarrow> d \<le> MaxTreeDepth \<and> (\<forall>n \<in> set kids. node_depth n + Suc d \<le> Suc MaxTreeDepth)"
        by auto
      finally show ?thesis .
    qed
    have big: "\<not> node_depth (Node op kids leaf) + d \<le> Suc MaxTreeDepth" if "d > MaxTreeDepth" using that by simp
    show ?thesis
    proof (cases "d > MaxTreeDepth")
      case True
      then show ?thesis using big by simp
    next
      case False
      then show ?thesis using 1 None D by (auto simp: not_less)
    qed
  qed
next
  case (3 strict d n ns k)
  show ?case
  proof (cases "checkNode strict d n k")
    case (Pair e m)
    then show ?thesis using 3 by (cases e) auto
  qed
qed simp_all

lemma checkNode_count:
  "checkNode strict d n k = (None, m) \<Longrightarrow> m = k + length (leaf_rules n)"
  "checkNodes strict d ns k = (None, m) \<Longrightarrow> m = k + length (concat (map leaf_rules ns))"
proof (induction strict d n k and strict d ns k arbitrary: m and m rule: checkNode_checkNodes.induct)
  case (3 strict d n ns k)
  then obtain j where "checkNode strict d n k = (None, j)" "checkNodes strict d ns j = (None, m)"
    by (auto split: prod.splits option.splits)
  then show ?case using 3 by fastforce
qed (auto split: if_splits option.splits)

lemma validate_iff:
  "validateDefinition strict def = None \<longleftrightarrow>
     (if df_op def = OpStatic then df_leaf def = None \<and> df_rules def = [] \<and> df_children def = []
      else unmixed def \<and> arity_ok (normalize def) \<and> node_depth (normalize def) \<le> 4
        \<and> length (leaf_rules (normalize def)) \<in> {1..30} \<and> leaves_valid strict (leaf_rules (normalize def)))"
proof (cases "df_op def = OpStatic")
  case False
  obtain e m where c: "checkNode strict 1 (normalize def) 0 = (e, m)" by fastforce
  have "e = None \<longleftrightarrow> arity_ok (normalize def) \<and> node_depth (normalize def) \<le> 4
      \<and> leaves_valid strict (leaf_rules (normalize def))"
    using checkNode_None(1) [of 1 strict "normalize def" 0] c by (simp add: MaxTreeDepth_def)
  moreover have "m = length (leaf_rules (normalize def))" if "e = None" using checkNode_count(1) c that by force
  ultimately show ?thesis using False c checkMixing_None(1) [of def]
    by (cases e) (auto simp: validateDefinition_def MaxTreeLeaves_def Suc_le_eq split: option.splits)
qed (auto simp: validateDefinition_def)

text \<open>C18: The write check accepts exactly the static definition without rules and the trees that mix no
  shapes, use and/or with children and not with one child, are at most 4 levels deep, and carry 1 to
  30 conditions each of which is a usable rule.\<close>

theorem definition_accepted_iff:
  "ValidateDefinition def = None \<longleftrightarrow>
     (if df_op def = ''static'' then def = Definition ''static'' [] [] None
      else unmixed def \<and> arity_ok (normalize def) \<and> node_depth (normalize def) \<le> 4
        \<and> length (leaf_rules (normalize def)) \<in> {1..30} \<and> leaves_valid True (leaf_rules (normalize def)))"
  by (cases def) (auto simp: ValidateDefinition_def validate_iff OpStatic_def)

section \<open>Windows\<close>

lemma parse_dec_digits: "s \<noteq> [] \<Longrightarrow> list_all is_digit s \<Longrightarrow> \<exists>n. parse_dec s = Some n \<and> n < 10 ^ length s"
proof -
  assume s: "s \<noteq> []" "list_all is_digit s"
  have "foldl (\<lambda>a c. 10 * a + digit_val c) a s < (a + 1) * 10 ^ length s" if "list_all is_digit s" for a s
    using that
  proof (induction s arbitrary: a)
    case (Cons c s)
    then have "(of_char c :: nat) \<le> 57" by (simp add: is_digit_def)
    then have "digit_val c < 10" by (auto simp: digit_val_def)
    then have "(10 * a + digit_val c + 1) * 10 ^ length s \<le> (10 * (a + 1)) * 10 ^ length s"
      by (intro mult_right_mono) auto
    moreover have "foldl (\<lambda>a c. 10 * a + digit_val c) a (c # s) < (10 * a + digit_val c + 1) * 10 ^ length s"
      using Cons.IH [of "10 * a + digit_val c"] Cons.prems by simp
    ultimately show ?case by (simp only: length_Cons power_Suc mult.assoc mult.left_commute)
  qed simp
  from this [OF s(2), of 0] show ?thesis using s by (simp add: parse_dec_def)
qed

lemma clean_window_trim: "clean_window w = TrimSpace (map lower w)"
proof -
  have "is_space (lower c) = is_space c" for c
    by (auto simp: lower_def Let_def is_space_iff)
  then have "is_space \<circ> lower = is_space" by auto
  then show ?thesis by (simp add: clean_window_def TrimSpace_def dropWhile_map rev_map)
qed

text \<open>A window that passes the write check is a duration the evaluation can use, unless its number
  is zero: 0d is stored, and then refused by every evaluation.\<close>

theorem window_checked:
  assumes "windowRe (clean_window w)"
  shows "(case parse_dec (butlast (clean_window w)) of
            None \<Rightarrow> False
          | Some n \<Rightarrow> checkedWindow w = (if n = 0 then Inl WindowInvalid
              else Inr (int n * time_unit (last (clean_window w)))) \<and> n < 10000)"
proof -
  let ?w = "clean_window w"
  have b: "butlast ?w \<noteq> []" "list_all is_digit (butlast ?w)" "length (butlast ?w) \<le> 4"
    using assms by (cases ?w rule: rev_cases; auto simp: windowRe_def)+
  obtain n where n: "parse_dec (butlast ?w) = Some n" "n < 10 ^ length (butlast ?w)"
    using parse_dec_digits [OF b(1,2)] by blast
  have "n < 10 ^ 4" using n(2) b(3) by (meson less_le_trans one_le_numeral power_increasing)
  then have n4: "n < 10000" by simp
  have u: "time_unit (last ?w) \<in> {24 * 3600000000000, 3600000000000, 60000000000}"
    using assms by (auto simp: windowRe_def time_unit_def)
  then have d: "int n \<le> (2 ^ 63 - 1) div time_unit (last ?w)" using n4 by auto
  have len: "?w \<noteq> []" "\<not> length ?w < 2" using assms by (auto simp: windowRe_def)
  have "parse_int64 (butlast ?w) = Some (int n)"
    using parse_int64_digits [OF b(1,2)] n n4 by simp
  then have "checkedWindow w = (if n = 0 then Inl WindowInvalid else Inr (int n * time_unit (last ?w)))"
    unfolding checkedWindow_def Let_def clean_window_trim [symmetric] using len u d by auto
  then show ?thesis using n n4 by simp
qed

section \<open>Evaluation denotes the tree\<close>

text \<open>Membership in a tree, over the sets \<open>L\<close> of its leaves and the identified users \<open>U\<close>.\<close>

fun denotes :: "(Rule \<Rightarrow> idSet) \<Rightarrow> idSet \<Rightarrow> node \<Rightarrow> string \<Rightarrow> bool" where
  "denotes L U (Node op kids leaf) i =
     (case leaf of
        Some r \<Rightarrow> i \<in> L r
      | None \<Rightarrow>
          if op = ''and'' then list_all (\<lambda>k. denotes L U k i) kids
          else if op = ''or'' then list_ex (\<lambda>k. denotes L U k i) kids
          else i \<in> U \<and> \<not> list_ex (\<lambda>k. denotes L U k i) kids)"

locale sound_sources =
  fixes leaf :: "Rule \<Rightarrow> 'w \<Rightarrow> (cohort_error + idSet) \<times> 'w"
    and uni :: "'w \<Rightarrow> (cohort_error + idSet) \<times> 'w"
    and good :: "'w \<Rightarrow> bool"
    and L :: "Rule \<Rightarrow> idSet"
    and U :: idSet
  assumes leaf_sound: "good w \<Longrightarrow> leaf r w = (Inr s, w') \<Longrightarrow> s = L r \<and> good w'"
    and uni_sound: "good w \<Longrightarrow> uni w = (Inr s, w') \<Longrightarrow> s = U \<and> good w'"
begin

lemma unionSets_Inr: "unionSets a b = Inr c \<Longrightarrow> c = a \<union> b"
  by (auto simp: unionSets_def split: if_splits)

definition kid_sound :: "node \<Rightarrow> bool" where
  "kid_sound k \<longleftrightarrow> (\<forall>w s w'. good w \<longrightarrow> evalNode leaf uni k w = (Inr s, w') \<longrightarrow> s = {i. denotes L U k i} \<and> good w')"

lemma evalAnd_sound:
  assumes "list_all kid_sound ns" "good w" "evalAnd leaf uni ns acc w = (Inr s, w')" "acc = None \<Longrightarrow> ns \<noteq> []"
  shows "s = (case acc of None \<Rightarrow> UNIV | Some a \<Rightarrow> a) \<inter> {i. list_all (\<lambda>k. denotes L U k i) ns} \<and> good w'"
  using assms
proof (induction ns arbitrary: acc w)
  case (Cons k ns)
  then obtain u w1 where k: "evalNode leaf uni k w = (Inr u, w1)" by (auto split: prod.splits sum.splits)
  then have u: "u = {i. denotes L U k i}" "good w1" using Cons.prems(1,2) by (simp_all add: kid_sound_def)
  define acc1 where "acc1 = (case acc of None \<Rightarrow> u | Some a \<Rightarrow> intersectSets a u)"
  have acc1: "acc1 = (case acc of None \<Rightarrow> UNIV | Some a \<Rightarrow> a) \<inter> {i. denotes L U k i}"
    unfolding acc1_def u by (auto simp: intersectSets_def split: option.splits)
  show ?case
  proof (cases "acc1 = {}")
    case True
    then have "s = {}" "w' = w1" using Cons.prems(3) k by (auto simp: acc1_def [symmetric])
    then show ?thesis using acc1 True u(2) by auto
  next
    case False
    then have "evalAnd leaf uni ns (Some acc1) w1 = (Inr s, w')"
      using Cons.prems(3) k by (simp add: acc1_def [symmetric])
    from Cons.IH [OF _ u(2) this] Cons.prems(1) show ?thesis by (auto simp: acc1)
  qed
next
  case Nil
  then show ?case by (cases acc) auto
qed

lemma evalOr_sound:
  assumes "list_all kid_sound ns" "good w" "evalOr leaf uni ns a w = (Inr s, w')"
  shows "s = a \<union> {i. list_ex (\<lambda>k. denotes L U k i) ns} \<and> good w'"
  using assms
proof (induction ns arbitrary: a w)
  case (Cons k ns)
  then obtain u w1 c where k: "evalNode leaf uni k w = (Inr u, w1)" "unionSets a u = Inr c"
      "evalOr leaf uni ns c w1 = (Inr s, w')" by (auto split: prod.splits sum.splits)
  then have "u = {i. denotes L U k i}" "good w1" using Cons.prems(1,2) by (simp_all add: kid_sound_def)
  then show ?case using Cons.IH [OF _ _ k(3)] Cons.prems(1) unionSets_Inr [OF k(2)] by auto
qed simp

lemma eval_sound: "arity_ok n \<Longrightarrow> kid_sound n"
proof (induction n)
  case (Node op kids lf)
  show ?case
  proof (cases lf)
    case (Some r)
    then show ?thesis using leaf_sound by (auto simp: kid_sound_def)
  next
    case None
    then have kids: "list_all kid_sound kids" using Node by (auto simp: list_all_iff)
    consider "op = ''and''" "kids \<noteq> []" | "op = ''or''" | k where "op = ''not''" "kids = [k]"
      using Node.prems None by (auto simp: length_Suc_conv)
    then show ?thesis
    proof cases
      case 1
      then show ?thesis using evalAnd_sound [OF kids, of _ None] None by (auto simp: kid_sound_def)
    next
      case 2
      then show ?thesis using evalOr_sound [OF kids] None by (fastforce simp: kid_sound_def)
    next
      case 3
      show ?thesis unfolding kid_sound_def
      proof (intro allI impI)
        fix w s w' assume w: "good w" "evalNode leaf uni (Node op kids lf) w = (Inr s, w')"
        then obtain t w1 v where "evalNode leaf uni k w = (Inr t, w1)" "uni w1 = (Inr v, w')" "s = differenceSets v t"
          using 3 None by (auto split: prod.splits sum.splits)
        moreover from this have "t = {i. denotes L U k i}" "good w1" using kids 3 w(1) by (auto simp: kid_sound_def)
        ultimately show "s = {i. denotes L U (Node op kids lf) i} \<and> good w'"
          using uni_sound [of w1] 3 None by (auto simp: differenceSets_def)
      qed
    qed
  qed
qed

lemma eval_denotes:
  "arity_ok n \<Longrightarrow> good w \<Longrightarrow> evalNode leaf uni n w = (Inr s, w') \<Longrightarrow> s = {i. denotes L U n i}"
  using eval_sound by (simp add: kid_sound_def)

end

section \<open>What the queries are about\<close>

record cohort_event =
  ce_id :: string
  ce_type :: string
  ce_time :: int
  ce_prop :: "string \<Rightarrow> string"

definition identified :: "cohort_event list \<Rightarrow> idSet" where
  "identified evs = {i. i \<noteq> [] \<and> i \<in> ce_id ` set evs}"

definition event_count :: "cohort_event list \<Rightarrow> string \<Rightarrow> int \<Rightarrow> string \<Rightarrow> nat" where
  "event_count evs name t i = length (filter (\<lambda>e. ce_id e = i \<and> ce_type e = name \<and> ce_time e \<ge> t) evs)"

definition with_property :: "cohort_event list \<Rightarrow> string \<Rightarrow> string \<Rightarrow> idSet" where
  "with_property evs key v = {i \<in> identified evs. list_ex (\<lambda>e. ce_id e = i \<and> ce_prop e key = v) evs}"

text \<open>The documented meaning of the three statements, whenever the store answers.\<close>

definition answers_for :: "cohort_event list \<Rightarrow> cohort_store \<Rightarrow> bool" where
  "answers_for evs st \<longleftrightarrow>
     (\<forall>name t rows. st_event st name t = Inr rows \<longrightarrow>
        (\<forall>i c. (i, c) \<in> set rows \<longleftrightarrow> i \<noteq> [] \<and> c = int (event_count evs name t i) \<and> c > 0))
   \<and> (\<forall>key v rows. st_property st key v = Inr rows \<longrightarrow> set rows = with_property evs key v)
   \<and> (\<forall>rows. st_universe st = Inr rows \<longrightarrow> set rows = identified evs)"

text \<open>The users a rule is about.\<close>

definition rule_members :: "cohort_event list \<Rightarrow> int \<Rightarrow> Rule \<Rightarrow> idSet" where
  "rule_members evs now r =
     (if rl_type r = ''event'' then
        (case checkedWindow (rl_window r) of
           Inl e \<Rightarrow> {}
         | Inr d \<Rightarrow> {i. i \<noteq> [] \<and> int (event_count evs (rl_name r) ((now - d) div 1000000) i) \<ge> min_count r})
      else if rl_op r = ''!='' then identified evs - with_property evs (rl_key r) (rl_value r)
      else with_property evs (rl_key r) (rl_value r))"

definition work_ok :: "cohort_event list \<Rightarrow> readWork \<Rightarrow> bool" where
  "work_ok evs w \<longleftrightarrow> wk_rows w \<ge> 0 \<and> (case wk_universe w of None \<Rightarrow> True | Some u \<Rightarrow> u = identified evs)"

lemma bounded_rows_full:
  assumes "wk_rows w \<ge> 0" "bounded_rows b ended answer w = (Inr rows, w')"
  shows "answer = Inr rows \<and> wk_rows w' \<ge> 0 \<and> wk_universe w' = wk_universe w"
proof -
  obtain full where a: "answer = Inr full" using assms(2) by (cases answer) (auto simp: bounded_rows_def)
  have rows: "rows = take (leafLimit b) full" "length rows \<le> MaxLeafRows" "wk_rows w' = wk_rows w + int (length rows)"
    "wk_universe w' = wk_universe w" "bd_rows b > 0 \<Longrightarrow> wk_rows w' \<le> bd_rows b"
    using assms(2) by (auto simp: a bounded_rows_def accountRows_def Let_def split: if_splits prod.splits option.splits)
  have "length full < leafLimit b"
  proof (rule ccontr)
    assume "\<not> length full < leafLimit b"
    then have "length rows = leafLimit b" using rows(1) by simp
    then show False using rows(2,3,5) assms(1) by (auto simp: leafLimit_def split: if_splits)
  qed
  then show ?thesis using a rows assms(1) by simp
qed

lemma event_rule_sound:
  assumes "answers_for evs st" "work_ok evs w" "evalEventRule b st ended now r w = (Inr ids, w')" "rl_type r = ''event''"
  shows "set ids = rule_members evs now r \<and> work_ok evs w'"
proof -
  obtain d rows where d: "checkedWindow (rl_window r) = Inr d"
    and q: "bounded_rows b ended (st_event st (rl_name r) ((now - d) div 1000000)) w = (Inr rows, w')"
    and ids: "ids = map fst (filter (\<lambda>(i, c). c \<ge> min_count r) rows)"
    using assms(3) by (auto simp: evalEventRule_def split: if_splits sum.splits prod.splits)
  note B = bounded_rows_full [OF _ q]
  have "\<forall>i c. (i, c) \<in> set rows \<longleftrightarrow> i \<noteq> [] \<and> c = int (event_count evs (rl_name r) ((now - d) div 1000000) i) \<and> c > 0"
    using assms(1,2) B unfolding answers_for_def work_ok_def by blast
  moreover have "min_count r \<ge> 1" by (simp add: min_count_def)
  moreover have "set ids = {i. \<exists>c. (i, c) \<in> set rows \<and> c \<ge> min_count r}" unfolding ids by force
  ultimately have "set ids = {i. i \<noteq> [] \<and> int (event_count evs (rl_name r) ((now - d) div 1000000) i) \<ge> min_count r}"
    by auto
  then have "set ids = rule_members evs now r" by (simp add: rule_members_def assms(4) d)
  then show ?thesis using assms(2) B by (auto simp: work_ok_def)
qed

lemma property_rule_sound:
  assumes "answers_for evs st" "work_ok evs w" "evalPropertyRule b st ended r w = (Inr ids, w')" "rl_type r \<noteq> ''event''"
  shows "set ids = rule_members evs now r \<and> work_ok evs w'"
proof -
  obtain matched w1 where q: "bounded_rows b ended (st_property st (rl_key r) (rl_value r)) w = (Inr matched, w1)"
    and rest: "(if (if rl_op r = [] then ''='' else rl_op r) = ''='' then (Inr matched, w1)
      else case loadUniverse b st ended w1 of (Inl e, w2) \<Rightarrow> (Inl e, w2)
        | (Inr allIds, w2) \<Rightarrow> (Inr (subtractIDs allIds matched), w2)) = (Inr ids, w')"
    and op: "rl_op r = [] \<or> rl_op r = ''='' \<or> rl_op r = ''!=''"
    using assms(3) by (auto simp: evalPropertyRule_def Let_def split: if_splits sum.splits prod.splits)
  note B = bounded_rows_full [OF _ q]
  have m: "set matched = with_property evs (rl_key r) (rl_value r)" "work_ok evs w1"
    using assms(1,2) B unfolding answers_for_def work_ok_def by auto
  show ?thesis
  proof (cases "rl_op r = ''!=''")
    case True
    then obtain allIds where u: "bounded_rows b ended (st_universe st) w1 = (Inr allIds, w')" "ids = subtractIDs allIds matched"
      using rest by (auto simp: loadUniverse_def split: sum.splits prod.splits)
    have "set allIds = identified evs" "work_ok evs w'"
      using assms(1) m(2) bounded_rows_full [OF _ u(1)] unfolding answers_for_def work_ok_def by auto
    then show ?thesis using True u(2) m(1) assms(4) by (auto simp: subtractIDs_def rule_members_def)
  next
    case False
    then have "(if rl_op r = [] then ''='' else rl_op r) = ''=''" using op by auto
    then have "ids = matched" "w' = w1" using rest by simp_all
    then show ?thesis using m by (simp add: rule_members_def assms(4) False)
  qed
qed

lemma rule_members_identified: "[] \<notin> rule_members evs now r"
  by (auto simp: rule_members_def identified_def with_property_def split: sum.splits)

lemma event_count_member: "0 < event_count evs name t i \<Longrightarrow> i \<in> ce_id ` set evs"
  by (auto simp: event_count_def filter_empty_conv)

lemma rule_members_subset: "rule_members evs now r \<subseteq> identified evs"
proof
  fix i assume i: "i \<in> rule_members evs now r"
  show "i \<in> identified evs"
  proof (cases "rl_type r = ''event''")
    case True
    then obtain t where "i \<noteq> []" "int (event_count evs (rl_name r) t i) \<ge> min_count r"
      using i by (auto simp: rule_members_def split: sum.splits)
    moreover have "min_count r \<ge> 1" by (simp add: min_count_def)
    ultimately show ?thesis using event_count_member [of evs "rl_name r" t i] by (simp add: identified_def)
  next
    case False
    then show ?thesis using i by (auto simp: rule_members_def with_property_def split: if_splits)
  qed
qed

text \<open>The leaf and universe sources of \<^verbatim>\<open>EvaluateCohort\<close> meet the contract of the tree evaluation.\<close>

interpretation cohort_env: sound_sources "env_leaf b st ended now" "env_universe b st ended"
  "\<lambda>w. answers_for evs st \<and> work_ok evs w" "rule_members evs now" "identified evs"
  for b st ended now evs
proof
  fix w r s w' assume "answers_for evs st \<and> work_ok evs w" "env_leaf b st ended now r w = (Inr s, w')"
  then have assms: "answers_for evs st" and w: "work_ok evs w" "env_leaf b st ended now r w = (Inr s, w')" by auto
  then obtain ids where ids: "evalRule b st ended now r w = (Inr ids, w')" "s = toSet ids"
    by (auto simp: env_leaf_def split: sum.splits prod.splits)
  have "set ids = rule_members evs now r \<and> work_ok evs w'"
    using ids(1) event_rule_sound [OF assms w(1)] property_rule_sound [OF assms w(1)]
    by (auto simp: evalRule_def split: if_splits)
  then show "s = rule_members evs now r \<and> answers_for evs st \<and> work_ok evs w'"
    using assms ids(2) rule_members_identified [of evs now r] by (auto simp: toSet_def)
next
  fix w s w' assume "answers_for evs st \<and> work_ok evs w" "env_universe b st ended w = (Inr s, w')"
  then have assms: "answers_for evs st" and w: "work_ok evs w" "env_universe b st ended w = (Inr s, w')" by auto
  have "s = identified evs \<and> work_ok evs w'"
  proof (cases "wk_universe w")
    case None
    then obtain ids w1 where u: "bounded_rows b ended (st_universe st) w = (Inr ids, w1)" "s = toSet ids"
      "w' = w1\<lparr>wk_universe := Some (toSet ids)\<rparr>"
      using w(2) by (auto simp: env_universe_def loadUniverse_def split: sum.splits prod.splits)
    have "set ids = identified evs" "wk_rows w1 \<ge> 0"
      using assms w(1) bounded_rows_full [OF _ u(1)] unfolding answers_for_def work_ok_def by auto
    then have "toSet ids = identified evs" by (auto simp: toSet_def identified_def)
    then show ?thesis using u \<open>wk_rows w1 \<ge> 0\<close> by (simp add: work_ok_def)
  qed (use w in \<open>auto simp: env_universe_def work_ok_def\<close>)
  then show "s = identified evs \<and> answers_for evs st \<and> work_ok evs w'" using assms by simp
qed

section \<open>EvaluateCohort\<close>


text \<open>A store that answers every query from a list of events.\<close>

definition store_of :: "cohort_event list \<Rightarrow> cohort_store" where
  "store_of evs = (let ids = filter (\<lambda>i. i \<noteq> []) (remdups (map ce_id evs)) in
     \<lparr>st_event = (\<lambda>name t. Inr (map (\<lambda>i. (i, int (event_count evs name t i)))
          (filter (\<lambda>i. event_count evs name t i > 0) ids))),
      st_property = (\<lambda>key v. Inr (filter (\<lambda>i. list_ex (\<lambda>e. ce_id e = i \<and> ce_prop e key = v) evs) ids)),
      st_universe = Inr ids\<rparr>)"

lemma store_of_answers: "answers_for evs (store_of evs)"
  unfolding answers_for_def
proof (intro conjI allI impI)
  fix name t rows i c
  assume "st_event (store_of evs) name t = Inr rows"
  then show "(i, c) \<in> set rows \<longleftrightarrow> i \<noteq> [] \<and> c = int (event_count evs name t i) \<and> 0 < c"
    using event_count_member [of evs name t i] by (auto simp: store_of_def Let_def)
qed (auto simp: store_of_def Let_def identified_def with_property_def)

definition sample_cohort :: Definition where
  "sample_cohort = Definition ''and'' [] [Definition [] [] [] (Some
       \<lparr>rl_type = ''event'', rl_name = ''buy'', rl_window = [], rl_min = 1, rl_key = [], rl_op = [], rl_value = []\<rparr>),
     Definition ''not'' [] [Definition [] [] [] (Some
       \<lparr>rl_type = ''property'', rl_name = [], rl_window = [], rl_min = 0, rl_key = ''os'', rl_op = [], rl_value = ''x''\<rparr>)] None] None"

definition sample_events :: "cohort_event list" where
  "sample_events = [\<lparr>ce_id = ''b'', ce_type = ''buy'', ce_time = 5, ce_prop = (\<lambda>_. ''y'')\<rparr>,
     \<lparr>ce_id = ''a'', ce_type = ''buy'', ce_time = 5, ce_prop = (\<lambda>_. ''x'')\<rparr>]"

section \<open>Evaluation succeeds\<close>

text \<open>Sources that always answer for the rules in \<open>R\<close>, with sets inside a universe that is not too large.\<close>

locale total_sources = sound_sources +
  fixes R :: "Rule set"
  assumes leaf_total: "good w \<Longrightarrow> r \<in> R \<Longrightarrow> \<exists>s w'. leaf r w = (Inr s, w')"
    and uni_total: "good w \<Longrightarrow> \<exists>s w'. uni w = (Inr s, w')"
    and leaf_sub: "good w \<Longrightarrow> L r \<subseteq> U"
    and small: "good w \<Longrightarrow> finite U \<and> card U \<le> MaxEvalSet"
begin

lemma denotes_sub: "good w \<Longrightarrow> arity_ok n \<Longrightarrow> {i. denotes L U n i} \<subseteq> U"
proof (induction n)
  case (Node op kids lf)
  show ?case
  proof (cases lf)
    case None
    then show ?thesis using Node by (cases kids) (auto split: if_splits simp: list_ex_iff list_all_iff)
  qed (use Node.prems leaf_sub in auto)
qed

definition kid_total :: "node \<Rightarrow> bool" where
  "kid_total k \<longleftrightarrow> arity_ok k \<and> (\<forall>w. good w \<longrightarrow> (\<exists>s w'. evalNode leaf uni k w = (Inr s, w')))"

lemma evalAnd_total: "list_all kid_total ns \<Longrightarrow> good w \<Longrightarrow> \<exists>s w'. evalAnd leaf uni ns acc w = (Inr s, w')"
proof (induction ns arbitrary: acc w)
  case (Cons k ns)
  then obtain s w1 where k: "evalNode leaf uni k w = (Inr s, w1)" by (auto simp: kid_total_def)
  moreover have "good w1" using Cons.prems k eval_sound [of k] by (auto simp: kid_total_def kid_sound_def)
  ultimately show ?case using Cons by (simp add: Let_def)
qed simp

lemma evalOr_total: "list_all kid_total ns \<Longrightarrow> good w \<Longrightarrow> a \<subseteq> U \<Longrightarrow> \<exists>s w'. evalOr leaf uni ns a w = (Inr s, w')"
proof (induction ns arbitrary: a w)
  case (Cons k ns)
  then obtain s w1 where k: "evalNode leaf uni k w = (Inr s, w1)" by (auto simp: kid_total_def)
  have s: "s = {i. denotes L U k i}" "good w1"
    using Cons.prems k eval_sound [of k] by (auto simp: kid_total_def kid_sound_def)
  have sub: "a \<subseteq> U" "s \<subseteq> U"
    using Cons.prems denotes_sub [of w k] s(1) by (auto simp: kid_total_def)
  then have "finite a" "finite s" "card (a \<union> s) \<le> card U"
    using small [OF Cons.prems(2)] by (auto intro: finite_subset card_mono)
  moreover have "card (a \<union> s) = card a + card {i \<in> s. i \<notin> a}"
    using \<open>finite a\<close> \<open>finite s\<close> card_Un_disjoint [of a "{i \<in> s. i \<notin> a}"]
    by (simp add: Un_def disjoint_iff) (metis (mono_tags, lifting) Collect_cong)
  ultimately have "unionSets a s = Inr (a \<union> s)" using small [OF Cons.prems(2)] by (simp add: unionSets_def)
  then show ?case using Cons k s(2) sub by simp
qed simp

lemma eval_total: "arity_ok n \<Longrightarrow> set (leaf_rules n) \<subseteq> R \<Longrightarrow> kid_total n"
proof (induction n)
  case (Node op kids lf)
  show ?case
  proof (cases lf)
    case (Some r)
    then show ?thesis using Node.prems leaf_total by (auto simp: kid_total_def)
  next
    case None
    then have kids: "list_all kid_total kids" using Node by (auto simp: list_all_iff)
    consider "op = ''and''" | "op = ''or''" | k where "op = ''not''" "kids = [k]"
      using Node.prems None by (auto simp: length_Suc_conv)
    then show ?thesis
    proof cases
      case 1
      then show ?thesis using Node.prems(1) evalAnd_total [OF kids] None by (auto simp: kid_total_def)
    next
      case 2
      then show ?thesis using Node.prems(1) evalOr_total [OF kids, of _ "{}"] None by (auto simp: kid_total_def)
    next
      case 3
      have "\<exists>s w'. evalNode leaf uni (Node op kids lf) w = (Inr s, w')" if w: "good w" for w
      proof -
        obtain s w1 where k: "evalNode leaf uni k w = (Inr s, w1)" using kids 3 w by (auto simp: kid_total_def)
        moreover have "good w1" using k kids 3 w eval_sound [of k] by (auto simp: kid_total_def kid_sound_def)
        ultimately show ?thesis using uni_total [of w1] 3 None by (auto simp: numeral_eq_Suc)
      qed
      then show ?thesis using Node.prems(1) by (simp add: kid_total_def)
    qed
  qed
qed

end

text \<open>A store all of whose queries answer within the row bound, and no budget that could refuse.\<close>

definition unhindered :: "cohort_event list \<Rightarrow> Budgets \<Rightarrow> cohort_store \<Rightarrow> (nat \<Rightarrow> bool) \<Rightarrow> bool" where
  "unhindered evs b st ended \<longleftrightarrow> bd_rows b \<le> 0 \<and> (\<forall>k. \<not> ended k) \<and> card (identified evs) \<le> MaxEvalSet
   \<and> (\<forall>name t. \<exists>rows. st_event st name t = Inr rows \<and> length rows \<le> MaxLeafRows)
   \<and> (\<forall>key v. \<exists>rows. st_property st key v = Inr rows \<and> length rows \<le> MaxLeafRows)
   \<and> (\<exists>rows. st_universe st = Inr rows \<and> length rows \<le> MaxLeafRows)"

definition usable :: "Budgets \<Rightarrow> Rule \<Rightarrow> bool" where
  "usable b r \<longleftrightarrow> validateRule r = None \<and> (rl_type r = ''event'' \<longrightarrow>
     (case checkedWindow (rl_window r) of Inl e \<Rightarrow> False | Inr d \<Rightarrow> bd_window b \<le> 0 \<or> d \<le> bd_window b))"

lemma bounded_rows_total:
  assumes "bd_rows b \<le> 0" "\<forall>k. \<not> ended k" "length rows \<le> MaxLeafRows"
  shows "\<exists>w'. bounded_rows b ended (Inr rows) w = (Inr rows, w')"
  using assms by (auto simp: bounded_rows_def accountRows_def Let_def leafLimit_def)

lemma evalRule_total:
  assumes "unhindered evs b st ended" "usable b r"
  shows "\<exists>ids w'. evalRule b st ended now r w = (Inr ids, w')"
proof -
  have b: "bd_rows b \<le> 0" "\<forall>k. \<not> ended k" using assms(1) by (auto simp: unhindered_def)
  have v: "validateRule r = None" using assms(2) by (simp add: usable_def)
  show ?thesis
  proof (cases "rl_type r = ''event''")
    case True
    then obtain d where d: "checkedWindow (rl_window r) = Inr d" "bd_window b \<le> 0 \<or> d \<le> bd_window b"
      using assms(2) by (auto simp: usable_def split: sum.splits)
    have "TrimSpace (rl_name r) \<noteq> []" using v True by (auto simp: validateRule_def split: if_splits)
    then have n: "rl_name r \<noteq> []" by (auto simp: TrimSpace_def)
    obtain rows where q: "st_event st (rl_name r) ((now - d) div 1000000) = Inr rows" "length rows \<le> MaxLeafRows"
      using assms(1) unfolding unhindered_def by blast
    from bounded_rows_total [OF b q(2)] obtain w1 where "bounded_rows b ended (Inr rows) w = (Inr rows, w1)" by blast
    then show ?thesis using True d n q(1) by (auto simp: evalRule_def evalEventRule_def)
  next
    case False
    then have p: "rl_type r = ''property''" "rl_key r \<noteq> []" "isAllowedPropertyKey (rl_key r)"
        "rl_op r = [] \<or> rl_op r = ''='' \<or> rl_op r = ''!=''"
      using v by (auto simp: validateRule_def split: if_splits)
    obtain rows urows where q: "st_property st (rl_key r) (rl_value r) = Inr rows" "length rows \<le> MaxLeafRows"
      "st_universe st = Inr urows" "length urows \<le> MaxLeafRows" using assms(1) unfolding unhindered_def by blast
    from bounded_rows_total [OF b q(2)] obtain w1 where q1: "bounded_rows b ended (Inr rows) w = (Inr rows, w1)" by blast
    from bounded_rows_total [OF b q(4)] obtain w2 where q2: "bounded_rows b ended (Inr urows) w1 = (Inr urows, w2)" by blast
    show ?thesis using False p q1 q2 q(1,3)
      by (simp add: evalRule_def evalPropertyRule_def Let_def loadUniverse_def) auto
  qed
qed

interpretation cohort_total: total_sources "env_leaf b st ended now" "env_universe b st ended"
  "\<lambda>w. (answers_for evs st \<and> unhindered evs b st ended) \<and> work_ok evs w" "rule_members evs now" "identified evs"
  "Collect (usable b)" for b st ended now evs
proof
  fix w r s w'
  assume a: "(answers_for evs st \<and> unhindered evs b st ended) \<and> work_ok evs w"
  then have g: "answers_for evs st \<and> work_ok evs w" and h: "unhindered evs b st ended" by auto
  show "s = rule_members evs now r \<and> (answers_for evs st \<and> unhindered evs b st ended) \<and> work_ok evs w'"
    if "env_leaf b st ended now r w = (Inr s, w')"
    using cohort_env.leaf_sound [OF g that] h by simp
  show "s = identified evs \<and> (answers_for evs st \<and> unhindered evs b st ended) \<and> work_ok evs w'"
    if "env_universe b st ended w = (Inr s, w')"
    using cohort_env.uni_sound [OF g that] h by simp
  show "\<exists>s w'. env_leaf b st ended now r w = (Inr s, w')" if "r \<in> Collect (usable b)"
    using evalRule_total [OF h, of r now w] that by (auto simp: env_leaf_def)
  show "\<exists>s w'. env_universe b st ended w = (Inr s, w')"
  proof -
    obtain rows where "st_universe st = Inr rows" "length rows \<le> MaxLeafRows" using h unfolding unhindered_def by blast
    moreover from this h have "\<exists>w'. bounded_rows b ended (Inr rows) w = (Inr rows, w')"
      by (intro bounded_rows_total) (simp_all add: unhindered_def)
    ultimately show ?thesis by (auto simp: env_universe_def loadUniverse_def split: option.splits)
  qed
  show "rule_members evs now r \<subseteq> identified evs" by (rule rule_members_subset)
  show "finite (identified evs) \<and> card (identified evs) \<le> MaxEvalSet"
    using h by (simp add: unhindered_def identified_def)
qed

lemma evaluate_succeeds:
  assumes "answers_for evs st" "unhindered evs b st ended" "wk_rows w \<ge> 0" "siteID \<noteq> []" "df_op def \<noteq> ''static''"
    and "ValidateDefinition def = None" "\<forall>r \<in> set (leaf_rules (normalize def)). usable b r"
  shows "\<exists>ids. fst (EvaluateCohort None admitted w b st ended now siteID def) = Inr ids"
proof -
  have v: "validateDefinition True def = None" using assms(6) by (simp add: ValidateDefinition_def)
  then have shape: "arity_ok (normalize def)" "validateShape def = None" "leaf_rules (normalize def) \<noteq> []"
    using assms(5) by (auto simp: validateShape_def validate_iff OpStatic_def leaves_valid_def)
  have "cohort_total.kid_total b st ended now evs (normalize def)"
    using cohort_total.eval_total [OF shape(1)] assms(7) by blast
  then obtain s w' where "evalNode (env_leaf b st ended now) (env_universe b st ended) (normalize def)
      (w\<lparr>wk_universe := None\<rparr>) = (Inr s, w')"
    using assms(1-3) cohort_total.kid_total_def [of b st ended now evs] by (fastforce simp: work_ok_def)
  moreover have "\<not> (df_rules def = [] \<and> df_children def = [] \<and> df_leaf def = None)"
    using shape(3) by (cases def; cases "df_leaf def") auto
  ultimately show ?thesis using assms(4,5) shape(2)
    by (auto simp: EvaluateCohort_def beginRead_def evaluate_tree_def IsStatic_def OpStatic_def Let_def)
qed


definition no_budgets :: Budgets where
  "no_budgets = \<lparr>bd_timeout = 0, bd_rows = 0, bd_window = 0\<rparr>"

lemma sample_cohort_facts:
  "unhindered sample_events no_budgets (store_of sample_events) (\<lambda>_. False)"
  "wk_rows fresh_work \<ge> 0" "df_op sample_cohort \<noteq> ''static''" "ValidateDefinition sample_cohort = None"
  "\<forall>r \<in> set (leaf_rules (normalize sample_cohort)). usable no_budgets r"
proof -
  have "card (identified sample_events) \<le> length (map ce_id sample_events)"
    by (metis (no_types, lifting) card_length card_mono dual_order.trans finite_set identified_def mem_Collect_eq set_map subsetI)
  then show "unhindered sample_events no_budgets (store_of sample_events) (\<lambda>_. False)"
    by (simp add: unhindered_def no_budgets_def store_of_def Let_def MaxLeafRows_def MaxEvalSet_def sample_events_def)
  show "wk_rows fresh_work \<ge> 0" by (simp add: fresh_work_def)
  show "df_op sample_cohort \<noteq> ''static''" by (simp add: sample_cohort_def)
  show "ValidateDefinition sample_cohort = None"
    by (simp add: ValidateDefinition_def validateDefinition_def sample_cohort_def OpStatic_def MaxTreeDepth_def
      MaxTreeLeaves_def leaf_node_def validateRule_def maxRuleStr_def maxRuleMinCount_def TrimSpace_def is_space_iff
      isAllowedPropertyKey_def allowedPropertyKeys_def)
  show "\<forall>r \<in> set (leaf_rules (normalize sample_cohort)). usable no_budgets r"
    by (simp add: sample_cohort_def leaf_node_def usable_def no_budgets_def validateRule_def maxRuleStr_def
      maxRuleMinCount_def TrimSpace_def is_space_iff isAllowedPropertyKey_def allowedPropertyKeys_def checkedWindow_def)
qed



lemma sample_window: "TrimSpace ''7d'' = ''7d''"
  by (rule TrimSpace_id) (simp_all add: is_space_iff)

theorem window_checked_witness: "checkedWindow ''7d'' = Inr (7 * 86400000000000)"
proof -
  have c: "clean_window ''7d'' = ''7d''" by (simp add: clean_window_def sample_window lower_def Let_def)
  moreover have "parse_dec ''7'' = Some 7" by (simp add: parse_dec_def is_digit_def digit_val_def)
  moreover have "windowRe ''7d''" by (simp add: windowRe_def is_digit_def)
  ultimately show ?thesis using window_checked [of "''7d''"] by (simp add: time_unit_def)
qed

end
