(* ===== verification/CohortStatic.thy ===== *)
theory CohortStatic
  imports CohortEval "HOL-Library.Monad_Syntax"
begin

text \<open>
  Static cohorts (\<^verbatim>\<open>src/internal/cohorts/static.go\<close>): a member list kept as versioned rows with
  tombstones, edited under \<^verbatim>\<open>mutationMu\<close>, and the summary rows of the cohort.  Both tables only grow; how
  each read and each insert ends is an argument.
\<close>

section \<open>Member ids\<close>

definition MaxStaticMembers :: nat where "MaxStaticMembers = 100000"
definition MaxEntityIDLen :: nat where "MaxEntityIDLen = 256"
definition staticInsertChunk :: nat where "staticInsertChunk = 1000"
definition maxStaticRows :: nat where "maxStaticRows = 600000"

datatype static_error =
    IdTooLong | IdControlChar | TooManyIDs nat | NotFound | NotStatic | BadRule | NameRequired
  | ReadFailed cohort_error | WriteFailed | VersionExhausted

definition control_char :: "char \<Rightarrow> bool" where
  "control_char c \<longleftrightarrow> (of_char c :: nat) < 32 \<or> (of_char c :: nat) = 127"

text \<open>The loop with its \<^verbatim>\<open>seen\<close> set and the list built so far; \<open>seen\<close> holds exactly the ids of \<open>out\<close>.\<close>

fun normalize_ids :: "string list \<Rightarrow> string list \<Rightarrow> static_error + string list" where
  "normalize_ids [] out = Inr out"
| "normalize_ids (raw # ids) out =
     (let i = TrimSpace raw in
      if i = [] then normalize_ids ids out
      else if length i > MaxEntityIDLen then Inl IdTooLong
      else if list_ex control_char i then Inl IdControlChar
      else if i \<in> set out then normalize_ids ids out
      else if length out \<ge> MaxStaticMembers then Inl (TooManyIDs MaxStaticMembers)
      else normalize_ids ids (out @ [i]))"

definition NormalizeIDs :: "string list \<Rightarrow> static_error + string list" where
  "NormalizeIDs ids = normalize_ids ids []"

section \<open>Member rows\<close>

record memberRecord =
  mb_id :: string
  mb_added :: int
  mb_removed :: int
  mb_version :: int

definition supersedes :: "memberRecord \<Rightarrow> memberRecord \<Rightarrow> bool" where
  "supersedes r cur \<longleftrightarrow> mb_version r > mb_version cur \<or> (mb_version r = mb_version cur \<and> mb_removed r > mb_removed cur)"

fun best_rows :: "memberRecord list \<Rightarrow> (string \<times> memberRecord) list \<Rightarrow> (string \<times> memberRecord) list" where
  "best_rows [] best = best"
| "best_rows (r # rs) best =
     best_rows rs (case map_of best (mb_id r) of
        None \<Rightarrow> AList.update (mb_id r) r best
      | Some cur \<Rightarrow> if supersedes r cur then AList.update (mb_id r) r best else best)"

text \<open>Live members and when each was added.\<close>

definition collapseMembers :: "memberRecord list \<Rightarrow> (string \<times> int) list" where
  "collapseMembers rows =
     map (\<lambda>(i, r). (i, mb_added r)) (filter (\<lambda>(i, r). mb_removed r = 0 \<and> i \<noteq> []) (best_rows rows []))"

section \<open>Summary rows\<close>

datatype stored_rule = StaticRule | TreeRule | BrokenRule

record Cohort =
  co_name :: string
  co_rule :: stored_rule
  co_count :: int
  co_created :: int
  co_updated :: int

fun pick_winner :: "Cohort \<Rightarrow> Cohort list \<Rightarrow> Cohort" where
  "pick_winner w [] = w"
| "pick_winner w (r # rs) = pick_winner (if co_updated r > co_updated w then r else w) rs"

text \<open>The rows stored for one site and cohort id; a winner without a name is a deleted cohort.\<close>

definition Get :: "Cohort list \<Rightarrow> Cohort option" where
  "Get rows = (case rows of [] \<Rightarrow> None
     | r # rs \<Rightarrow> let w = pick_winner r rs in if co_name w = [] then None else Some w)"

definition getStatic :: "Cohort list \<Rightarrow> static_error + Cohort" where
  "getStatic rows = (case Get rows of
     None \<Rightarrow> Inl NotFound
   | Some c \<Rightarrow> (case co_rule c of BrokenRule \<Rightarrow> Inl BadRule | TreeRule \<Rightarrow> Inl NotStatic | StaticRule \<Rightarrow> Inr c))"

section \<open>Reads and writes\<close>

text \<open>A read is refused or fails, or runs in a context that ends as told.\<close>

type_synonym read_outcome = "cohort_error + (nat \<Rightarrow> bool)"

definition staticLimit :: "Budgets \<Rightarrow> nat" where
  "staticLimit b = nat ((if bd_rows b > 0 \<and> bd_rows b < int maxStaticRows then bd_rows b else int maxStaticRows) + 1)"

definition member_read :: "Budgets \<Rightarrow> read_outcome \<Rightarrow> memberRecord list \<Rightarrow> static_error + memberRecord list" where
  "member_read b out rows =
     (case out of
        Inl e \<Rightarrow> Inl (ReadFailed e)
      | Inr ended \<Rightarrow>
          (let got = take (staticLimit b) rows in
           case accountRows b ended (length got) fresh_work of
             (Some e, _) \<Rightarrow> Inl (ReadFailed e)
           | (None, _) \<Rightarrow> if length got > maxStaticRows then Inl (ReadFailed TooLarge) else Inr got))"

definition readStatic :: "Budgets \<Rightarrow> read_outcome \<Rightarrow> memberRecord list \<Rightarrow> static_error + (string \<times> int) list" where
  "readStatic b out rows = (case member_read b out rows of Inl e \<Rightarrow> Inl e | Inr got \<Rightarrow> Inr (collapseMembers got))"

definition memberVersionAbove :: "int \<Rightarrow> int \<Rightarrow> static_error + int" where
  "memberVersionAbove high now =
     (if high = 2 ^ 63 - 1 then Inl VersionExhausted else Inr (if now \<le> high then high + 1 else now))"

definition nextMemberVersion :: "Budgets \<Rightarrow> read_outcome \<Rightarrow> memberRecord list \<Rightarrow> int \<Rightarrow> int \<Rightarrow> static_error + int" where
  "nextMemberVersion b out rows summary now =
     (case member_read b out rows of
        Inl e \<Rightarrow> Inl e
      | Inr got \<Rightarrow> memberVersionAbove (foldl (\<lambda>h r. if mb_version r > h then mb_version r else h) summary got) now)"

text \<open>An insert ends well, or fails with its rows stored or not.\<close>

datatype write_outcome = Written | Lost | LostButStored

text \<open>The chunked inserts: one outcome per statement, the rest is written.\<close>

function insertMembers :: "write_outcome list \<Rightarrow> memberRecord list \<Rightarrow> memberRecord list \<Rightarrow> bool \<times> memberRecord list" where
  "insertMembers outs new rows =
     (if new = [] then (True, rows)
      else case outs of
        [] \<Rightarrow> insertMembers [] (drop staticInsertChunk new) (rows @ take staticInsertChunk new)
      | Written # os \<Rightarrow> insertMembers os (drop staticInsertChunk new) (rows @ take staticInsertChunk new)
      | Lost # os \<Rightarrow> (False, rows)
      | LostButStored # os \<Rightarrow> (False, rows @ take staticInsertChunk new))"
  by pat_completeness auto
termination by (relation "measure (\<lambda>(outs, new, rows). length new)") (auto simp: staticInsertChunk_def)

declare insertMembers.simps [simp del]

record static_store =
  ss_members :: "memberRecord list"
  ss_cohorts :: "Cohort list"

definition putCohortRow :: "write_outcome \<Rightarrow> Cohort \<Rightarrow> static_store \<Rightarrow> bool \<times> static_store" where
  "putCohortRow out c s =
     (out = Written, if out = Lost then s else s\<lparr>ss_cohorts := ss_cohorts s @ [c]\<rparr>)"

text \<open>The outcomes of one edit: two reads, the member inserts, the summary row.\<close>

record edit_env =
  ee_budgets :: Budgets
  ee_read1 :: read_outcome
  ee_read2 :: read_outcome
  ee_now :: int
  ee_inserts :: "write_outcome list"
  ee_put :: write_outcome

section \<open>Edits\<close>

definition CreateStatic :: "edit_env \<Rightarrow> string \<Rightarrow> string \<Rightarrow> string list \<Rightarrow> static_store
    \<Rightarrow> (static_error + Cohort) \<times> static_store" where
  "CreateStatic env siteID name ids s =
     (if siteID = [] \<or> TrimSpace name = [] then (Inl NameRequired, s)
      else case NormalizeIDs ids of
        Inl e \<Rightarrow> (Inl e, s)
      | Inr norm \<Rightarrow>
          (let new = map (\<lambda>i. \<lparr>mb_id = i, mb_added = ee_now env, mb_removed = 0, mb_version = ee_now env\<rparr>) norm in
           case insertMembers (ee_inserts env) new (ss_members s) of
             (False, rows) \<Rightarrow> (Inl WriteFailed, s\<lparr>ss_members := rows\<rparr>)
           | (True, rows) \<Rightarrow>
               (let c = \<lparr>co_name = name, co_rule = StaticRule, co_count = int (length norm),
                         co_created = ee_now env, co_updated = ee_now env\<rparr> in
                case putCohortRow (ee_put env) c (s\<lparr>ss_members := rows\<rparr>) of
                  (ok, s') \<Rightarrow> (if ok then Inr c else Inl WriteFailed, s'))))"

text \<open>The part \<^verbatim>\<open>AddMembers\<close> and \<^verbatim>\<open>RemoveMembers\<close> share up to the version.\<close>

definition edit_start :: "edit_env \<Rightarrow> string list \<Rightarrow> static_store
    \<Rightarrow> static_error + Cohort \<times> string list \<times> (string \<times> int) list \<times> int" where
  "edit_start env ids s =
     (case getStatic (ss_cohorts s) of
        Inl e \<Rightarrow> Inl e
      | Inr c \<Rightarrow>
          (case NormalizeIDs ids of
             Inl e \<Rightarrow> Inl e
           | Inr norm \<Rightarrow>
               (case readStatic (ee_budgets env) (ee_read1 env) (ss_members s) of
                  Inl e \<Rightarrow> Inl e
                | Inr live \<Rightarrow>
                    (case nextMemberVersion (ee_budgets env) (ee_read2 env) (ss_members s) (co_updated c) (ee_now env) of
                       Inl e \<Rightarrow> Inl e
                     | Inr version \<Rightarrow> Inr (c, norm, live, version)))))"

text \<open>Nothing to write but, perhaps, a stale count.\<close>

definition repair_count :: "edit_env \<Rightarrow> Cohort \<Rightarrow> int \<Rightarrow> int \<Rightarrow> static_store
    \<Rightarrow> (static_error + Cohort \<times> nat) \<times> static_store" where
  "repair_count env c live version s =
     (if co_count c \<noteq> live then
        (let c' = c\<lparr>co_count := live, co_updated := version\<rparr> in
         case putCohortRow (ee_put env) c' s of
           (ok, s') \<Rightarrow> (if ok then Inr (c', 0) else Inl WriteFailed, s'))
      else (Inr (c, 0), s))"

definition write_members :: "edit_env \<Rightarrow> Cohort \<Rightarrow> memberRecord list \<Rightarrow> int \<Rightarrow> int \<Rightarrow> static_store
    \<Rightarrow> (static_error + Cohort \<times> nat) \<times> static_store" where
  "write_members env c new count version s =
     (case insertMembers (ee_inserts env) new (ss_members s) of
        (False, rows) \<Rightarrow> (Inl WriteFailed, s\<lparr>ss_members := rows\<rparr>)
      | (True, rows) \<Rightarrow>
          (let c' = c\<lparr>co_count := count, co_updated := version\<rparr> in
           case putCohortRow (ee_put env) c' (s\<lparr>ss_members := rows\<rparr>) of
             (ok, s') \<Rightarrow> (if ok then Inr (c', length new) else Inl WriteFailed, s')))"

definition AddMembers :: "edit_env \<Rightarrow> string list \<Rightarrow> static_store \<Rightarrow> (static_error + Cohort \<times> nat) \<times> static_store" where
  "AddMembers env ids s =
     (case edit_start env ids s of
        Inl e \<Rightarrow> (Inl e, s)
      | Inr (c, norm, live, version) \<Rightarrow>
          (let fresh = map (\<lambda>i. \<lparr>mb_id = i, mb_added = version, mb_removed = 0, mb_version = version\<rparr>)
                 (filter (\<lambda>i. map_of live i = None) norm) in
           if length live + length fresh > MaxStaticMembers then (Inl (TooManyIDs (length live + length fresh)), s)
           else if fresh = [] then repair_count env c (int (length live)) version s
           else write_members env c fresh (int (length live + length fresh)) version s))"

definition RemoveMembers :: "edit_env \<Rightarrow> string list \<Rightarrow> static_store \<Rightarrow> (static_error + Cohort \<times> nat) \<times> static_store" where
  "RemoveMembers env ids s =
     (case edit_start env ids s of
        Inl e \<Rightarrow> (Inl e, s)
      | Inr (c, norm, live, version) \<Rightarrow>
          (let gone = List.map_filter (\<lambda>i. map_option (\<lambda>added.
                 \<lparr>mb_id = i, mb_added = added, mb_removed = 1, mb_version = version\<rparr>) (map_of live i)) norm in
           if gone = [] then repair_count env c (int (length live)) version s
           else write_members env c gone (int (length live) - int (length gone)) version s))"

end
