(* ===== verification/CohortStaticProps.thy ===== *)
theory CohortStaticProps
  imports CohortStatic
begin

text \<open>
  Static cohorts refine a set: every edit, whether it succeeds or fails half-way, moves the live
  members as its ids say, and a successful one leaves the stored count exact.
\<close>

section \<open>The live members\<close>

fun best_of :: "string \<Rightarrow> memberRecord list \<Rightarrow> memberRecord option \<Rightarrow> memberRecord option" where
  "best_of i [] b = b"
| "best_of i (r # rs) b = best_of i rs
     (if mb_id r \<noteq> i then b else case b of None \<Rightarrow> Some r | Some c \<Rightarrow> if supersedes r c then Some r else b)"

definition live :: "memberRecord list \<Rightarrow> string set" where
  "live rows = {i. i \<noteq> [] \<and> (case best_of i rows None of None \<Rightarrow> False | Some r \<Rightarrow> mb_removed r = 0)}"

lemma best_of_append: "best_of i (rs @ ss) b = best_of i ss (best_of i rs b)"
  by (induction rs arbitrary: b) auto

lemma best_rows_of: "map_of (best_rows rs best) i = best_of i rs (map_of best i)"
proof (induction rs arbitrary: best)
  case (Cons r rs)
  show ?case by (cases "mb_id r = i") (auto simp: Cons.IH update_conv' split: option.splits)
qed simp

lemma best_rows_distinct: "distinct (map fst best) \<Longrightarrow> distinct (map fst (best_rows rs best))"
  by (induction rs arbitrary: best) (auto simp: distinct_update split: option.splits)

lemma best_of_cases: "best_of i rs b = Some r \<Longrightarrow> b = Some r \<or> r \<in> set rs \<and> mb_id r = i"
  by (induction rs arbitrary: b) (fastforce split: if_splits option.splits)+

lemma collapse_live: "map_of (collapseMembers rows) i =
    (if i \<in> live rows then map_option mb_added (best_of i rows None) else None)"
proof -
  have D: "distinct (map fst (best_rows rows []))" by (simp add: best_rows_distinct)
  have "map_of (map (\<lambda>(i, r). (i, mb_added r)) (filter (\<lambda>(i, r). mb_removed r = 0 \<and> i \<noteq> []) xs)) i =
      (case map_of xs i of None \<Rightarrow> None | Some r \<Rightarrow> if mb_removed r = 0 \<and> i \<noteq> [] then Some (mb_added r) else None)"
    if "distinct (map fst xs)" for xs :: "(string \<times> memberRecord) list"
    using that
  proof (induction xs)
    case (Cons x xs)
    obtain j r where x: "x = (j, r)" by fastforce
    then have "map_of xs j = None" using Cons.prems by (auto simp: map_of_eq_None_iff)
    then show ?case using Cons x by (auto split: option.splits)
  qed simp
  from this [OF D] show ?thesis
    by (auto simp: collapseMembers_def best_rows_of live_def split: option.splits)
qed

lemma collapse_length: "length (collapseMembers rows) = card (live rows)"
proof -
  have "distinct (map fst (filter P (best_rows rows [])))" for P
    using best_rows_distinct [of "[]" rows] by (simp add: distinct_map_filter)
  moreover have "map fst (map (\<lambda>(i, r). (i, mb_added r)) xs) = map fst xs" for xs :: "(string \<times> memberRecord) list"
    by (induction xs) auto
  ultimately have D: "distinct (map fst (collapseMembers rows))" by (simp only: collapseMembers_def)
  have "fst ` set (collapseMembers rows) = live rows"
    using collapse_live [of rows] by (auto simp: dom_map_of_conv_image_fst [symmetric] live_def split: option.splits if_splits)
  then show ?thesis using distinct_card [OF D] by simp
qed

lemma finite_live: "finite (live rows)"
proof -
  have "live rows \<subseteq> mb_id ` set rows"
    by (auto simp: live_def dest!: best_of_cases split: option.splits)
  then show ?thesis by (rule finite_subset) simp
qed

section \<open>New rows win\<close>

lemma best_of_other: "i \<notin> mb_id ` set rs \<Longrightarrow> best_of i rs b = b"
  by (induction rs arbitrary: b) auto

lemma best_of_new:
  assumes "distinct (map mb_id new)" "r \<in> set new" "\<forall>x \<in> set rows. mb_version x < mb_version r"
  shows "best_of (mb_id r) (rows @ new) None = Some r"
proof -
  obtain xs ys where new: "new = xs @ r # ys" using assms(2) by (meson split_list)
  then have "mb_id r \<notin> mb_id ` set xs" "mb_id r \<notin> mb_id ` set ys" using assms(1) by auto
  moreover have "supersedes r c" if "best_of (mb_id r) rows None = Some c" for c
    using best_of_cases [OF that] assms(3) by (auto simp: supersedes_def)
  ultimately show ?thesis
    by (auto simp: new best_of_append best_of_other split: option.splits)
qed

lemma live_append:
  assumes "distinct (map mb_id new)" "\<forall>x \<in> set rows. \<forall>r \<in> set new. mb_version x < mb_version r"
    "[] \<notin> mb_id ` set new"
  shows "(\<forall>r \<in> set new. mb_removed r = 0) \<Longrightarrow> live (rows @ new) = live rows \<union> mb_id ` set new"
    and "(\<forall>r \<in> set new. mb_removed r = 1) \<Longrightarrow> live (rows @ new) = live rows - mb_id ` set new"
proof -
  have new: "best_of (mb_id r) (rows @ new) None = Some r" if "r \<in> set new" for r
    using best_of_new [OF assms(1) that] assms(2) that by blast
  have old: "best_of i (rows @ new) None = best_of i rows None" if "i \<notin> mb_id ` set new" for i
    using that by (simp add: best_of_append best_of_other)
  have mem: "i \<in> live (rows @ new) \<longleftrightarrow> (if i \<in> mb_id ` set new then
      (\<exists>r \<in> set new. mb_id r = i \<and> mb_removed r = 0) else i \<in> live rows)" for i
  proof (cases "i \<in> mb_id ` set new")
    case True
    then obtain r where r: "r \<in> set new" "i = mb_id r" by blast
    have uniq: "r' = r" if "r' \<in> set new" "mb_id r' = i" for r'
      using new [OF that(1)] new [OF r(1)] unfolding that(2) r(2) by (metis option.inject)
    have "i \<noteq> []" using True assms(3) by blast
    then have "i \<in> live (rows @ new) \<longleftrightarrow> mb_removed r = 0" using new [OF r(1)] r(2) by (simp add: live_def)
    moreover have "(\<exists>r \<in> set new. mb_id r = i \<and> mb_removed r = 0) \<longleftrightarrow> mb_removed r = 0" using r uniq by blast
    ultimately show ?thesis using True by simp
  next
    case False
    then show ?thesis using old [OF False] by (simp add: live_def)
  qed
  show "live (rows @ new) = live rows \<union> mb_id ` set new" if "\<forall>r \<in> set new. mb_removed r = 0"
    unfolding set_eq_iff Un_iff Diff_iff mem using that by force
  show "live (rows @ new) = live rows - mb_id ` set new" if "\<forall>r \<in> set new. mb_removed r = 1"
    unfolding set_eq_iff Un_iff Diff_iff mem using that by force
qed

lemma insertMembers_prefix:
  "insertMembers outs new rows = (ok, rows') \<Longrightarrow> \<exists>k. rows' = rows @ take k new \<and> (ok \<longrightarrow> rows' = rows @ new)"
proof (induction outs new rows rule: insertMembers.induct)
  case (1 outs new rows)
  have step: "\<exists>k. rows' = rows @ take k new \<and> (ok \<longrightarrow> rows' = rows @ new)"
    if "\<exists>k. rows' = (rows @ take staticInsertChunk new) @ take k (drop staticInsertChunk new)
      \<and> (ok \<longrightarrow> rows' = (rows @ take staticInsertChunk new) @ drop staticInsertChunk new)"
    using that by (metis append.assoc append_take_drop_id take_add)
  show ?case
  proof (cases "new = []")
    case True
    then show ?thesis using "1.prems" by (subst (asm) insertMembers.simps) auto
  next
    case False
    show ?thesis
    proof (cases outs)
      case Nil
      then show ?thesis using 1 False step by (subst (asm) (3) insertMembers.simps) auto
    next
      case (Cons w os)
      then show ?thesis using 1 False step
        by (subst (asm) (3) insertMembers.simps) (cases w; fastforce)
    qed
  qed
qed

section \<open>Reads and versions\<close>

lemma normalize_ids_spec:
  "normalize_ids ids out = Inr norm \<Longrightarrow> distinct out \<Longrightarrow> [] \<notin> set out \<Longrightarrow> length out \<le> MaxStaticMembers \<Longrightarrow>
     distinct norm \<and> [] \<notin> set norm \<and> length norm \<le> MaxStaticMembers
     \<and> set norm = set out \<union> (TrimSpace ` set ids - {[]})"
proof (induction ids out rule: normalize_ids.induct)
  case (2 raw ids out)
  let ?i = "TrimSpace raw"
  have n: "normalize_ids (raw # ids) out = Inr norm" by (rule "2.prems")
  consider "?i = []" "normalize_ids ids out = Inr norm"
    | "?i \<noteq> []" "?i \<in> set out" "normalize_ids ids out = Inr norm"
    | "?i \<noteq> []" "?i \<notin> set out" "length out < MaxStaticMembers" "normalize_ids ids (out @ [?i]) = Inr norm"
    using n by (auto simp: Let_def not_le split: if_splits)
  then show ?case
  proof cases
    case 1
    then show ?thesis using 2 by (auto simp: Let_def)
  next
    case c: 2
    have "\<not> length ?i > MaxEntityIDLen" "\<not> list_ex control_char ?i" using n c by (auto simp: Let_def split: if_splits)
    then show ?thesis using 2 c by (auto simp: Let_def)
  next
    case 3
    have "\<not> length ?i > MaxEntityIDLen" "\<not> list_ex control_char ?i" using n 3 by (auto simp: Let_def split: if_splits)
    then show ?thesis using 2 3 by (auto simp: Let_def)
  qed
qed simp

lemma NormalizeIDs_spec:
  assumes "NormalizeIDs ids = Inr norm"
  shows "distinct norm" "[] \<notin> set norm" "length norm \<le> MaxStaticMembers" "set norm = TrimSpace ` set ids - {[]}"
  using normalize_ids_spec [of ids "[]" norm] assms by (simp_all add: NormalizeIDs_def)

lemma member_read_all:
  assumes "member_read b out rows = Inr got"
  shows "got = rows"
proof -
  obtain ended w where a: "accountRows b ended (length got) fresh_work = (None, w)" "got = take (staticLimit b) rows"
    "length got \<le> maxStaticRows"
    using assms by (auto simp: member_read_def Let_def split: sum.splits prod.splits option.splits if_splits)
  then have "bd_rows b > 0 \<Longrightarrow> int (length got) \<le> bd_rows b"
    by (auto simp: accountRows_def Let_def fresh_work_def split: if_splits)
  then have "length got < staticLimit b" using a(3) by (auto simp: staticLimit_def)
  then show ?thesis using a(2) by (simp add: min_def split: if_splits)
qed

lemma highest: "h \<le> foldl (\<lambda>h r. if mb_version r > h then mb_version r else h) h rows
    \<and> (\<forall>r \<in> set rows. mb_version r \<le> foldl (\<lambda>h r. if mb_version r > h then mb_version r else h) h rows)"
proof (induction rows arbitrary: h)
  case (Cons r rows)
  show ?case using Cons.IH [of "if mb_version r > h then mb_version r else h"]
    by (cases "mb_version r > h") (auto dest: less_imp_le intro: order_trans [of _ h] order_trans [of h "mb_version r"])
qed simp

lemma nextMemberVersion_above:
  assumes "nextMemberVersion b out rows summary now = Inr v"
  shows "\<forall>r \<in> set rows. mb_version r < v" "summary < v"
proof -
  obtain got where "member_read b out rows = Inr got"
    using assms by (auto simp: nextMemberVersion_def split: sum.splits)
  moreover from member_read_all [OF this] have "got = rows" .
  ultimately have "foldl (\<lambda>h r. if mb_version r > h then mb_version r else h) summary rows < v"
    using assms by (auto simp: nextMemberVersion_def memberVersionAbove_def split: if_splits)
  then show "\<forall>r \<in> set rows. mb_version r < v" "summary < v" using highest [of summary rows] by fastforce+
qed

lemma edit_start_spec:
  assumes "edit_start env ids s = Inr (c, norm, lv, v)"
  shows "Get (ss_cohorts s) = Some c" "NormalizeIDs ids = Inr norm" "lv = collapseMembers (ss_members s)"
    "\<forall>r \<in> set (ss_members s). mb_version r < v" "co_updated c < v"
proof -
  show "Get (ss_cohorts s) = Some c" "NormalizeIDs ids = Inr norm"
    using assms by (auto simp: edit_start_def getStatic_def split: sum.splits option.splits stored_rule.splits)
  show "lv = collapseMembers (ss_members s)"
    using assms member_read_all by (auto simp: edit_start_def readStatic_def split: sum.splits)
  show "\<forall>r \<in> set (ss_members s). mb_version r < v" "co_updated c < v"
    using assms by (auto simp: edit_start_def dest: nextMemberVersion_above split: sum.splits)
qed

section \<open>Summaries\<close>

lemma pick_winner_append:
  "pick_winner w (rs @ [c]) = (if co_updated c > co_updated (pick_winner w rs) then c else pick_winner w rs)"
  by (induction rs arbitrary: w) auto

lemma put_wins:
  assumes "Get (ss_cohorts s) = Some c" "co_updated c < v" "putCohortRow out (c\<lparr>co_count := n, co_updated := v\<rparr>) s = (ok, s')"
  shows "ss_members s' = ss_members s" "ok \<Longrightarrow> Get (ss_cohorts s') = Some (c\<lparr>co_count := n, co_updated := v\<rparr>)"
proof -
  show "ss_members s' = ss_members s" using assms(3) by (auto simp: putCohortRow_def split: if_splits)
  obtain r rs where g: "ss_cohorts s = r # rs" "pick_winner r rs = c" "co_name c \<noteq> []"
    using assms(1) by (auto simp: Get_def Let_def split: list.splits if_splits)
  show "Get (ss_cohorts s') = Some (c\<lparr>co_count := n, co_updated := v\<rparr>)" if "ok"
    using that assms(2,3) g by (auto simp: putCohortRow_def Get_def Let_def pick_winner_append split: if_splits)
qed

text \<open>The common end of both edits, for new rows \<open>new\<close> that all add or all remove.\<close>

lemma edit_end:
  assumes start: "edit_start env ids s = Inr (c, norm, lv, v)"
    and run: "(if new = [] then repair_count env c (int (length lv)) v s
       else write_members env c new count v s) = (r, s')"
    and new: "distinct (map mb_id new)" "\<forall>x \<in> set new. mb_version x = v" "[] \<notin> mb_id ` set new"
    and dir: "(\<forall>x \<in> set new. mb_removed x = 0) \<or> (\<forall>x \<in> set new. mb_removed x = 1)"
  shows "\<exists>k. live (ss_members s') = (if (\<forall>x \<in> set new. mb_removed x = 0)
       then live (ss_members s) \<union> mb_id ` set (take k new) else live (ss_members s) - mb_id ` set (take k new))
     \<and> (\<forall>c' n. r = Inr (c', n) \<longrightarrow> take k new = new \<and> n = length new \<and> Get (ss_cohorts s') = Some c'
          \<and> co_count c' = (if new = [] then int (card (live (ss_members s))) else count))"
proof (cases "new = []")
  case True
  note S = edit_start_spec [OF start]
  have len: "length lv = card (live (ss_members s))" using S(3) collapse_length by simp
  show ?thesis
  proof (cases "co_count c = int (length lv)")
    case c: True
    then have "s' = s" "r = Inr (c, 0)" using run True by (simp_all add: repair_count_def)
    then show ?thesis using True S(1) c len by auto
  next
    case False
    obtain ok t where p: "putCohortRow (ee_put env) (c\<lparr>co_count := int (length lv), co_updated := v\<rparr>) s = (ok, t)" by fastforce
    then have "s' = t" "r = (if ok then Inr (c\<lparr>co_count := int (length lv), co_updated := v\<rparr>, 0) else Inl WriteFailed)"
      using run True False by (auto simp: repair_count_def Let_def)
    then show ?thesis using True put_wins [OF S(1,5) p] len by auto
  qed
next
  case False
  note S = edit_start_spec [OF start]
  obtain ok rows where i: "insertMembers (ee_inserts env) new (ss_members s) = (ok, rows)" by fastforce
  from insertMembers_prefix [OF i] obtain k where k: "rows = ss_members s @ take k new" "ok \<longrightarrow> rows = ss_members s @ new" by blast
  define j where "j = (if ok then length new else k)"
  have rows: "rows = ss_members s @ take j new" using k by (auto simp: j_def)
  have sub: "set (take j new) \<subseteq> set new" by (rule set_take_subset)
  have d: "distinct (map mb_id (take j new))" using new(1) by (metis distinct_take take_map)
  have v: "\<forall>x \<in> set (ss_members s). \<forall>y \<in> set (take j new). mb_version x < mb_version y"
    using S(4) new(2) sub by auto
  have e: "[] \<notin> mb_id ` set (take j new)" using new(3) sub by auto
  have L: "live rows = (if (\<forall>x \<in> set new. mb_removed x = 0)
       then live (ss_members s) \<union> mb_id ` set (take j new) else live (ss_members s) - mb_id ` set (take j new))"
  proof (cases "\<forall>x \<in> set new. mb_removed x = 0")
    case True
    then show ?thesis unfolding rows using live_append(1) [OF d v e] sub by (simp add: subset_iff)
  next
    case False
    then have "\<forall>x \<in> set (take j new). mb_removed x = 1" using dir sub by blast
    then show ?thesis unfolding rows using live_append(2) [OF d v e] False by (simp only: if_False)
  qed
  show ?thesis
  proof (cases ok)
    case o: False
    then have "s' = s\<lparr>ss_members := rows\<rparr>" "r = Inl WriteFailed" using run False i by (simp_all add: write_members_def)
    then show ?thesis using L by auto
  next
    case True
    obtain ok' t where p: "putCohortRow (ee_put env) (c\<lparr>co_count := count, co_updated := v\<rparr>) (s\<lparr>ss_members := rows\<rparr>) = (ok', t)"
      by fastforce
    then have st: "s' = t" "r = (if ok' then Inr (c\<lparr>co_count := count, co_updated := v\<rparr>, length new) else Inl WriteFailed)"
      using run False True i by (auto simp: write_members_def Let_def)
    have "Get (ss_cohorts (s\<lparr>ss_members := rows\<rparr>)) = Some c" using S(1) by simp
    from put_wins [OF this S(5) p] show ?thesis using L st True False by (intro exI [of _ j]) (auto simp: j_def)
  qed
qed

section \<open>Edits refine set operations\<close>

definition wanted :: "string list \<Rightarrow> string set" where
  "wanted ids = TrimSpace ` set ids - {[]}"

lemma card_new: "finite A \<Longrightarrow> distinct xs \<Longrightarrow> card (A \<union> set (filter (\<lambda>i. i \<notin> A) xs)) = card A + length (filter (\<lambda>i. i \<notin> A) xs)"
  by (subst card_Un_disjoint) (auto simp: distinct_card [symmetric])

text \<open>The rows an addition writes: one for each wanted id that is no member yet.\<close>

lemma add_rows:
  assumes start: "edit_start env ids s = Inr (c, norm, lv, v)"
  obtains new where
    "AddMembers env ids s = (if length lv + length new > MaxStaticMembers
      then (Inl (TooManyIDs (length lv + length new)), s)
      else if new = [] then repair_count env c (int (length lv)) v s
      else write_members env c new (int (length lv + length new)) v s)"
    "mb_id ` set new = wanted ids - live (ss_members s)" "length new = card (wanted ids - live (ss_members s))"
    "length lv = card (live (ss_members s))"
    "card (live (ss_members s) \<union> mb_id ` set new) = length lv + length new"
    "distinct (map mb_id new)" "\<forall>x \<in> set new. mb_version x = v" "[] \<notin> mb_id ` set new" "\<forall>x \<in> set new. mb_removed x = 0"
proof -
  note S = edit_start_spec [OF start] and N = NormalizeIDs_spec [OF edit_start_spec(2) [OF start]]
  let ?A = "live (ss_members s)"
  let ?f = "filter (\<lambda>i. i \<notin> ?A) norm"
  define new where "new = map (\<lambda>i. \<lparr>mb_id = i, mb_added = v, mb_removed = 0, mb_version = v\<rparr>) ?f"
  have f: "filter (\<lambda>i. map_of lv i = None) norm = ?f"
    unfolding S(3) by (rule filter_cong [OF refl]) (auto simp: collapse_live live_def split: option.splits)
  have len: "length lv = card ?A" "length new = length ?f" using S(3) collapse_length by (simp_all add: new_def)
  have ids: "mb_id ` set new = wanted ids - ?A" using N(4) by (auto simp: new_def image_image wanted_def)
  have nw: "distinct (map mb_id new)" "\<forall>x \<in> set new. mb_version x = v" "[] \<notin> mb_id ` set new"
    "\<forall>x \<in> set new. mb_removed x = 0"
    using N(1,2) by (auto simp: new_def o_def)
  have "AddMembers env ids s = (if length lv + length new > MaxStaticMembers
      then (Inl (TooManyIDs (length lv + length new)), s)
      else if new = [] then repair_count env c (int (length lv)) v s
      else write_members env c new (int (length lv + length new)) v s)"
    by (simp add: AddMembers_def start f Let_def new_def cong: if_cong)
  moreover have "card (?A \<union> mb_id ` set new) = length lv + length new"
    using card_new [OF finite_live N(1), of "ss_members s"] len by (simp add: new_def image_image)
  moreover have "length new = card (wanted ids - ?A)" using ids distinct_card [OF nw(1)] by simp
  ultimately show thesis using that ids nw len(1) by blast
qed

text \<open>C21: Adding members: whatever fails, the live members afterwards are the old ones together with
  some of the ids asked for; on success with all of them, the stored count is exact, stays within the
  limit, and the edited summary is the one the next read finds.\<close>

theorem add_members_refines:
  assumes "AddMembers env ids s = (r, s')"
  shows "\<exists>T \<subseteq> wanted ids. live (ss_members s') = live (ss_members s) \<union> T
    \<and> (\<forall>c n. r = Inr (c, n) \<longrightarrow> live (ss_members s') = live (ss_members s) \<union> wanted ids
         \<and> n = card (wanted ids - live (ss_members s)) \<and> co_count c = int (card (live (ss_members s')))
         \<and> card (live (ss_members s')) \<le> MaxStaticMembers \<and> Get (ss_cohorts s') = Some c)"
proof (cases "edit_start env ids s")
  case (Inl e)
  then show ?thesis using assms by (auto simp: AddMembers_def intro!: exI [of _ "{}"])
next
  case (Inr x)
  obtain c norm lv v where x: "x = (c, norm, lv, v)" by (cases x) auto
  note start = Inr [unfolded x]
  let ?A = "live (ss_members s)"
  from add_rows [OF start] obtain new where
    E: "AddMembers env ids s = (if length lv + length new > MaxStaticMembers
      then (Inl (TooManyIDs (length lv + length new)), s)
      else if new = [] then repair_count env c (int (length lv)) v s
      else write_members env c new (int (length lv + length new)) v s)"
    and ids: "mb_id ` set new = wanted ids - ?A" "length new = card (wanted ids - ?A)" "length lv = card ?A"
    and C: "card (?A \<union> mb_id ` set new) = length lv + length new"
    and nw: "distinct (map mb_id new)" "\<forall>x \<in> set new. mb_version x = v" "[] \<notin> mb_id ` set new"
      "\<forall>x \<in> set new. mb_removed x = 0" .
  show ?thesis
  proof (cases "length lv + length new > MaxStaticMembers")
    case True
    then have "s' = s" "\<exists>e. r = Inl e" using assms unfolding E by auto
    then show ?thesis by (auto intro!: exI [of _ "{}"])
  next
    case False
    have run: "(if new = [] then repair_count env c (int (length lv)) v s
       else write_members env c new (int (length lv + length new)) v s) = (r, s')"
      using assms False unfolding E by simp
    from edit_end [OF start run nw(1-3) disjI1 [OF nw(4)]] nw(4) obtain k where
      k: "live (ss_members s') = ?A \<union> mb_id ` set (take k new)"
      and ok: "\<forall>c' n. r = Inr (c', n) \<longrightarrow> take k new = new \<and> n = length new \<and> Get (ss_cohorts s') = Some c'
          \<and> co_count c' = (if new = [] then int (card ?A) else int (length lv + length new))" by auto
    have sub: "mb_id ` set (take k new) \<subseteq> wanted ids" using ids(1) set_take_subset [of k new] by auto
    have "live (ss_members s') = ?A \<union> wanted ids \<and> n' = card (wanted ids - ?A)
        \<and> co_count c' = int (card (live (ss_members s'))) \<and> card (live (ss_members s')) \<le> MaxStaticMembers
        \<and> Get (ss_cohorts s') = Some c'" if r: "r = Inr (c', n')" for c' n'
    proof -
      from ok r have o: "take k new = new" "n' = length new" "Get (ss_cohorts s') = Some c'"
        "co_count c' = (if new = [] then int (card ?A) else int (length lv + length new))" by auto
      have "live (ss_members s') = ?A \<union> wanted ids" using k o(1) ids(1) by auto
      moreover have "card (live (ss_members s')) = length lv + length new" using k o(1) C by simp
      ultimately show ?thesis using o ids(2,3) False by auto
    qed
    then show ?thesis using k sub by blast
  qed
qed

text \<open>Removing members: whatever fails, the live members afterwards are the old ones without some
  of the ids asked for; on success without any of them, and the stored count is exact.\<close>

theorem remove_members_refines:
  assumes "RemoveMembers env ids s = (r, s')"
  shows "\<exists>T \<subseteq> wanted ids. live (ss_members s') = live (ss_members s) - T
    \<and> (\<forall>c n. r = Inr (c, n) \<longrightarrow> live (ss_members s') = live (ss_members s) - wanted ids
         \<and> n = card (wanted ids \<inter> live (ss_members s)) \<and> co_count c = int (card (live (ss_members s')))
         \<and> Get (ss_cohorts s') = Some c)"
proof (cases "edit_start env ids s")
  case (Inl e)
  then show ?thesis using assms by (auto simp: RemoveMembers_def intro!: exI [of _ "{}"])
next
  case (Inr x)
  obtain c norm lv v where x: "x = (c, norm, lv, v)" by (cases x) auto
  note start = Inr [unfolded x]
  note S = edit_start_spec [OF start] and N = NormalizeIDs_spec [OF edit_start_spec(2) [OF start]]
  have W: "set norm = wanted ids" using N(4) by (simp add: wanted_def)
  let ?A = "live (ss_members s)"
  define new where "new = List.map_filter (\<lambda>i. map_option (\<lambda>added.
      \<lparr>mb_id = i, mb_added = added, mb_removed = 1, mb_version = v\<rparr>) (map_of lv i)) norm"
  have look: "map_of lv i = (if i \<in> ?A then map_option mb_added (best_of i (ss_members s) None) else None)" for i
    unfolding S(3) by (rule collapse_live)
  have some: "map_of lv i \<noteq> None \<longleftrightarrow> i \<in> ?A" for i
    by (auto simp: look live_def split: option.splits)
  have mid: "map mb_id new = filter (\<lambda>i. i \<in> ?A) norm"
    unfolding new_def by (induction norm) (auto simp: List.map_filter_simps some [symmetric] split: option.splits)
  have nw: "distinct (map mb_id new)" "\<forall>x \<in> set new. mb_version x = v" "[] \<notin> mb_id ` set new"
    "\<forall>x \<in> set new. mb_removed x = 1"
  proof -
    show "distinct (map mb_id new)" using N(1) by (simp add: mid)
    have "mb_id ` set new \<subseteq> set norm" by (metis mid filter_is_subset set_map)
    then show "[] \<notin> mb_id ` set new" using N(2) by blast
    show "\<forall>x \<in> set new. mb_version x = v" "\<forall>x \<in> set new. mb_removed x = 1"
      by (auto simp: new_def List.map_filter_def)
  qed
  have ids: "mb_id ` set new = wanted ids \<inter> ?A"
    using arg_cong [OF mid, of set] W by auto
  have len: "length lv = card ?A" using S(3) collapse_length by simp
  have run: "(if new = [] then repair_count env c (int (length lv)) v s
     else write_members env c new (int (length lv) - int (length new)) v s) = (r, s')"
    using assms unfolding RemoveMembers_def start new_def sum.case prod.case Let_def .
  have all0: "(\<forall>x \<in> set new. mb_removed x = 0) \<longleftrightarrow> new = []" using nw(4) by (cases new) auto
  from edit_end [OF start run nw(1-3) disjI2 [OF nw(4)]] obtain k where
    k: "live (ss_members s') = (if new = [] then ?A \<union> mb_id ` set (take k new) else ?A - mb_id ` set (take k new))"
    and ok: "\<forall>c' n. r = Inr (c', n) \<longrightarrow> take k new = new \<and> n = length new \<and> Get (ss_cohorts s') = Some c'
        \<and> co_count c' = (if new = [] then int (card ?A) else int (length lv) - int (length new))"
    unfolding all0 by blast
  have k': "live (ss_members s') = ?A - mb_id ` set (take k new)" using k by (auto split: if_splits)
  have n: "length new = card (wanted ids \<inter> ?A)" using ids distinct_card [OF nw(1)] by simp
  have C: "int (card (?A - wanted ids)) = int (length lv) - int (length new)"
    using card_Diff_subset_Int [of ?A "wanted ids"] card_mono [OF finite_live, of "?A \<inter> wanted ids" "ss_members s"]
    by (simp add: n len Int_commute finite_live)
  have "live (ss_members s') = ?A - wanted ids \<and> n' = card (wanted ids \<inter> ?A)
      \<and> co_count c' = int (card (live (ss_members s'))) \<and> Get (ss_cohorts s') = Some c'"
    if r: "r = Inr (c', n')" for c' n'
  proof -
    from ok r have o: "take k new = new" "n' = length new" "Get (ss_cohorts s') = Some c'"
      "co_count c' = (if new = [] then int (card ?A) else int (length lv) - int (length new))" by auto
    have e: "live (ss_members s') = ?A - wanted ids" using k' o(1) ids by auto
    have "co_count c' = int (card (?A - wanted ids))" using C o(4) len by (auto split: if_splits)
    then show ?thesis using e o n by simp
  qed
  moreover have "mb_id ` set (take k new) \<subseteq> wanted ids" using ids set_take_subset [of k new] by auto
  ultimately show ?thesis using k' by blast
qed

definition sample_env :: edit_env where
  "sample_env = \<lparr>ee_budgets = DefaultBudgets, ee_read1 = Inr (\<lambda>_. False), ee_read2 = Inr (\<lambda>_. False), ee_now = 7,
     ee_inserts = [], ee_put = Written\<rparr>"

definition sample_store :: static_store where
  "sample_store = \<lparr>ss_members = [\<lparr>mb_id = ''a'', mb_added = 1, mb_removed = 0, mb_version = 9\<rparr>],
     ss_cohorts = [\<lparr>co_name = ''n'', co_rule = StaticRule, co_count = 1, co_created = 1, co_updated = 1\<rparr>]\<rparr>"

lemma sample_start: "edit_start sample_env ids sample_store = (case NormalizeIDs ids of Inl e \<Rightarrow> Inl e
    | Inr norm \<Rightarrow> Inr (\<lparr>co_name = ''n'', co_rule = StaticRule, co_count = 1, co_created = 1, co_updated = 1\<rparr>,
        norm, [(''a'', 1)], 10))"
  by (simp add: edit_start_def sample_env_def sample_store_def getStatic_def Get_def readStatic_def member_read_def
    staticLimit_def accountRows_def fresh_work_def DefaultBudgets_def maxStaticRows_def collapseMembers_def
    nextMemberVersion_def memberVersionAbove_def split: sum.splits)

lemma sample_ids: "NormalizeIDs [''b''] = Inr [''b'']" "NormalizeIDs [''a''] = Inr [''a'']"
  by (simp_all add: NormalizeIDs_def TrimSpace_id is_space_iff MaxEntityIDLen_def control_char_def MaxStaticMembers_def)

lemma sample_env_simps [simp]: "ee_inserts sample_env = []" "ee_put sample_env = Written"
  by (simp_all add: sample_env_def)

lemma insert_one: "insertMembers [] [x] rows = (True, rows @ [x])"
  by (simp add: insertMembers.simps staticInsertChunk_def)

lemma sample_live: "live (ss_members sample_store) = {''a''}" "wanted [''b''] = {''b''}" "wanted [''a''] = {''a''}"
  by (auto simp: live_def sample_store_def wanted_def TrimSpace_id is_space_iff)

lemma sample_add: "\<exists>c n. fst (AddMembers sample_env [''b''] sample_store) = Inr (c, n)"
  by (simp add: AddMembers_def sample_start sample_ids MaxStaticMembers_def write_members_def
      insert_one putCohortRow_def Let_def)

lemma sample_remove: "\<exists>c n. fst (RemoveMembers sample_env [''a''] sample_store) = Inr (c, n)"
  by (simp add: RemoveMembers_def sample_start sample_ids List.map_filter_simps write_members_def
      insert_one putCohortRow_def Let_def)

theorem add_members_refines_witness: "live (ss_members (snd (AddMembers sample_env [''b''] sample_store))) = {''a'', ''b''}"
proof -
  obtain r s' where a: "AddMembers sample_env [''b''] sample_store = (r, s')" by fastforce
  then obtain c n where "r = Inr (c, n)" using sample_add by auto
  then have "live (ss_members s') = live (ss_members sample_store) \<union> wanted [''b'']"
    using add_members_refines [OF a] by blast
  then show ?thesis unfolding a sample_live by auto
qed

theorem remove_members_refines_witness: "live (ss_members (snd (RemoveMembers sample_env [''a''] sample_store))) = {}"
proof -
  obtain r s' where a: "RemoveMembers sample_env [''a''] sample_store = (r, s')" by fastforce
  then obtain c n where "r = Inr (c, n)" using sample_remove by auto
  then have "live (ss_members s') = live (ss_members sample_store) - wanted [''a'']"
    using remove_members_refines [OF a] by blast
  then show ?thesis unfolding a sample_live by auto
qed

end
