(* ===== verification/Outbox.thy ===== *)
theory Outbox
  imports QueryGuard "HOL-Library.Product_Lexorder" "HOL-Library.List_Lexorder" "HOL-Library.Char_ord"
begin

text \<open>
  The derived-work outbox (\<^verbatim>\<open>src/internal/outbox/outbox.go\<close>): a table of versioned intent rows read
  through an argMax collapse, the drain loop with retries, backoff and dead letters, and the counters.
  What the world does is a function of a step counter: the clock, whether a scan or a write succeeds,
  whether the context has ended, and the outcome of each handler call (a panic is an error).
\<close>

section \<open>The table\<close>

record intentRow =
  ir_id :: string
  ir_kind :: string
  ir_site :: string
  ir_payload :: string
  ir_created :: int
  ir_attempts :: int
  ir_next :: int
  ir_processed :: int
  ir_error :: string
  ir_version :: int

fun argmax_row :: "string \<Rightarrow> intentRow list \<Rightarrow> intentRow option" where
  "argmax_row i [] = None"
| "argmax_row i (r # rs) =
     (case argmax_row i rs of
        None \<Rightarrow> if ir_id r = i then Some r else None
      | Some m \<Rightarrow> if ir_id r = i \<and> ir_version r > ir_version m then Some r else Some m)"

definition collapse :: "intentRow list \<Rightarrow> intentRow list" where
  "collapse tbl = List.map_filter (\<lambda>i. argmax_row i tbl) (remdups (map ir_id tbl))"

record outboxStore =
  ob_handlers :: "string list"
  ob_maxAttempts :: int
  ob_backoffBase :: int
  ob_backoffCap :: int
  ob_batchSize :: nat

definition outboxNew :: outboxStore where
  "outboxNew = \<lparr>ob_handlers = [], ob_maxAttempts = 5, ob_backoffBase = 1000000000,
     ob_backoffCap = 5 * 60 * 1000000000, ob_batchSize = 500\<rparr>"

definition Register :: "outboxStore \<Rightarrow> string \<Rightarrow> outboxStore" where
  "Register s kind = s\<lparr>ob_handlers := List.insert kind (ob_handlers s)\<rparr>"

text \<open>The doubling loop, at 64 bits.\<close>

fun double_up :: "int \<Rightarrow> nat \<Rightarrow> int \<Rightarrow> int" where
  "double_up cap 0 d = d"
| "double_up cap (Suc n) d = (if d < cap then double_up cap n (wrap64 (d * 2)) else d)"

definition backoff :: "outboxStore \<Rightarrow> int \<Rightarrow> int" where
  "backoff s attempts =
     (if ob_backoffBase s \<le> 0 \<or> attempts < 1 then 0
      else let d = double_up (ob_backoffCap s) (nat (attempts - 1)) (ob_backoffBase s)
           in if d > ob_backoffCap s then ob_backoffCap s else d)"

text \<open>\<^verbatim>\<open>Milliseconds\<close> cuts towards zero.\<close>

definition milliseconds :: "int \<Rightarrow> int" where
  "milliseconds d = (if d < 0 then - (- d div 1000000) else d div 1000000)"

definition nextVersion :: "int \<Rightarrow> int \<Rightarrow> int" where
  "nextVersion prior now = (if now > prior + 1 then now else prior + 1)"

section \<open>The world\<close>

record world =
  wd_clock :: "nat \<Rightarrow> int"
  wd_scan :: "nat \<Rightarrow> bool"
  wd_write :: "nat \<Rightarrow> bool"
  wd_ended :: "nat \<Rightarrow> bool"
  wd_handler :: "nat \<Rightarrow> string option"   \<comment> \<open>the error a handler call ends with\<close>

record outboxState =
  ox_table :: "intentRow list"
  ox_step :: nat
  ox_failed :: "string \<Rightarrow> nat"

definition bumpFailed :: "string \<Rightarrow> outboxState \<Rightarrow> outboxState" where
  "bumpFailed kind st = st\<lparr>ox_failed := (ox_failed st)(kind := ox_failed st kind + 1)\<rparr>"

definition put_row :: "world \<Rightarrow> intentRow \<Rightarrow> outboxState \<Rightarrow> bool \<times> outboxState" where
  "put_row w r st =
     (let ok = wd_write w (ox_step st); st' = st\<lparr>ox_step := ox_step st + 1\<rparr> in
      (ok, if ok then st'\<lparr>ox_table := ox_table st' @ [r]\<rparr> else st'))"

definition Enqueue :: "world \<Rightarrow> string \<Rightarrow> string \<Rightarrow> string \<Rightarrow> string option \<Rightarrow> outboxState \<Rightarrow> string option \<times> outboxState" where
  "Enqueue w newID siteID kind raw st =
     (case raw of
        None \<Rightarrow> (None, st)
      | Some payload \<Rightarrow>
          (let now = wd_clock w (ox_step st);
               (ok, st') = put_row w \<lparr>ir_id = newID, ir_kind = kind, ir_site = siteID, ir_payload = payload,
                  ir_created = now, ir_attempts = 0, ir_next = 0, ir_processed = 0, ir_error = [], ir_version = now\<rparr> st
           in (if ok then Some newID else None, st')))"

definition markProcessed :: "world \<Rightarrow> intentRow \<Rightarrow> outboxState \<Rightarrow> bool \<times> outboxState" where
  "markProcessed w row st =
     (let now = wd_clock w (ox_step st) in
      put_row w (row\<lparr>ir_processed := now, ir_error := [], ir_version := nextVersion (ir_version row) now\<rparr>) st)"

definition maxLastErrorChars :: nat where "maxLastErrorChars = 1024"

definition markAttempt :: "world \<Rightarrow> intentRow \<Rightarrow> int \<Rightarrow> int \<Rightarrow> string \<Rightarrow> outboxState \<Rightarrow> bool \<times> outboxState" where
  "markAttempt w row attempts nextAt cause st =
     (let now = wd_clock w (ox_step st) in
      put_row w (row\<lparr>ir_attempts := attempts, ir_next := nextAt, ir_processed := 0,
        ir_error := take maxLastErrorChars cause, ir_version := nextVersion (ir_version row) now\<rparr>) st)"

text \<open>\<^verbatim>\<open>invoke\<close>: one handler call.\<close>

definition invoke :: "world \<Rightarrow> outboxState \<Rightarrow> string option \<times> outboxState" where
  "invoke w st = (wd_handler w (ox_step st), st\<lparr>ox_step := ox_step st + 1\<rparr>)"

definition processOne :: "world \<Rightarrow> outboxStore \<Rightarrow> intentRow \<Rightarrow> outboxState \<Rightarrow> bool \<times> outboxState" where
  "processOne w s row st =
     (let (err, st1) = (if ir_kind row \<in> set (ob_handlers s) then invoke w st
                        else (Some (''no handler registered for kind '' @ ir_kind row), st)) in
      case err of
        None \<Rightarrow> markProcessed w row st1
      | Some cause \<Rightarrow>
          (let attempts = ir_attempts row + 1;
               st2 = bumpFailed (ir_kind row) st1;
               nextAt = (if attempts \<ge> ob_maxAttempts s then - 1
                         else wd_clock w (ox_step st2) + milliseconds (backoff s attempts));
               st3 = st2\<lparr>ox_step := ox_step st2 + 1\<rparr>
           in markAttempt w row attempts nextAt cause st3))"

section \<open>Draining\<close>

definition is_due :: "outboxStore \<Rightarrow> int \<Rightarrow> intentRow \<Rightarrow> bool" where
  "is_due s now r \<longleftrightarrow> ir_processed r = 0 \<and> ir_next r \<ge> 0 \<and> ir_next r \<le> now \<and> ir_attempts r < ob_maxAttempts s"

definition due :: "world \<Rightarrow> outboxStore \<Rightarrow> outboxState \<Rightarrow> intentRow list option \<times> outboxState" where
  "due w s st =
     (let now = wd_clock w (ox_step st); ok = wd_scan w (ox_step st); st' = st\<lparr>ox_step := ox_step st + 1\<rparr> in
      (if ok then Some (take (ob_batchSize s)
          (sort_key (\<lambda>r. (ir_created r, ir_id r)) (filter (is_due s now) (collapse (ox_table st)))))
       else None, st'))"

datatype drain_result = Drained nat | ScanFailed nat | Ended nat | WriteFailedAt nat

text \<open>The inner loop over one batch; the count goes on from batch to batch.\<close>

fun drain_rows :: "world \<Rightarrow> outboxStore \<Rightarrow> intentRow list \<Rightarrow> nat \<Rightarrow> outboxState
    \<Rightarrow> (drain_result + nat) \<times> outboxState" where
  "drain_rows w s [] n st = (Inr n, st)"
| "drain_rows w s (r # rs) n st =
     (let st0 = st\<lparr>ox_step := ox_step st + 1\<rparr> in
      if wd_ended w (ox_step st) then (Inl (Ended n), st0)
      else case processOne w s r st0 of
        (False, st1) \<Rightarrow> (Inl (WriteFailedAt (n + 1)), st1)
      | (True, st1) \<Rightarrow> drain_rows w s rs (n + 1) st1)"

text \<open>One pass of the outer loop: either the answer or the count to go on with.\<close>

definition drain_pass :: "world \<Rightarrow> outboxStore \<Rightarrow> nat \<Rightarrow> outboxState \<Rightarrow> (drain_result + nat) \<times> outboxState" where
  "drain_pass w s n st =
     (case due w s st of
        (None, st1) \<Rightarrow> (Inl (ScanFailed n), st1)
      | (Some [], st1) \<Rightarrow> (Inl (Drained n), st1)
      | (Some rows, st1) \<Rightarrow>
          (case drain_rows w s rows n st1 of
             (Inl e, st2) \<Rightarrow> (Inl e, st2)
           | (Inr m, st2) \<Rightarrow> if length rows < ob_batchSize s then (Inl (Drained m), st2) else (Inr m, st2)))"

text \<open>\<^verbatim>\<open>ProcessDue\<close> may loop: no answer is \<open>None\<close>.\<close>

partial_function (option) process_due :: "world \<Rightarrow> outboxStore \<Rightarrow> nat \<Rightarrow> outboxState
    \<Rightarrow> (drain_result \<times> outboxState) option" where
  "process_due w s n st =
     (case drain_pass w s n st of
        (Inl e, st1) \<Rightarrow> Some (e, st1)
      | (Inr m, st1) \<Rightarrow> process_due w s m st1)"

definition ProcessDue :: "world \<Rightarrow> outboxStore \<Rightarrow> outboxState \<Rightarrow> (drain_result \<times> outboxState) option" where
  "ProcessDue w s st = process_due w s 0 st"

definition byID :: "world \<Rightarrow> string \<Rightarrow> outboxState \<Rightarrow> (intentRow option) option \<times> outboxState" where
  "byID w i st = (if wd_scan w (ox_step st) then Some (argmax_row i (ox_table st)) else None,
     st\<lparr>ox_step := ox_step st + 1\<rparr>)"

fun ProcessIDs :: "world \<Rightarrow> outboxStore \<Rightarrow> string list \<Rightarrow> outboxState \<Rightarrow> bool \<times> outboxState" where
  "ProcessIDs w s [] st = (True, st)"
| "ProcessIDs w s (i # ids) st =
     (case byID w i st of
        (None, st1) \<Rightarrow> (False, st1)
      | (Some None, st1) \<Rightarrow> ProcessIDs w s ids st1
      | (Some (Some row), st1) \<Rightarrow>
          (let st2 = st1\<lparr>ox_step := ox_step st1 + 1\<rparr> in
           if wd_ended w (ox_step st1) then (False, st2)
           else case processOne w s row st2 of
             (False, st3) \<Rightarrow> (False, st3)
           | (True, st3) \<Rightarrow> ProcessIDs w s ids st3))"

section \<open>Counters\<close>

record KindStats =
  ks_pending :: nat
  ks_processed :: nat
  ks_failed :: nat
  ks_dead :: nat

definition kind_stats :: "outboxState \<Rightarrow> string \<Rightarrow> KindStats" where
  "kind_stats st k = (let rows = filter (\<lambda>r. ir_kind r = k) (collapse (ox_table st)) in
     \<lparr>ks_pending = length (filter (\<lambda>r. ir_processed r = 0 \<and> ir_next r \<ge> 0) rows),
      ks_processed = length (filter (\<lambda>r. ir_processed r > 0) rows),
      ks_failed = ox_failed st k,
      ks_dead = length (filter (\<lambda>r. ir_processed r = 0 \<and> ir_next r < 0) rows)\<rparr>)"

definition outboxStats :: "world \<Rightarrow> outboxState \<Rightarrow> (string \<times> KindStats) list" where
  "outboxStats w st = (if wd_scan w (ox_step st)
     then map (\<lambda>k. (k, kind_stats st k)) (remdups (map ir_kind (collapse (ox_table st)))) else [])"

end
