(* ===== verification/OutboxProps.thy ===== *)
theory OutboxProps
  imports Outbox
begin

text \<open>
  What the outbox guarantees: a drain pass always ends, no intent is lost or rewritten, closed intents
  stay closed under draining, and the retry delays stay within their bounds.
\<close>

section \<open>The collapse\<close>

lemma argmax_id: "argmax_row i tbl = Some r \<Longrightarrow> ir_id r = i \<and> r \<in> set tbl"
  by (induction tbl arbitrary: r) (auto split: option.splits if_splits)

lemma argmax_None: "argmax_row i tbl = None \<longleftrightarrow> i \<notin> ir_id ` set tbl"
  by (induction tbl) (auto split: option.splits)

lemma argmax_append: "argmax_row i (tbl @ [r]) = (if ir_id r \<noteq> i then argmax_row i tbl else
    (case argmax_row i tbl of None \<Rightarrow> Some r | Some m \<Rightarrow> if ir_version m > ir_version r then Some m else Some r))"
  by (induction tbl) (auto split: option.splits)

lemma collapse_iff: "r \<in> set (collapse tbl) \<longleftrightarrow> argmax_row (ir_id r) tbl = Some r"
proof
  assume "argmax_row (ir_id r) tbl = Some r"
  moreover from argmax_id [OF this] have "ir_id r \<in> ir_id ` set tbl" by blast
  ultimately show "r \<in> set (collapse tbl)" by (auto simp: collapse_def List.map_filter_def image_iff intro!: bexI [of _ "ir_id r"])
qed (use argmax_id in \<open>fastforce simp: collapse_def List.map_filter_def\<close>)

lemma collapse_ids: "map ir_id (collapse tbl) = remdups (map ir_id tbl)"
proof -
  have "map ir_id (List.map_filter (\<lambda>i. argmax_row i tbl) is) = is" if "set is \<subseteq> ir_id ` set tbl" for "is"
    using that
  proof (induction "is")
    case (Cons i "is")
    then obtain r where "argmax_row i tbl = Some r" using argmax_None [of i tbl] by auto
    then show ?case using Cons argmax_id [of i tbl r] by (simp add: List.map_filter_simps)
  qed (simp add: List.map_filter_simps)
  then show ?thesis by (simp add: collapse_def)
qed

section \<open>Evolution of one intent\<close>

definition closed :: "outboxStore \<Rightarrow> intentRow \<Rightarrow> bool" where
  "closed s r \<longleftrightarrow> ir_processed r \<noteq> 0 \<or> ir_next r < 0 \<or> ir_attempts r \<ge> ob_maxAttempts s"

definition same_intent :: "intentRow \<Rightarrow> intentRow \<Rightarrow> bool" where
  "same_intent r r' \<longleftrightarrow> ir_id r' = ir_id r \<and> ir_kind r' = ir_kind r \<and> ir_site r' = ir_site r
     \<and> ir_payload r' = ir_payload r \<and> ir_created r' = ir_created r"

definition evolves :: "outboxStore \<Rightarrow> intentRow list \<Rightarrow> intentRow list \<Rightarrow> bool" where
  "evolves s tbl tbl' \<longleftrightarrow> ir_id ` set tbl' = ir_id ` set tbl \<and>
     (\<forall>i r. argmax_row i tbl = Some r \<longrightarrow> (\<exists>r'. argmax_row i tbl' = Some r' \<and> same_intent r r'
        \<and> (closed s r \<longrightarrow> r' = r) \<and> ir_attempts r \<le> ir_attempts r'))"

lemma evolves_refl [simp]: "evolves s tbl tbl"
  by (auto simp: evolves_def same_intent_def)

lemma evolves_trans: "evolves s a b \<Longrightarrow> evolves s b c \<Longrightarrow> evolves s a c"
  unfolding evolves_def same_intent_def by (intro conjI allI impI; (elim conjE)?; fastforce)

text \<open>The work an intent can still cause.\<close>

definition weight :: "outboxStore \<Rightarrow> intentRow \<Rightarrow> nat" where
  "weight s r = (if closed s r then 0 else nat (ob_maxAttempts s - ir_attempts r))"

definition potential :: "outboxStore \<Rightarrow> intentRow list \<Rightarrow> nat" where
  "potential s tbl = (\<Sum>i \<in> ir_id ` set tbl. case argmax_row i tbl of None \<Rightarrow> 0 | Some r \<Rightarrow> weight s r)"

lemma put_evolves:
  assumes "argmax_row (ir_id r) tbl = Some r" "\<not> closed s r"
    and "same_intent r r'" "ir_version r < ir_version r'" "ir_attempts r \<le> ir_attempts r'" "weight s r' < weight s r"
  shows "evolves s tbl (tbl @ [r'])" "potential s (tbl @ [r']) < potential s tbl"
    "j \<noteq> ir_id r \<Longrightarrow> argmax_row j (tbl @ [r']) = argmax_row j tbl"
proof -
  have i: "ir_id r' = ir_id r" using assms(3) by (simp add: same_intent_def)
  have mem: "ir_id r \<in> ir_id ` set tbl" using argmax_id [OF assms(1)] by blast
  have new: "argmax_row (ir_id r) (tbl @ [r']) = Some r'" using assms(1,4) i by (simp add: argmax_append)
  show old: "argmax_row j (tbl @ [r']) = argmax_row j tbl" if "j \<noteq> ir_id r" for j
    using that i by (simp add: argmax_append)
  have ids: "ir_id ` set (tbl @ [r']) = ir_id ` set tbl" using mem i by auto
  show "evolves s tbl (tbl @ [r'])"
    unfolding evolves_def
  proof (intro conjI allI impI)
    fix k x assume k: "argmax_row k tbl = Some x"
    show "\<exists>r''. argmax_row k (tbl @ [r']) = Some r'' \<and> same_intent x r'' \<and> (closed s x \<longrightarrow> r'' = x) \<and> ir_attempts x \<le> ir_attempts r''"
    proof (cases "k = ir_id r")
      case True
      then have "x = r" using k assms(1) by simp
      then show ?thesis using True new assms(2,3,5) by blast
    next
      case False
      then show ?thesis using old k by (auto simp: same_intent_def)
    qed
  qed (rule ids)
  let ?w = "\<lambda>t i. case argmax_row i t of None \<Rightarrow> 0 | Some r \<Rightarrow> weight s r"
  show "potential s (tbl @ [r']) < potential s tbl"
    unfolding potential_def ids
  proof (rule sum_strict_mono_ex1)
    show "\<forall>k \<in> ir_id ` set tbl. ?w (tbl @ [r']) k \<le> ?w tbl k"
      using old new assms(1,6) by (metis (no_types, lifting) eq_iff less_imp_le option.simps(5))
    show "\<exists>k \<in> ir_id ` set tbl. ?w (tbl @ [r']) k < ?w tbl k"
      using mem new assms(1,6) by (intro bexI [of _ "ir_id r"]) simp_all
  qed simp
qed

lemma nextVersion_gt: "prior < nextVersion prior now"
  by (simp add: nextVersion_def)

section \<open>One step\<close>

definition clock_ok :: "world \<Rightarrow> bool" where
  "clock_ok w \<longleftrightarrow> (\<forall>k. 0 < wd_clock w k)"

lemma put_row_cases:
  "put_row w r st = (ok, st') \<Longrightarrow> ox_table st' = (if ok then ox_table st @ [r] else ox_table st)"
  by (auto simp: put_row_def Let_def)

lemma processOne_evolves:
  assumes "clock_ok w" "argmax_row (ir_id row) (ox_table st) = Some row" "is_due s now row" "processOne w s row st = (ok, st')"
  shows "evolves s (ox_table st) (ox_table st')"
    "ok \<Longrightarrow> potential s (ox_table st') < potential s (ox_table st)"
    "j \<noteq> ir_id row \<Longrightarrow> argmax_row j (ox_table st') = argmax_row j (ox_table st)"
proof -
  have open_row: "\<not> closed s row" and att: "ir_attempts row < ob_maxAttempts s"
    using assms(3) by (auto simp: is_due_def closed_def)
  have wt: "weight s row = nat (ob_maxAttempts s - ir_attempts row)" using open_row by (simp add: weight_def)
  have "\<exists>r'. ox_table st' = (if ok then ox_table st @ [r'] else ox_table st) \<and> same_intent row r'
      \<and> ir_version row < ir_version r' \<and> ir_attempts row \<le> ir_attempts r' \<and> weight s r' < weight s row"
  proof (cases "ir_kind row \<in> set (ob_handlers s) \<and> fst (invoke w st) = None")
    case True
    then have "markProcessed w row (snd (invoke w st)) = (ok, st')"
      using assms(4) by (cases "invoke w st") (auto simp: processOne_def)
    then obtain now where "put_row w (row\<lparr>ir_processed := now, ir_error := [],
        ir_version := nextVersion (ir_version row) now\<rparr>) (snd (invoke w st)) = (ok, st')" "now = wd_clock w (Suc (ox_step st))"
      by (simp add: markProcessed_def Let_def invoke_def)
    moreover from this(2) assms(1) have "now \<noteq> 0" unfolding clock_ok_def by (metis less_irrefl)
    ultimately show ?thesis
      using put_row_cases att wt nextVersion_gt
      by (intro exI [of _ "row\<lparr>ir_processed := now, ir_error := [], ir_version := nextVersion (ir_version row) now\<rparr>"])
        (fastforce simp: invoke_def same_intent_def weight_def closed_def)
  next
    case False
    then obtain cause st1 where c: "(if ir_kind row \<in> set (ob_handlers s) then invoke w st
        else (Some (''no handler registered for kind '' @ ir_kind row), st)) = (Some cause, st1)" "ox_table st1 = ox_table st"
      by (cases "ir_kind row \<in> set (ob_handlers s)"; cases "wd_handler w (ox_step st)") (auto simp: invoke_def)
    define a nx st3 where "a = ir_attempts row + 1"
      and "nx = (if a \<ge> ob_maxAttempts s then - 1
         else wd_clock w (ox_step (bumpFailed (ir_kind row) st1)) + milliseconds (backoff s a))"
      and "st3 = (bumpFailed (ir_kind row) st1)\<lparr>ox_step := ox_step (bumpFailed (ir_kind row) st1) + 1\<rparr>"
    have "markAttempt w row a nx cause st3 = (ok, st')"
      using assms(4) unfolding processOne_def c(1) a_def nx_def st3_def Let_def prod.case option.case .
    then obtain v where p: "put_row w (row\<lparr>ir_attempts := a, ir_next := nx, ir_processed := 0,
        ir_error := take maxLastErrorChars cause, ir_version := nextVersion (ir_version row) v\<rparr>) st3 = (ok, st')"
      by (simp add: markAttempt_def Let_def)
    have "ox_table st3 = ox_table st" using c(2) by (simp add: st3_def bumpFailed_def)
    then show ?thesis using att wt put_row_cases [OF p] nextVersion_gt
      by (intro exI [of _ "row\<lparr>ir_attempts := a, ir_next := nx, ir_processed := 0,
        ir_error := take maxLastErrorChars cause, ir_version := nextVersion (ir_version row) v\<rparr>"])
        (simp add: same_intent_def weight_def closed_def a_def)
  qed
  then obtain r' where r': "ox_table st' = (if ok then ox_table st @ [r'] else ox_table st)" "same_intent row r'"
      "ir_version row < ir_version r'" "ir_attempts row \<le> ir_attempts r'" "weight s r' < weight s row" by blast
  note P = put_evolves [OF assms(2) open_row r'(2-5)]
  show "evolves s (ox_table st) (ox_table st')" using P(1) r'(1) by simp
  show "potential s (ox_table st') < potential s (ox_table st)" if ok using P(2) r'(1) that by simp
  show "argmax_row j (ox_table st') = argmax_row j (ox_table st)" if "j \<noteq> ir_id row" using P(3) [OF that] r'(1) by simp
qed

section \<open>Draining\<close>

lemma drain_rows_evolves:
  assumes "clock_ok w" "distinct (map ir_id rows)"
    and "\<forall>r \<in> set rows. argmax_row (ir_id r) (ox_table st) = Some r \<and> is_due s now r"
    and "drain_rows w s rows n st = (res, st')"
  shows "evolves s (ox_table st) (ox_table st')"
    "res = Inr m \<Longrightarrow> m = n + length rows \<and> potential s (ox_table st') + length rows \<le> potential s (ox_table st)"
  using assms
proof (induction w s rows n st rule: drain_rows.induct)
  case (2 w s r rs n st)
  let ?st0 = "st\<lparr>ox_step := ox_step st + 1\<rparr>"
  { case 1
    show ?case
    proof (cases "wd_ended w (ox_step st)")
      case True
      then show ?thesis using 1 by auto
    next
      case False
      obtain ok st1 where p: "processOne w s r ?st0 = (ok, st1)" by fastforce
      note P = processOne_evolves [OF 1(1) _ _ p, of now]
      have e: "evolves s (ox_table st) (ox_table st1)" using P(1) 1(3) by simp
      show ?thesis
      proof (cases ok)
        case True
        have "\<forall>x \<in> set rs. argmax_row (ir_id x) (ox_table st1) = Some x \<and> is_due s now x"
          using 1(2,3) P(3) by (auto simp: image_iff)
        then have "evolves s (ox_table st1) (ox_table st')"
          using "2.IH"(1) [OF refl False p [symmetric]] True 1 p False by (simp add: Let_def)
        then show ?thesis using e evolves_trans by blast
      next
        case False
        then show ?thesis using 1 p e \<open>\<not> wd_ended w (ox_step st)\<close> by (simp add: Let_def)
      qed
    qed
  next
    case 2: 2
    have ne: "\<not> wd_ended w (ox_step st)" using 2 by (auto split: if_splits)
    obtain ok st1 where p: "processOne w s r ?st0 = (ok, st1)" by fastforce
    have ok: ok using 2 p ne by (cases ok) auto
    note P = processOne_evolves [OF 2(2) _ _ p, of now]
    have "\<forall>x \<in> set rs. argmax_row (ir_id x) (ox_table st1) = Some x \<and> is_due s now x"
      using 2(3,4) P(3) by (auto simp: image_iff)
    then have "m = n + 1 + length rs \<and> potential s (ox_table st') + length rs \<le> potential s (ox_table st1)"
      using "2.IH"(2) [OF refl ne p [symmetric]] 2 p ne ok by (simp add: Let_def)
    moreover have "potential s (ox_table st1) < potential s (ox_table st)" using P(2) ok 2(4) by simp
    ultimately show ?case by simp
  }
qed auto

lemma due_rows:
  assumes "due w s st = (Some rows, st')"
  shows "ox_table st' = ox_table st" "distinct (map ir_id rows)" "length rows \<le> ob_batchSize s"
    "\<forall>r \<in> set rows. argmax_row (ir_id r) (ox_table st) = Some r \<and> is_due s (wd_clock w (ox_step st)) r"
proof -
  let ?f = "filter (is_due s (wd_clock w (ox_step st))) (collapse (ox_table st))"
  have r: "rows = take (ob_batchSize s) (sort_key (\<lambda>r. (ir_created r, ir_id r)) ?f)" "ox_table st' = ox_table st"
    using assms by (auto simp: due_def Let_def split: if_splits)
  then show "ox_table st' = ox_table st" "length rows \<le> ob_batchSize s" by auto
  have "distinct (map ir_id (collapse (ox_table st)))" by (simp add: collapse_ids)
  then have d: "distinct (collapse (ox_table st))" "inj_on ir_id (set (collapse (ox_table st)))"
    by (simp_all add: distinct_map)
  have sub: "set rows \<subseteq> {r \<in> set (collapse (ox_table st)). is_due s (wd_clock w (ox_step st)) r}"
    using r(1) by (auto dest: in_set_takeD)
  have "distinct rows" using r(1) d(1) by simp
  moreover have "inj_on ir_id (set rows)" using d(2) sub by (auto intro: inj_on_subset)
  ultimately show "distinct (map ir_id rows)" by (simp add: distinct_map)
  show "\<forall>r \<in> set rows. argmax_row (ir_id r) (ox_table st) = Some r \<and> is_due s (wd_clock w (ox_step st)) r"
    using sub collapse_iff by blast
qed

lemma drain_pass_evolves:
  assumes "clock_ok w" "drain_pass w s n st = (res, st')"
  shows "evolves s (ox_table st) (ox_table st')"
    "res = Inr m \<Longrightarrow> potential s (ox_table st') < potential s (ox_table st) \<and> m + potential s (ox_table st') \<le> n + potential s (ox_table st)"
    "res = Inl (Drained m) \<Longrightarrow> m + potential s (ox_table st') \<le> n + potential s (ox_table st)"
proof -
  obtain q st1 where d: "due w s st = (q, st1)" by fastforce
  have "evolves s (ox_table st) (ox_table st')
    \<and> (\<forall>m. res = Inr m \<longrightarrow> potential s (ox_table st') < potential s (ox_table st) \<and> m + potential s (ox_table st') \<le> n + potential s (ox_table st))
    \<and> (\<forall>m. res = Inl (Drained m) \<longrightarrow> m + potential s (ox_table st') \<le> n + potential s (ox_table st))"
  proof (cases q)
    case None
    then have "ox_table st1 = ox_table st" using d by (auto simp: due_def Let_def split: if_splits)
    then show ?thesis using None d assms(2) by (auto simp: drain_pass_def)
  next
    case (Some rows)
    note D = due_rows [OF d [unfolded Some]]
    show ?thesis
    proof (cases "rows = []")
      case True
      then show ?thesis using Some d assms(2) D(1) by (auto simp: drain_pass_def)
    next
      case False
      obtain r2 st2 where dr: "drain_rows w s rows n st1 = (r2, st2)" by fastforce
      have pre: "\<forall>r \<in> set rows. argmax_row (ir_id r) (ox_table st1) = Some r \<and> is_due s (wd_clock w (ox_step st)) r"
        using D(1,4) by simp
      note R = drain_rows_evolves [OF assms(1) D(2) pre dr]
      have st: "drain_pass w s n st = (case (r2, st2) of (Inl e, st2) \<Rightarrow> (Inl e, st2)
           | (Inr m, st2) \<Rightarrow> if length rows < ob_batchSize s then (Inl (Drained m), st2) else (Inr m, st2))"
        unfolding drain_pass_def d Some using dr False by (cases rows) (auto simp del: drain_rows.simps split: sum.splits)
      show ?thesis
      proof (cases r2)
        case (Inl e)
        have "e \<noteq> Drained m" for m
        proof -
          have "drain_rows w s rows n st1 = (Inl x, y) \<Longrightarrow> x \<noteq> Drained m" for x y
            by (induction w s rows n st1 rule: drain_rows.induct) (auto simp: Let_def split: if_splits prod.splits bool.splits)
          then show ?thesis using dr Inl by blast
        qed
        moreover have "res = Inl e" "st' = st2" using assms(2) st Inl by simp_all
        ultimately show ?thesis using R(1) D(1) by auto
      next
        case (Inr k)
        have "k = n + length rows \<and> potential s (ox_table st2) + length rows \<le> potential s (ox_table st1)"
          using R(2) Inr by blast
        moreover obtain x xs where "rows = x # xs" using False by (cases rows) auto
        moreover have "st' = st2" "res = Inr k \<or> res = Inl (Drained k)" using assms(2) st Inr by (auto split: if_splits)
        ultimately show ?thesis using R(1) D(1) by auto
      qed
    qed
  qed
  then show "evolves s (ox_table st) (ox_table st')"
    "res = Inr m \<Longrightarrow> potential s (ox_table st') < potential s (ox_table st) \<and> m + potential s (ox_table st') \<le> n + potential s (ox_table st)"
    "res = Inl (Drained m) \<Longrightarrow> m + potential s (ox_table st') \<le> n + potential s (ox_table st)" by auto
qed

lemma process_due_returns:
  assumes "clock_ok w"
  shows "\<exists>res st'. process_due w s n st = Some (res, st') \<and> evolves s (ox_table st) (ox_table st')
    \<and> (\<forall>m. res = Drained m \<longrightarrow> m + potential s (ox_table st') \<le> n + potential s (ox_table st))"
proof (induction "potential s (ox_table st)" arbitrary: n st rule: less_induct)
  case less
  obtain res st1 where d: "drain_pass w s n st = (res, st1)" by fastforce
  note D = drain_pass_evolves [OF assms d]
  show ?case
  proof (cases res)
    case (Inl e)
    then show ?thesis using D d by (subst process_due.simps) auto
  next
    case (Inr m)
    have m: "potential s (ox_table st1) < potential s (ox_table st)" "m + potential s (ox_table st1) \<le> n + potential s (ox_table st)"
      using D(2) Inr by auto
    from less [OF m(1), of m] obtain r st' where
      r: "process_due w s m st1 = Some (r, st')" "evolves s (ox_table st1) (ox_table st')"
        "\<forall>k. r = Drained k \<longrightarrow> k + potential s (ox_table st') \<le> m + potential s (ox_table st1)" by blast
    have "process_due w s n st = Some (r, st')" using r(1) d Inr by (subst process_due.simps) simp
    then show ?thesis using r(2,3) m(2) evolves_trans [OF D(1) r(2)] by fastforce
  qed
qed


definition sample_world :: world where
  "sample_world = \<lparr>wd_clock = (\<lambda>k. int k + 1), wd_scan = (\<lambda>_. True), wd_write = (\<lambda>_. True),
     wd_ended = (\<lambda>_. False), wd_handler = (\<lambda>_. Some ''down'')\<rparr>"

lemma sample_clock: "clock_ok sample_world"
  by (simp add: clock_ok_def sample_world_def)


section \<open>Retry delays\<close>

lemma double_up_spec:
  assumes "0 < d" "d \<le> 2 * cap" "cap \<le> 2 ^ 61"
  shows "min cap (double_up cap n d) = min cap (d * 2 ^ n) \<and> 0 < double_up cap n d"
  using assms
proof (induction cap n d rule: double_up.induct)
  case (2 cap n d)
  show ?case
  proof (cases "d < cap")
    case True
    then have w: "wrap64 (d * 2) = d * 2" using 2(2-4) by (intro wrap64_id) auto
    have "min cap (double_up cap n (d * 2)) = min cap (d * 2 * 2 ^ n) \<and> 0 < double_up cap n (d * 2)"
      using "2.IH" [OF True] 2 True w by simp
    then show ?thesis using True w by (simp add: mult.assoc)
  next
    case False
    have "1 \<le> (2 :: int) ^ Suc n" by (rule one_le_power) simp
    then have "d * 1 \<le> d * 2 ^ Suc n" using 2(2) by (intro mult_left_mono) auto
    then have "cap \<le> d * 2 ^ Suc n" using False by linarith
    then show ?thesis using False 2(2) by (simp add: min_def)
  qed
qed simp

text \<open>The retry delay doubles from its base with every failed attempt and stops at its cap, without
  overflow for every cap up to 2 to the 61 nanoseconds (73 years).\<close>

theorem backoff_doubles:
  assumes "0 < ob_backoffBase s" "ob_backoffBase s \<le> ob_backoffCap s" "ob_backoffCap s \<le> 2 ^ 61" "1 \<le> attempts"
  shows "backoff s attempts = min (ob_backoffCap s) (ob_backoffBase s * 2 ^ nat (attempts - 1))"
  using double_up_spec [of "ob_backoffBase s" "ob_backoffCap s" "nat (attempts - 1)"] assms
  by (simp add: backoff_def Let_def min_def split: if_splits)

theorem backoff_doubles_witness: "backoff outboxNew 10 = 300000000000"
  using backoff_doubles [of outboxNew 10] by (simp add: outboxNew_def)

section \<open>Histories\<close>

text \<open>The operations of the store, in any order, with fresh ids for new intents.\<close>

inductive outbox_step :: "world \<Rightarrow> outboxStore \<Rightarrow> outboxState \<Rightarrow> outboxState \<Rightarrow> bool" for w s where
  enqueue: "newID \<notin> ir_id ` set (ox_table st) \<Longrightarrow> Enqueue w newID site kind raw st = (res, st') \<Longrightarrow> outbox_step w s st st'"
| drain: "ProcessDue w s st = Some (res, st') \<Longrightarrow> outbox_step w s st st'"
| replay: "ProcessIDs w s ids st = (ok, st') \<Longrightarrow> outbox_step w s st st'"

inductive_cases outbox_stepE: "outbox_step w s st st'"

definition kept :: "intentRow list \<Rightarrow> intentRow list \<Rightarrow> bool" where
  "kept tbl tbl' \<longleftrightarrow> (\<forall>i r. argmax_row i tbl = Some r \<longrightarrow> (\<exists>r'. argmax_row i tbl' = Some r' \<and> same_intent r r'))"

lemma kept_refl [simp]: "kept tbl tbl"
  by (simp add: kept_def same_intent_def)

lemma kept_trans: "kept a b \<Longrightarrow> kept b c \<Longrightarrow> kept a c"
  unfolding kept_def same_intent_def by metis

lemma evolves_kept: "evolves s a b \<Longrightarrow> kept a b"
  unfolding evolves_def kept_def by blast

lemma kept_append: "argmax_row (ir_id r) tbl = Some r \<Longrightarrow> same_intent r r' \<Longrightarrow> ir_version r < ir_version r' \<Longrightarrow> kept tbl (tbl @ [r'])"
  by (auto simp: kept_def argmax_append same_intent_def split: option.splits)

lemma kept_fresh: "ir_id r \<notin> ir_id ` set tbl \<Longrightarrow> kept tbl (tbl @ [r])"
  by (auto simp: kept_def argmax_append same_intent_def argmax_None [symmetric] split: option.splits)

lemma processOne_kept:
  assumes "argmax_row (ir_id row) (ox_table st) = Some row" "processOne w s row st = (ok, st')"
  shows "kept (ox_table st) (ox_table st')"
proof -
  have *: "kept (ox_table st) (ox_table u')"
    if "put_row w r' u = (b, u')" "ox_table u = ox_table st" "same_intent row r'" "ir_version row < ir_version r'" for r' u b u'
    using put_row_cases [OF that(1)] that(2-4) kept_append [OF assms(1)] by (cases b) simp_all
  show ?thesis
    using assms(2) unfolding processOne_def markProcessed_def markAttempt_def Let_def invoke_def bumpFailed_def
    by (auto split: if_splits option.splits prod.splits elim!: * simp: same_intent_def nextVersion_gt)
qed

lemma ProcessIDs_kept: "ProcessIDs w s ids st = (ok, st') \<Longrightarrow> kept (ox_table st) (ox_table st')"
proof (induction w s ids st rule: ProcessIDs.induct)
  case (2 w s i ids st)
  let ?st1 = "st\<lparr>ox_step := ox_step st + 1\<rparr>"
  let ?st2 = "?st1\<lparr>ox_step := ox_step ?st1 + 1\<rparr>"
  show ?case
  proof (cases "wd_scan w (ox_step st)")
    case False
    then show ?thesis using 2 by (auto simp: byID_def)
  next
    case scan: True
    show ?thesis
    proof (cases "argmax_row i (ox_table st)")
      case None
      then show ?thesis using 2 scan by (auto simp: byID_def)
    next
      case (Some row)
      show ?thesis
      proof (cases "wd_ended w (ox_step ?st1)")
        case True
        then show ?thesis using 2 scan Some by (auto simp: byID_def)
      next
        case False
        obtain ok' st3 where p: "processOne w s row ?st2 = (ok', st3)" by fastforce
        have "argmax_row (ir_id row) (ox_table ?st2) = Some row" using Some argmax_id [OF Some] by simp
        from processOne_kept [OF this p] have k: "kept (ox_table st) (ox_table st3)" by simp
        show ?thesis
        proof (cases ok')
          case True
          then have "ProcessIDs w s ids st3 = (ok, st')"
            using 2(3) scan Some False p by (simp add: byID_def Let_def)
          then have "kept (ox_table st3) (ox_table st')"
            using "2.IH"(2) [of "Some (Some row)" ?st1 "Some row" row ?st2 ok' st3] scan Some False p True
            by (simp add: byID_def)
          then show ?thesis using k kept_trans by blast
        next
          case f: False
          then show ?thesis using 2(3) scan Some False p k by (simp add: byID_def Let_def)
        qed
      qed
    qed
  qed
qed simp

text \<open>C23: Whatever is enqueued, drained, retried, dead-lettered or processed again, in any order: an intent
  that was committed is never lost, and its kind, site, payload and creation time never change.\<close>

theorem intents_kept:
  assumes "(outbox_step w s)\<^sup>*\<^sup>* st st'" "clock_ok w" "argmax_row i (ox_table st) = Some r"
  shows "\<exists>r'. argmax_row i (ox_table st') = Some r' \<and> same_intent r r'"
proof -
  have step: "kept (ox_table a) (ox_table b)" if "outbox_step w s a b" for a b
    using that
  proof (cases rule: outbox_step.cases)
    case (enqueue newID site kind raw res)
    then show ?thesis
      by (auto simp: Enqueue_def Let_def dest!: put_row_cases intro!: kept_fresh split: option.splits prod.splits if_splits)
  next
    case (drain res)
    then show ?thesis using process_due_returns [OF assms(2), of s 0 a] by (auto simp: ProcessDue_def intro: evolves_kept)
  next
    case (replay ids ok)
    then show ?thesis by (rule ProcessIDs_kept)
  qed
  have "kept (ox_table st) (ox_table st')"
    using assms(1) by (induction rule: rtranclp_induct) (auto intro: kept_trans step)
  then show ?thesis using assms(3) by (simp add: kept_def)
qed

definition sample_row :: intentRow where
  "sample_row = \<lparr>ir_id = ''a'', ir_kind = ''k'', ir_site = ''s'', ir_payload = ''p'', ir_created = 1, ir_attempts = 0,
     ir_next = 0, ir_processed = 5, ir_error = [], ir_version = 1\<rparr>"

definition sample_state :: outboxState where
  "sample_state = \<lparr>ox_table = [sample_row], ox_step = 0, ox_failed = (\<lambda>_. 0)\<rparr>"

lemma sample_latest: "argmax_row ''a'' (ox_table sample_state) = Some sample_row"
  by (simp add: sample_state_def sample_row_def)

theorem intents_kept_witness:
  "\<exists>r'. argmax_row ''a'' (ox_table (snd (Enqueue sample_world ''b'' ''s'' ''k'' (Some ''q'') sample_state))) = Some r'
    \<and> same_intent sample_row r'"
proof -
  have "outbox_step sample_world outboxNew sample_state
      (snd (Enqueue sample_world ''b'' ''s'' ''k'' (Some ''q'') sample_state))"
    by (rule outbox_step.enqueue [of "''b''" _ _ "''s''" "''k''" "Some ''q''"
      "fst (Enqueue sample_world ''b'' ''s'' ''k'' (Some ''q'') sample_state)"])
      (auto simp: sample_state_def sample_row_def)
  then have "(outbox_step sample_world outboxNew)\<^sup>*\<^sup>* sample_state
      (snd (Enqueue sample_world ''b'' ''s'' ''k'' (Some ''q'') sample_state))" by (rule r_into_rtranclp)
  from intents_kept [OF this sample_clock sample_latest] show ?thesis .
qed

section \<open>Processing a processed intent again\<close>

text \<open>Processing an intent again that was already processed, when the handler now fails, takes the
  processed mark away: the intent counts as pending again, or as a dead letter when its attempts are
  used up.\<close>

theorem reprocess_reopens:
  assumes "argmax_row i (ox_table st) = Some row" "0 < ir_processed row"
    and "\<forall>k. wd_scan w k \<and> wd_write w k \<and> \<not> wd_ended w k \<and> wd_handler w k \<noteq> None"
  shows "\<exists>r'. argmax_row i (ox_table (snd (ProcessIDs w s [i] st))) = Some r' \<and> ir_processed r' = 0
    \<and> ir_attempts r' = ir_attempts row + 1 \<and> (ob_maxAttempts s \<le> ir_attempts r' \<longrightarrow> ir_next r' < 0)"
proof -
  note row = argmax_id [OF assms(1)]
  have put: "argmax_row i (tbl @ [r']) = Some r'"
    if "tbl = ox_table st" "ir_id r' = i" "ir_version row < ir_version r'" for tbl r'
    using that assms(1) by (simp add: argmax_append)
  obtain e where "wd_handler w (Suc (Suc (ox_step st))) = Some e" using assms(3) by auto
  then show ?thesis using assms row
    by (auto simp: byID_def Let_def processOne_def invoke_def bumpFailed_def markAttempt_def put_row_def put
        nextVersion_gt split: prod.splits)
qed

theorem reprocess_reopens_witness:
  "\<exists>r'. argmax_row ''a'' (ox_table (snd (ProcessIDs sample_world outboxNew [''a''] sample_state))) = Some r'
    \<and> ir_processed r' = 0"
  using reprocess_reopens [OF sample_latest, of sample_world outboxNew] by (auto simp: sample_world_def sample_row_def)

end
