(* ===== verification/RateLimit.thy ===== *)
theory RateLimit
  imports QueryGuard
begin

text \<open>
  The two limits in front of ingestion: the token buckets of \<^verbatim>\<open>src/internal/ingest/ratelimit.go\<close>, and the
  connection caps of \<^verbatim>\<open>src/internal/otlpgrpc/connlimit.go\<close>.  Times are nanoseconds of the monotonic clock.
\<close>

section \<open>Token buckets\<close>

record bucket =
  bk_tokens :: int
  bk_lastFill :: int
  bk_cap :: int
  bk_rate :: int

record RateLimiter =
  rl_buckets :: "(string \<times> bucket) list"
  rl_rate :: int
  rl_interval :: int
  rl_burst :: int
  rl_siteLimits :: "(string \<times> int) list"

definition maxBuckets :: nat where "maxBuckets = 250000"

definition NewRateLimiter :: "int \<Rightarrow> int \<Rightarrow> int \<Rightarrow> RateLimiter" where
  "NewRateLimiter rate interval burst = \<lparr>rl_buckets = [], rl_rate = rate, rl_interval = interval,
     rl_burst = burst, rl_siteLimits = []\<rparr>"

definition SetSiteCap :: "RateLimiter \<Rightarrow> string \<Rightarrow> int \<Rightarrow> RateLimiter" where
  "SetSiteCap rl siteID r =
     (if r \<le> 0 then rl\<lparr>rl_siteLimits := AList.delete siteID (rl_siteLimits rl)\<rparr>
      else rl\<lparr>rl_siteLimits := AList.update siteID r (rl_siteLimits rl)\<rparr>)"

text \<open>Go's integer division cuts towards zero.\<close>

definition tdiv :: "int \<Rightarrow> int \<Rightarrow> int" where
  "tdiv a b = sgn a * sgn b * (\<bar>a\<bar> div \<bar>b\<bar>)"

definition retune :: "int \<Rightarrow> int \<Rightarrow> bucket \<Rightarrow> bucket" where
  "retune rate cap b =
     (if bk_rate b \<noteq> rate \<or> bk_cap b \<noteq> cap
      then b\<lparr>bk_rate := rate, bk_cap := cap, bk_tokens := (if bk_tokens b > cap then cap else bk_tokens b)\<rparr> else b)"

definition refill :: "int \<Rightarrow> int \<Rightarrow> bucket \<Rightarrow> bucket" where
  "refill interval now b =
     (let n = wrap64 (tdiv (now - bk_lastFill b) interval * bk_rate b) in
      if n > 0 then b\<lparr>bk_tokens := (if bk_tokens b + n > bk_cap b then bk_cap b else bk_tokens b + n), bk_lastFill := now\<rparr>
      else b)"

text \<open>The bucket of a key, created or refilled; \<open>None\<close> when the table is full.\<close>

definition refillLocked :: "RateLimiter \<Rightarrow> int \<Rightarrow> string \<Rightarrow> int \<Rightarrow> int \<Rightarrow> bucket option \<times> RateLimiter" where
  "refillLocked rl now key rate cap =
     (case map_of (rl_buckets rl) key of
        None \<Rightarrow>
          if length (rl_buckets rl) \<ge> maxBuckets then (None, rl)
          else (let b = \<lparr>bk_tokens = cap, bk_lastFill = now, bk_cap = cap, bk_rate = rate\<rparr>
                in (Some b, rl\<lparr>rl_buckets := AList.update key b (rl_buckets rl)\<rparr>))
      | Some b0 \<Rightarrow>
          (let b = refill (rl_interval rl) now (retune rate cap b0)
           in (Some b, rl\<lparr>rl_buckets := AList.update key b (rl_buckets rl)\<rparr>)))"

definition request_key :: "string \<Rightarrow> string \<Rightarrow> string" where
  "request_key siteID ip = (if ip = [] then siteID else if siteID = [] then ip else siteID @ ''|'' @ ip)"

definition site_key :: "string \<Rightarrow> string" where
  "site_key siteID = char_of (0 :: nat) # ''site:'' @ siteID"

definition take_token :: "string \<Rightarrow> RateLimiter \<Rightarrow> RateLimiter" where
  "take_token key rl = (case map_of (rl_buckets rl) key of None \<Rightarrow> rl
     | Some b \<Rightarrow> rl\<lparr>rl_buckets := AList.update key (b\<lparr>bk_tokens := bk_tokens b - 1\<rparr>) (rl_buckets rl)\<rparr>)"

text \<open>The buckets are pointers into the map: taking a token updates the stored bucket.\<close>

definition Allow :: "RateLimiter \<Rightarrow> int \<Rightarrow> string \<Rightarrow> string \<Rightarrow> bool \<times> RateLimiter" where
  "Allow rl now siteID ip =
     (let key = request_key siteID ip in
      if key = [] then (True, rl)
      else
        let override = (if siteID = [] then None else map_of (rl_siteLimits rl) siteID);
            rate = (case override of None \<Rightarrow> rl_rate rl | Some r \<Rightarrow> r);
            cap = (case override of None \<Rightarrow> rl_burst rl | Some r \<Rightarrow> r * 2);
            (composite, rl1) = refillLocked rl now key rate cap
        in case override of
          None \<Rightarrow>
            (case composite of
               None \<Rightarrow> (False, rl1)
             | Some b \<Rightarrow> if bk_tokens b \<le> 0 then (False, rl1) else (True, take_token key rl1))
        | Some r \<Rightarrow>
            (let (aggregate, rl2) = refillLocked rl1 now (site_key siteID) r (r * 2) in
             case (composite, aggregate) of
               (Some b, Some a) \<Rightarrow>
                 if bk_tokens b \<le> 0 then (False, rl2)
                 else if bk_tokens a \<le> 0 then (False, rl2)
                 else (True, take_token (site_key siteID) (take_token key rl2))
             | _ \<Rightarrow> (False, rl2)))"

definition cleanup :: "RateLimiter \<Rightarrow> int \<Rightarrow> RateLimiter" where
  "cleanup rl now = rl\<lparr>rl_buckets := filter (\<lambda>(k, b). \<not> bk_lastFill b < now - 5 * 60 * 1000000000) (rl_buckets rl)\<rparr>"

section \<open>Connection caps\<close>

text \<open>\<^verbatim>\<open>ll_conns\<close>: the accepted connections with their remote host and whether their \<^verbatim>\<open>sync.Once\<close> has run.\<close>

record limitListener =
  ll_max :: int
  ll_maxPerIP :: int
  ll_total :: int
  ll_perIP :: "string \<Rightarrow> int option"
  ll_refuse :: int
  ll_conns :: "(string \<times> bool) list"

definition newLimitListener :: "int \<Rightarrow> int \<Rightarrow> limitListener" where
  "newLimitListener m p = \<lparr>ll_max = m, ll_maxPerIP = p, ll_total = 0, ll_perIP = Map.empty, ll_refuse = 0, ll_conns = []\<rparr>"

definition ip_count :: "limitListener \<Rightarrow> string \<Rightarrow> int" where
  "ip_count l ip = (case ll_perIP l ip of None \<Rightarrow> 0 | Some n \<Rightarrow> n)"

definition over_cap :: "limitListener \<Rightarrow> string \<Rightarrow> bool" where
  "over_cap l ip \<longleftrightarrow> (ll_max l > 0 \<and> ll_total l \<ge> ll_max l) \<or> (ll_maxPerIP l > 0 \<and> ip_count l ip \<ge> ll_maxPerIP l)"

text \<open>The accept loop over the connections that arrive: refused ones are closed and skipped.\<close>

fun Accept :: "limitListener \<Rightarrow> string list \<Rightarrow> nat option \<times> limitListener" where
  "Accept l [] = (None, l)"
| "Accept l (ip # ips) =
     (if over_cap l ip then Accept (l\<lparr>ll_refuse := ll_refuse l + 1\<rparr>) ips
      else (Some (length (ll_conns l)),
            l\<lparr>ll_total := ll_total l + 1, ll_perIP := (ll_perIP l)(ip \<mapsto> ip_count l ip + 1),
              ll_conns := ll_conns l @ [(ip, False)]\<rparr>))"

definition closeConn :: "limitListener \<Rightarrow> nat \<Rightarrow> limitListener" where
  "closeConn l i =
     (if i \<ge> length (ll_conns l) \<or> snd (ll_conns l ! i) then l
      else let ip = fst (ll_conns l ! i); n = ip_count l ip - 1 in
        l\<lparr>ll_total := ll_total l - 1,
          ll_perIP := (if n \<le> 0 then (ll_perIP l)(ip := None) else (ll_perIP l)(ip \<mapsto> n)),
          ll_conns := (ll_conns l)[i := (ip, True)]\<rparr>)"

section \<open>Connections are counted exactly\<close>

datatype conn_op = OpArrive "string list" | OpClose nat

fun conn_step :: "limitListener \<Rightarrow> conn_op \<Rightarrow> limitListener" where
  "conn_step l (OpArrive ips) = snd (Accept l ips)"
| "conn_step l (OpClose i) = closeConn l i"

definition conn_inv :: "limitListener \<Rightarrow> bool" where
  "conn_inv l \<longleftrightarrow> ll_total l = int (running (ll_conns l))
     \<and> (\<forall>ip. ll_perIP l ip = (if running_at ip (ll_conns l) = 0 then None else Some (int (running_at ip (ll_conns l)))))
     \<and> (ll_max l > 0 \<longrightarrow> ll_total l \<le> ll_max l)
     \<and> (ll_maxPerIP l > 0 \<longrightarrow> (\<forall>ip. int (running_at ip (ll_conns l)) \<le> ll_maxPerIP l))"

lemma conn_inv_refuse [simp]: "conn_inv (l\<lparr>ll_refuse := n\<rparr>) = conn_inv l"
  by (simp add: conn_inv_def)

lemma accept_inv [inv_intros]: "conn_inv l \<Longrightarrow> conn_inv (snd (Accept l ips))"
proof (induction l ips rule: Accept.induct)
  case (2 l ip ips)
  show ?case
  proof (cases "over_cap l ip")
    case True
    then show ?thesis using 2 by simp
  next
    case False
    then show ?thesis using 2(2) by (auto simp: conn_inv_def over_cap_def ip_count_def running_def running_at_def)
  qed
qed simp

lemma close_inv [inv_intros]:
  assumes "conn_inv l"
  shows "conn_inv (closeConn l i)"
proof (cases "i \<ge> length (ll_conns l) \<or> snd (ll_conns l ! i)")
  case False
  note R = running_update [of i "ll_conns l"]
  have "ll_maxPerIP l > 0 \<Longrightarrow> int (running_at ip (ll_conns l)) - 1 \<le> ll_maxPerIP l" for ip
    using assms by (auto simp: conn_inv_def intro: order_trans [of _ "int (running_at ip (ll_conns l))"])
  then show ?thesis using assms False R by (auto simp: conn_inv_def closeConn_def Let_def ip_count_def)
qed (use assms in \<open>simp add: closeConn_def\<close>)

interpretation conns: invariant_machine conn_step conn_inv
proof
  show "conn_inv (conn_step l x)" if "conn_inv l" for l x
    using that by (cases x) (auto intro: inv_intros)
qed

lemma conn_caps: "ll_max (run_ops conn_step l ops) = ll_max l \<and> ll_maxPerIP (run_ops conn_step l ops) = ll_maxPerIP l"
proof (induction ops arbitrary: l)
  case (Cons x ops)
  have "ll_max (snd (Accept l ips)) = ll_max l \<and> ll_maxPerIP (snd (Accept l ips)) = ll_maxPerIP l" for ips
    by (induction l ips rule: Accept.induct) auto
  then have "ll_max (conn_step l x) = ll_max l \<and> ll_maxPerIP (conn_step l x) = ll_maxPerIP l"
    by (cases x) (auto simp: closeConn_def Let_def)
  then show ?case using Cons by simp
qed simp

text \<open>C38: However connections arrive and close (and however often each is closed), the listener's counts
  are exactly the open connections, in total and per address, and never exceed the caps that are set.\<close>

theorem connections_capped:
  fixes ops m p
  defines "l \<equiv> run_ops conn_step (newLimitListener m p) ops"
  shows "ll_total l = int (running (ll_conns l)) \<and> ip_count l ip = int (running_at ip (ll_conns l))
    \<and> (m \<le> 0 \<or> ll_total l \<le> m) \<and> (p \<le> 0 \<or> ip_count l ip \<le> p)"
proof -
  have "conn_inv (newLimitListener m p)" by (simp add: conn_inv_def newLimitListener_def running_def running_at_def)
  then have I: "conn_inv l" unfolding l_def by (rule conns.run_inv)
  moreover have "ll_max l = m" "ll_maxPerIP l = p"
    unfolding l_def using conn_caps [of "newLimitListener m p" ops] by (simp_all add: newLimitListener_def)
  ultimately show ?thesis by (auto simp: conn_inv_def ip_count_def not_le)
qed

section \<open>The rate is bounded\<close>

lemma div_add_le: "0 < c \<Longrightarrow> a div c + b div c \<le> (a + b) div (c :: int)"
  by (simp add: div_add1_eq [of a b c] pos_imp_zdiv_nonneg_iff)

text \<open>
  The account of one key whose bucket always has rate \<open>R\<close> and cap \<open>C\<close>: with \<open>a\<close> requests let through
  since \<open>t0\<close>, the tokens in the bucket and those already taken stay within the burst and the refills.
\<close>

locale token_account =
  fixes I R C t0 Tmax :: int
  assumes pos: "0 < I" "0 \<le> R" "0 \<le> C"
    and no_wrap: "R * ((Tmax - t0) div I) < 2 ^ 63"
    and refilled_when_forgotten: "C \<le> R * (300000000000 div I)"
begin

definition account :: "int \<Rightarrow> int \<Rightarrow> bucket option \<Rightarrow> bool" where
  "account T a bo \<longleftrightarrow> (case bo of
     None \<Rightarrow> a \<le> R * ((T - t0) div I)
   | Some b \<Rightarrow> bk_rate b = R \<and> bk_cap b = C \<and> t0 \<le> bk_lastFill b \<and> bk_lastFill b \<le> T \<and> 0 \<le> bk_tokens b
       \<and> a + bk_tokens b \<le> C + R * ((bk_lastFill b - t0) div I))"

lemma grow: "S \<le> T \<Longrightarrow> R * ((S - t0) div I) \<le> R * ((T - t0) div I)"
  using pos by (intro mult_left_mono zdiv_mono1) auto

lemma account_bound: "account T a bo \<Longrightarrow> a \<le> C + R * ((T - t0) div I)"
  using grow pos by (fastforce simp: account_def split: option.splits)

lemma account_mono: "account S a bo \<Longrightarrow> S \<le> T \<Longrightarrow> account T a bo"
  using grow [of S T] by (auto simp: account_def split: option.splits)

lemma refill_account:
  assumes "account T a (Some b)" "T \<le> now" "now \<le> Tmax"
  shows "account now a (Some (refill I now (retune R C b)))"
proof -
  have b: "bk_rate b = R" "bk_cap b = C" "t0 \<le> bk_lastFill b" "bk_lastFill b \<le> now" "0 \<le> bk_tokens b"
    "a + bk_tokens b \<le> C + R * ((bk_lastFill b - t0) div I)"
    using assms by (auto simp: account_def)
  let ?e = "(now - bk_lastFill b) div I"
  have e: "0 \<le> ?e" using b pos by (simp add: pos_imp_zdiv_nonneg_iff)
  have add: "(bk_lastFill b - t0) div I + ?e \<le> (now - t0) div I"
    using div_add_le [of I "bk_lastFill b - t0" "now - bk_lastFill b"] pos by simp
  have "0 \<le> (bk_lastFill b - t0) div I" using b pos by (simp add: pos_imp_zdiv_nonneg_iff)
  then have "?e \<le> (now - t0) div I" using add by simp
  then have "R * ?e \<le> R * ((now - t0) div I)" using pos by (simp add: mult_left_mono)
  also have "\<dots> \<le> R * ((Tmax - t0) div I)" using assms(3) by (rule grow)
  finally have "R * ?e < 2 ^ 63" using no_wrap by simp
  moreover have "0 \<le> R * ?e" using e pos by simp
  ultimately have w: "wrap64 (?e * R) = R * ?e" by (simp add: wrap64_id mult.commute)
  have td: "tdiv (now - bk_lastFill b) I = ?e" using b pos by (auto simp: tdiv_def sgn_if)
  have "R * ((bk_lastFill b - t0) div I) + R * ?e \<le> R * ((now - t0) div I)"
    using mult_left_mono [OF add, of R] pos by (simp add: distrib_left)
  moreover have "R * ((bk_lastFill b - t0) div I) \<le> R * ((now - t0) div I)" using grow b by simp
  ultimately show ?thesis
    using b pos w td by (auto simp: account_def refill_def retune_def Let_def)
qed

lemma account_create: "account T a None \<Longrightarrow> T \<le> now \<Longrightarrow> t0 \<le> T \<Longrightarrow>
    account now a (Some \<lparr>bk_tokens = C, bk_lastFill = now, bk_cap = C, bk_rate = R\<rparr>)"
  using grow [of T now] pos by (simp add: account_def)

lemma refillLocked_account:
  assumes "account T a (map_of (rl_buckets rl) k)" "T \<le> now" "t0 \<le> T" "now \<le> Tmax" "rl_interval rl = I"
    and "refillLocked rl now k R C = (bo, rl')"
  shows "account now a (map_of (rl_buckets rl') k)" "bo \<noteq> None \<Longrightarrow> map_of (rl_buckets rl') k = bo"
proof -
  have "account now a (map_of (rl_buckets rl') k) \<and> (bo \<noteq> None \<longrightarrow> map_of (rl_buckets rl') k = bo)"
  proof (cases "map_of (rl_buckets rl) k")
    case None
    then show ?thesis using assms(1-5) assms(6) account_create [of T a now] account_mono [of T a None now]
      by (auto simp: refillLocked_def Let_def split: if_splits)
  next
    case (Some b)
    then show ?thesis using assms refill_account [of T a b now] by (auto simp: refillLocked_def Let_def)
  qed
  then show "account now a (map_of (rl_buckets rl') k)" "bo \<noteq> None \<Longrightarrow> map_of (rl_buckets rl') k = bo" by auto
qed

lemma take_account:
  "account T a (map_of (rl_buckets rl) k) \<Longrightarrow> map_of (rl_buckets rl) k = Some b \<Longrightarrow> 0 < bk_tokens b \<Longrightarrow>
     account T (a + 1) (map_of (rl_buckets (take_token k rl)) k)"
  by (auto simp: account_def take_token_def)

lemma cleanup_account:
  assumes "account T a (map_of (rl_buckets rl) k)" "T \<le> now" "distinct (map fst (rl_buckets rl))"
  shows "account now a (map_of (rl_buckets (cleanup rl now)) k)"
proof (cases "map_of (rl_buckets (cleanup rl now)) k = map_of (rl_buckets rl) k")
  case True
  then show ?thesis using assms account_mono by simp
next
  case False
  have m: "map_of (filter (\<lambda>(k, b). P b) xs) k = (case map_of xs k of None \<Rightarrow> None | Some b \<Rightarrow> if P b then Some b else None)"
    if "distinct (map fst xs)" for xs :: "(string \<times> bucket) list" and P
    using that
  proof (induction xs)
    case (Cons x xs)
    then show ?case by (cases x) (auto simp: map_of_eq_None_iff split: option.splits)
  qed simp
  obtain b where b: "map_of (rl_buckets rl) k = Some b" "bk_lastFill b < now - 300000000000"
    and gone: "map_of (rl_buckets (cleanup rl now)) k = None"
    using False m [OF assms(3), of "\<lambda>b. \<not> bk_lastFill b < now - 5 * 60 * 1000000000"]
    by (auto simp: cleanup_def split: option.splits if_splits)
  have acc: "a \<le> C + R * ((bk_lastFill b - t0) div I)" "t0 \<le> bk_lastFill b" using assms(1) b(1) by (auto simp: account_def)
  have "300000000000 div I + (bk_lastFill b - t0) div I \<le> (300000000000 + (bk_lastFill b - t0)) div I"
    using div_add_le pos(1) by blast
  also have "\<dots> \<le> (now - t0) div I" using b(2) pos(1) by (intro zdiv_mono1) auto
  finally have "R * (300000000000 div I) + R * ((bk_lastFill b - t0) div I) \<le> R * ((now - t0) div I)"
    using mult_left_mono [of "300000000000 div I + (bk_lastFill b - t0) div I" "(now - t0) div I" R] pos
    by (simp add: distrib_left)
  then have "a \<le> R * ((now - t0) div I)" using acc(1) refilled_when_forgotten by linarith
  then show ?thesis using gone by (simp add: account_def)
qed

end

section \<open>Runs of requests\<close>

datatype rate_op = OpAllow int string string | OpCleanup int

fun op_time :: "rate_op \<Rightarrow> int" where
  "op_time (OpAllow now s ip) = now"
| "op_time (OpCleanup now) = now"

text \<open>Requests let through among those of interest.\<close>

fun let_through :: "(string \<Rightarrow> string \<Rightarrow> bool) \<Rightarrow> RateLimiter \<Rightarrow> rate_op list \<Rightarrow> int" where
  "let_through P rl [] = 0"
| "let_through P rl (OpAllow now s ip # ops) =
     (if P s ip \<and> fst (Allow rl now s ip) then 1 else 0) + let_through P (snd (Allow rl now s ip)) ops"
| "let_through P rl (OpCleanup now # ops) = let_through P (cleanup rl now) ops"

fun in_order :: "int \<Rightarrow> int \<Rightarrow> rate_op list \<Rightarrow> bool" where
  "in_order T e [] \<longleftrightarrow> T \<le> e"
| "in_order T e (x # xs) \<longleftrightarrow> T \<le> op_time x \<and> in_order (op_time x) e xs"

lemma in_order_le: "in_order T e ops \<Longrightarrow> T \<le> e"
  by (induction ops arbitrary: T) fastforce+

definition settings :: "RateLimiter \<Rightarrow> int \<times> int \<times> int \<times> (string \<times> int) list" where
  "settings rl = (rl_rate rl, rl_interval rl, rl_burst rl, rl_siteLimits rl)"

definition keys_distinct :: "RateLimiter \<Rightarrow> bool" where
  "keys_distinct rl \<longleftrightarrow> distinct (map fst (rl_buckets rl))"

lemma refillLocked_frame:
  "settings (snd (refillLocked rl now k r c)) = settings rl"
  "keys_distinct rl \<Longrightarrow> keys_distinct (snd (refillLocked rl now k r c))"
  "k' \<noteq> k \<Longrightarrow> map_of (rl_buckets (snd (refillLocked rl now k r c))) k' = map_of (rl_buckets rl) k'"
  by (auto simp: refillLocked_def settings_def keys_distinct_def Let_def distinct_update split: option.splits)

lemma take_token_frame:
  "settings (take_token k rl) = settings rl"
  "keys_distinct rl \<Longrightarrow> keys_distinct (take_token k rl)"
  "k' \<noteq> k \<Longrightarrow> map_of (rl_buckets (take_token k rl)) k' = map_of (rl_buckets rl) k'"
  by (auto simp: take_token_def settings_def keys_distinct_def distinct_update split: option.splits)

lemma Allow_frame:
  "settings (snd (Allow rl now s ip)) = settings rl"
  "keys_distinct rl \<Longrightarrow> keys_distinct (snd (Allow rl now s ip))"
proof -
  note F = refillLocked_frame take_token_frame
  show "settings (snd (Allow rl now s ip)) = settings rl"
    using F(1) F(4) by (auto simp: Allow_def Let_def split: option.splits prod.splits) (metis snd_conv)+
  show "keys_distinct rl \<Longrightarrow> keys_distinct (snd (Allow rl now s ip))"
    using F(2) F(5) by (auto simp: Allow_def Let_def split: option.splits prod.splits) (metis snd_conv)+
qed

lemma cleanup_frame:
  "settings (cleanup rl now) = settings rl" "keys_distinct rl \<Longrightarrow> keys_distinct (cleanup rl now)"
  by (auto simp: cleanup_def settings_def keys_distinct_def distinct_map_filter)

context token_account
begin

lemma run_account:
  assumes step: "\<And>rl T now s ip a. \<lbrakk>settings rl = cfg; keys_distinct rl; account T a (map_of (rl_buckets rl) k);
        t0 \<le> T; T \<le> now; now \<le> Tmax; ok_request s ip\<rbrakk> \<Longrightarrow>
      account now (a + (if P s ip \<and> fst (Allow rl now s ip) then 1 else 0)) (map_of (rl_buckets (snd (Allow rl now s ip))) k)"
    and "settings rl = cfg" "keys_distinct rl" "account T a (map_of (rl_buckets rl) k)" "t0 \<le> T" "in_order T Tmax ops"
    and "\<forall>now s ip. OpAllow now s ip \<in> set ops \<longrightarrow> ok_request s ip"
  shows "a + let_through P rl ops \<le> C + R * ((Tmax - t0) div I)"
  using assms(2-)
proof (induction ops arbitrary: rl T a)
  case Nil
  then show ?case using account_bound [of T a "map_of (rl_buckets rl) k"] grow [of T Tmax] by simp
next
  case (Cons x ops)
  show ?case
  proof (cases x)
    case (OpAllow now s ip)
    have "T \<le> now" "in_order now Tmax ops" "ok_request s ip" using Cons.prems OpAllow by auto
    moreover from this(2) have "now \<le> Tmax" by (rule in_order_le)
    ultimately have "account now (a + (if P s ip \<and> fst (Allow rl now s ip) then 1 else 0)) (map_of (rl_buckets (snd (Allow rl now s ip))) k)"
      using Cons.prems step by blast
    from Cons.IH [OF _ _ this] show ?thesis using Cons.prems OpAllow Allow_frame [of rl now s ip] by (simp add: add.assoc)
  next
    case (OpCleanup now)
    have "T \<le> now" using Cons.prems OpCleanup by simp
    with Cons.prems have "account now a (map_of (rl_buckets (cleanup rl now)) k)"
      by (intro cleanup_account) (auto simp: keys_distinct_def)
    from Cons.IH [OF _ _ this] show ?thesis using Cons.prems OpCleanup cleanup_frame [of rl now] by simp
  qed
qed

lemma Allow_plain_account:
  assumes "settings rl = (R, I, C, [])" "account T a (map_of (rl_buckets rl) k)" "t0 \<le> T" "T \<le> now" "now \<le> Tmax" "k \<noteq> []"
  shows "account now (a + (if request_key s ip = k \<and> fst (Allow rl now s ip) then 1 else 0))
    (map_of (rl_buckets (snd (Allow rl now s ip))) k)"
proof (cases "request_key s ip = k")
  case False
  then show ?thesis using account_mono [OF assms(2,4)] assms(1) refillLocked_frame(3) [of k "request_key s ip"]
      take_token_frame(3) [of k "request_key s ip"]
    by (auto simp: Allow_def Let_def settings_def split: prod.splits option.splits) (metis snd_conv)+
next
  case True
  obtain bo rl1 where r: "refillLocked rl now k R C = (bo, rl1)" by fastforce
  have "rl_interval rl = I" using assms(1) by (simp add: settings_def)
  note A = refillLocked_account [OF assms(2,4,3,5) this r]
  have E: "Allow rl now s ip = (case bo of None \<Rightarrow> (False, rl1)
      | Some b \<Rightarrow> if bk_tokens b \<le> 0 then (False, rl1) else (True, take_token k rl1))"
    using assms(1,6) True r by (simp add: Allow_def Let_def settings_def)
  show ?thesis using A True take_account [OF A(1)] by (auto simp: E split: option.splits)
qed

lemma Allow_site_account:
  assumes "settings rl = (dr, I, db, lims)" "map_of lims site = Some R" "C = R * 2" "site \<noteq> []"
    and "account T a (map_of (rl_buckets rl) (site_key site))" "t0 \<le> T" "T \<le> now" "now \<le> Tmax"
    and "request_key s ip \<noteq> site_key site"
  shows "account now (a + (if s = site \<and> fst (Allow rl now s ip) then 1 else 0))
    (map_of (rl_buckets (snd (Allow rl now s ip))) (site_key site))"
proof -
  let ?k = "site_key site"
  have kn: "request_key s ip \<noteq> ?k" by fact
  have sk: "site_key s' = site_key site \<longleftrightarrow> s' = site" for s' by (simp add: site_key_def)
  show ?thesis
  proof (cases "s = site")
    case False
    then show ?thesis using account_mono [OF assms(5,7)] refillLocked_frame(3) [of ?k] take_token_frame(3) [of ?k] kn sk [of s]
      by (auto simp: Allow_def Let_def split: prod.splits option.splits) (metis snd_conv)+
  next
    case True
    have ne: "request_key s ip \<noteq> []" using assms(4) True by (simp add: request_key_def)
    obtain co rl1 where r1: "refillLocked rl now (request_key s ip) R C = (co, rl1)" by fastforce
    obtain ag rl2 where r2: "refillLocked rl1 now ?k R C = (ag, rl2)" by fastforce
    have "account T a (map_of (rl_buckets rl1) ?k)" "rl_interval rl1 = I"
      using refillLocked_frame(1) [of rl now "request_key s ip" R C] refillLocked_frame(3) [of ?k "request_key s ip" rl now R C]
        kn assms(1,5) r1 by (simp_all add: settings_def)
    note A = refillLocked_account [OF this(1) assms(7,6,8) this(2) r2]
    have E: "Allow rl now s ip = (case (co, ag) of (Some b, Some g) \<Rightarrow>
        if bk_tokens b \<le> 0 then (False, rl2) else if bk_tokens g \<le> 0 then (False, rl2)
        else (True, take_token ?k (take_token (request_key s ip) rl2)) | _ \<Rightarrow> (False, rl2))"
      using assms(1-4) True ne r1 r2 by (auto simp: Allow_def Let_def settings_def split: option.splits)
    have other: "map_of (rl_buckets (take_token (request_key s ip) rl2)) ?k = map_of (rl_buckets rl2) ?k"
      using kn by (intro take_token_frame(3)) auto
    show ?thesis unfolding E using A take_account [of now a "take_token (request_key s ip) rl2" ?k] other
      by (auto simp: True split: option.splits)
  qed
qed

lemma plain_bound:
  assumes "in_order t0 Tmax ops" "k \<noteq> []"
  shows "let_through (\<lambda>s ip. request_key s ip = k) (NewRateLimiter R I C) ops \<le> C + R * ((Tmax - t0) div I)"
proof -
  have "0 + let_through (\<lambda>s ip. request_key s ip = k) (NewRateLimiter R I C) ops \<le> C + R * ((Tmax - t0) div I)"
  proof (rule run_account [where k = k and cfg = "(R, I, C, [])" and ok_request = "\<lambda>_ _. True" and T = t0])
    show "account now (a + (if request_key s ip = k \<and> fst (Allow rl now s ip) then 1 else 0))
        (map_of (rl_buckets (snd (Allow rl now s ip))) k)"
      if "settings rl = (R, I, C, [])" "keys_distinct rl" "account T a (map_of (rl_buckets rl) k)"
        "t0 \<le> T" "T \<le> now" "now \<le> Tmax" True for rl T now s ip a
      using that assms(2) by (intro Allow_plain_account) auto
  qed (use assms in \<open>simp_all add: settings_def NewRateLimiter_def keys_distinct_def account_def\<close>)
  then show ?thesis by simp
qed

lemma site_bound:
  assumes "in_order t0 Tmax ops" "C = R * 2" "site \<noteq> []" "rl_buckets rl = []" "rl_interval rl = I"
    and "map_of (rl_siteLimits rl) site = Some R"
    and "\<forall>now s ip. OpAllow now s ip \<in> set ops \<longrightarrow> request_key s ip \<noteq> site_key site"
  shows "let_through (\<lambda>s ip. s = site) rl ops \<le> C + R * ((Tmax - t0) div I)"
proof -
  have "0 + let_through (\<lambda>s ip. s = site) rl ops \<le> C + R * ((Tmax - t0) div I)"
  proof (rule run_account [where k = "site_key site" and cfg = "(rl_rate rl, I, rl_burst rl, rl_siteLimits rl)"
        and ok_request = "\<lambda>s ip. request_key s ip \<noteq> site_key site" and T = t0])
    show "account now (a + (if s = site \<and> fst (Allow rl' now s ip) then 1 else 0))
        (map_of (rl_buckets (snd (Allow rl' now s ip))) (site_key site))"
      if "settings rl' = (rl_rate rl, I, rl_burst rl, rl_siteLimits rl)" "keys_distinct rl'"
        "account T a (map_of (rl_buckets rl') (site_key site))"
        "t0 \<le> T" "T \<le> now" "now \<le> Tmax" "request_key s ip \<noteq> site_key site" for rl' T now s ip a
      using that assms(2,3,6) by (intro Allow_site_account) auto
    show "account t0 0 (map_of (rl_buckets rl) (site_key site))" by (simp add: account_def assms(4))
  qed (use assms in \<open>simp_all add: settings_def keys_distinct_def\<close>)
  then show ?thesis by simp
qed

end

text \<open>The login limiter of the server: 10 a minute with a burst of 10, over one day.\<close>

interpretation login_limit: token_account 60000000000 10 10 0 86400000000000
  by unfold_locales simp_all



text \<open>With a site cap, the whole site is let through at most twice the cap plus the cap per full
  interval, however many addresses its requests come from (no request carries a key that starts with
  the NUL byte the site buckets are named with).\<close>

theorem site_rate_bounded:
  assumes "0 < I" "0 \<le> R" "R * ((Tmax - t0) div I) < 2 ^ 63" "R * 2 \<le> R * (300000000000 div I)"
    and "in_order t0 Tmax ops" "site \<noteq> []" "rl_buckets rl = []" "rl_interval rl = I"
    and "map_of (rl_siteLimits rl) site = Some R"
    and "\<forall>now s ip. OpAllow now s ip \<in> set ops \<longrightarrow> request_key s ip \<noteq> site_key site"
  shows "let_through (\<lambda>s ip. s = site) rl ops \<le> R * 2 + R * ((Tmax - t0) div I)"
  using assms(5-10) by (intro token_account.site_bound token_account.intro assms(1-4)) (use assms(2) in auto)

theorem site_rate_bounded_witness:
  "let_through (\<lambda>s ip. s = ''s'') (SetSiteCap (NewRateLimiter 100 1000000000 200) ''s'' 5)
     [OpAllow 7 ''s'' ''a'', OpCleanup 8, OpAllow 9 ''s'' ''b''] \<le> 10"
  using site_rate_bounded [of 1000000000 5 9 7 "[OpAllow 7 ''s'' ''a'', OpCleanup 8, OpAllow 9 ''s'' ''b'']" "''s''"
    "SetSiteCap (NewRateLimiter 100 1000000000 200) ''s'' 5"]
  by (auto simp: SetSiteCap_def NewRateLimiter_def request_key_def site_key_def)

end
