(* ===== verification/AuthGuard.thy ===== *)
theory AuthGuard
  imports Prelude
begin

text \<open>
  The guard in front of key validation (\<^verbatim>\<open>src/internal/authguard/authguard.go\<close>).  A call runs in two
  critical sections with the store lookup between them, so calls interleave; the model has one
  operation for each section.  Keys are their hashes.  Go's map order is an argument where it matters.
\<close>

record Config =
  cf_ttl :: int
  cf_negMax :: nat
  cf_fails :: int      \<comment> \<open>negative: no address limiter\<close>
  cf_trackedIPs :: nat

definition window :: int where "window = 60000000000"

text \<open>Zero values take the defaults, as in \<^verbatim>\<open>New\<close>.\<close>

definition NewConfig :: "int \<Rightarrow> int \<Rightarrow> int \<Rightarrow> int \<Rightarrow> Config" where
  "NewConfig ttl negMax fails tracked = \<lparr>cf_ttl = (if ttl \<le> 0 then 30000000000 else ttl),
     cf_negMax = (if negMax \<le> 0 then 10000 else nat negMax), cf_fails = (if fails = 0 then 60 else fails),
     cf_trackedIPs = (if tracked \<le> 0 then 10000 else nat tracked)\<rparr>"

record ('k, 'e) Guard =
  gd_neg :: "('k \<times> 'e \<times> int) list"       \<comment> \<open>the error and when it expires\<close>
  gd_ips :: "(string \<times> int \<times> int) list"   \<comment> \<open>start of the window and failures in it\<close>
  gd_hits :: nat
  gd_blocked :: nat
  gd_lookups :: nat

definition NewGuard :: "('k, 'e) Guard" where
  "NewGuard = \<lparr>gd_neg = [], gd_ips = [], gd_hits = 0, gd_blocked = 0, gd_lookups = 0\<rparr>"

definition ipBlocked :: "Config \<Rightarrow> ('k, 'e) Guard \<Rightarrow> string \<Rightarrow> int \<Rightarrow> bool" where
  "ipBlocked cfg g ip now =
     (if ip = [] \<or> cf_fails cfg < 0 then False
      else case map_of (gd_ips g) ip of
        None \<Rightarrow> False
      | Some (start, fails) \<Rightarrow> if now - start \<ge> window then False else fails \<ge> cf_fails cfg)"

definition recordFail :: "Config \<Rightarrow> ('k, 'e) Guard \<Rightarrow> string \<Rightarrow> int \<Rightarrow> ('k, 'e) Guard" where
  "recordFail cfg g ip now =
     (if ip = [] \<or> cf_fails cfg < 0 then g
      else case map_of (gd_ips g) ip of
        Some (start, fails) \<Rightarrow>
          if now - start \<ge> window then g\<lparr>gd_ips := AList.update ip (now, 1) (gd_ips g)\<rparr>
          else g\<lparr>gd_ips := AList.update ip (start, fails + 1) (gd_ips g)\<rparr>
      | None \<Rightarrow>
          (let ips = (if length (gd_ips g) \<ge> cf_trackedIPs cfg
                      then let keep = filter (\<lambda>(k, start, n). \<not> now - start \<ge> window) (gd_ips g)
                           in if length keep \<ge> cf_trackedIPs cfg then [] else keep
                      else gd_ips g)
           in g\<lparr>gd_ips := AList.update ip (now, 1) ips\<rparr>))"

text \<open>\<open>order\<close> is the order in which the range loop meets the entries.\<close>

definition evictNeg :: "Config \<Rightarrow> (('k \<times> 'e \<times> int) list \<Rightarrow> ('k \<times> 'e \<times> int) list) \<Rightarrow> int
    \<Rightarrow> ('k \<times> 'e \<times> int) list \<Rightarrow> ('k \<times> 'e \<times> int) list" where
  "evictNeg cfg order now neg =
     (let live = filter (\<lambda>(k, e, expires). now < expires) neg in
      if length live \<ge> cf_negMax cfg then drop (max 1 (cf_negMax cfg div 2)) (order live) else live)"

text \<open>The first critical section: a decision, or a lookup to make.\<close>

datatype 'e verdict = TooManyAttempts | Cached 'e | Lookup

definition validate_begin :: "Config \<Rightarrow> ('k, 'e) Guard \<Rightarrow> 'k \<Rightarrow> string \<Rightarrow> int \<Rightarrow> 'e verdict \<times> ('k, 'e) Guard" where
  "validate_begin cfg g kh ip now =
     (if ipBlocked cfg g ip now then (TooManyAttempts, g\<lparr>gd_blocked := gd_blocked g + 1\<rparr>)
      else case map_of (gd_neg g) kh of
        Some (e, expires) \<Rightarrow>
          if now < expires then (Cached e, recordFail cfg (g\<lparr>gd_hits := gd_hits g + 1\<rparr>) ip now)
          else (Lookup, g\<lparr>gd_neg := AList.delete kh (gd_neg g), gd_lookups := gd_lookups g + 1\<rparr>)
      | None \<Rightarrow> (Lookup, g\<lparr>gd_lookups := gd_lookups g + 1\<rparr>))"

text \<open>What the store says: the key is good, the store could not answer (or the caller gave up), or the
  key is bad.\<close>

datatype ('v, 'e) lookup = Good 'v | Unavailable 'e | Bad 'e

definition validate_end :: "Config \<Rightarrow> (('k \<times> 'e \<times> int) list \<Rightarrow> ('k \<times> 'e \<times> int) list) \<Rightarrow> ('k, 'e) Guard \<Rightarrow> 'k
    \<Rightarrow> string \<Rightarrow> int \<Rightarrow> ('v, 'e) lookup \<Rightarrow> ('e + 'v) \<times> ('k, 'e) Guard" where
  "validate_end cfg order g kh ip now r =
     (case r of
        Good v \<Rightarrow> (Inr v, g)
      | Unavailable e \<Rightarrow> (Inl e, g)
      | Bad e \<Rightarrow>
          (let neg = (if length (gd_neg g) \<ge> cf_negMax cfg then evictNeg cfg order now (gd_neg g) else gd_neg g);
               g1 = g\<lparr>gd_neg := AList.update kh (e, now + cf_ttl cfg) neg\<rparr>
           in (Inl e, recordFail cfg g1 ip now)))"

section \<open>The tables stay bounded\<close>

text \<open>Any interleaving of the critical sections of any calls.\<close>

inductive auth_step :: "Config \<Rightarrow> ('k, 'e) Guard \<Rightarrow> ('k, 'e) Guard \<Rightarrow> bool" for cfg where
  begin_call: "auth_step cfg g (snd (validate_begin cfg g kh ip now))"
| end_call: "length (order l) = length l \<Longrightarrow>
    l = filter (\<lambda>(k, e, expires). now < expires) (gd_neg g) \<Longrightarrow>
    auth_step cfg g (snd (validate_end cfg order g kh ip now (r :: (unit, 'e) lookup)))"

inductive_cases auth_stepE: "auth_step cfg g g'"

definition guard_bounded :: "Config \<Rightarrow> ('k, 'e) Guard \<Rightarrow> bool" where
  "guard_bounded cfg g \<longleftrightarrow> length (gd_neg g) \<le> cf_negMax cfg \<and> length (gd_ips g) \<le> cf_trackedIPs cfg"

lemma update_length: "length (AList.update k v al) \<le> length al + 1"
  "k \<in> fst ` set al \<Longrightarrow> length (AList.update k v al) = length al"
  by (induction al) auto

lemma recordFail_neg [simp]: "gd_neg (recordFail cfg g ip now) = gd_neg g"
  by (auto simp: recordFail_def Let_def split: option.splits prod.splits)

lemma recordFail_lookups [simp]: "gd_lookups (recordFail cfg g ip now) = gd_lookups g"
  by (auto simp: recordFail_def Let_def split: option.splits prod.splits)

lemma recordFail_ips:
  assumes "length (gd_ips g) \<le> cf_trackedIPs cfg" "0 < cf_trackedIPs cfg"
  shows "length (gd_ips (recordFail cfg g ip now)) \<le> cf_trackedIPs cfg"
proof -
  define ips where "ips = (if length (gd_ips g) \<ge> cf_trackedIPs cfg
      then let keep = filter (\<lambda>(k, start, n). \<not> now - start \<ge> window) (gd_ips g)
           in if length keep \<ge> cf_trackedIPs cfg then [] else keep
      else gd_ips g)"
  have "length ips < cf_trackedIPs cfg" using assms by (auto simp: ips_def Let_def not_le)
  then have new: "length (AList.update ip (now, 1) ips) \<le> cf_trackedIPs cfg"
    using update_length(1) [of ip "(now, 1)" ips] by linarith
  show ?thesis
  proof (cases "map_of (gd_ips g) ip")
    case None
    then have "recordFail cfg g ip now = (if ip = [] \<or> cf_fails cfg < 0 then g
        else g\<lparr>gd_ips := AList.update ip (now, 1) ips\<rparr>)"
      unfolding recordFail_def ips_def Let_def by (simp only: option.case)
    then show ?thesis using new assms(1) by simp
  next
    case (Some x)
    then have "ip \<in> fst ` set (gd_ips g)" by (metis domI dom_map_of_conv_image_fst)
    then have "length (AList.update ip v (gd_ips g)) \<le> cf_trackedIPs cfg" for v
      using assms(1) update_length(2) by metis
    then show ?thesis using Some assms(1) by (cases x) (simp add: recordFail_def)
  qed
qed

lemma validate_end_neg:
  assumes "length (order l) = length l" "l = filter (\<lambda>(k, e, expires). now < expires) (gd_neg g)"
    and "length (gd_neg g) \<le> cf_negMax cfg" "0 < cf_negMax cfg"
  shows "length (gd_neg (snd (validate_end cfg order g kh ip now r))) \<le> cf_negMax cfg"
proof (cases r)
  case (Bad e)
  let ?neg = "if length (gd_neg g) \<ge> cf_negMax cfg then evictNeg cfg order now (gd_neg g) else gd_neg g"
  have "length l \<le> cf_negMax cfg" using assms(2,3) le_trans length_filter_le by blast
  then have "length ?neg < cf_negMax cfg"
    using assms(1,4) by (auto simp: evictNeg_def Let_def assms(2) [symmetric])
  then have "length (AList.update kh (e, now + cf_ttl cfg) ?neg) \<le> cf_negMax cfg"
    using update_length(1) [of kh "(e, now + cf_ttl cfg)" ?neg] by linarith
  then show ?thesis using Bad by (simp add: validate_end_def Let_def)
qed (use assms in \<open>simp_all add: validate_end_def\<close>)

text \<open>C39: However many callers try however many keys from however many addresses, at the same time, the
  negative cache and the table of addresses never outgrow their configured bounds.\<close>

theorem guard_tables_bounded:
  assumes "(auth_step (NewConfig ttl negMax fails tracked))\<^sup>*\<^sup>* NewGuard g"
  shows "length (gd_neg g) \<le> (if negMax \<le> 0 then 10000 else nat negMax)
    \<and> length (gd_ips g) \<le> (if tracked \<le> 0 then 10000 else nat tracked)"
proof -
  let ?c = "NewConfig ttl negMax fails tracked"
  have pos: "0 < cf_negMax ?c" "0 < cf_trackedIPs ?c" by (simp_all add: NewConfig_def)
  have step: "guard_bounded ?c h'" if "auth_step ?c h h'" "guard_bounded ?c h" for h h' :: "('a, 'b) Guard"
    using that
  proof (cases rule: auth_step.cases)
    case (begin_call kh ip now)
    have "length (AList.delete kh (gd_neg h)) \<le> cf_negMax ?c"
      using that(2) AList.length_delete_le [of kh "gd_neg h"] by (simp add: guard_bounded_def)
    then show ?thesis using begin_call that(2) pos(2)
      by (auto simp: validate_begin_def guard_bounded_def intro!: recordFail_ips split: option.splits)
  next
    case (end_call order l now kh ip r)
    then have "length (gd_neg h') \<le> cf_negMax ?c"
      using that(2) pos validate_end_neg [of order l now h ?c kh ip r] by (simp add: guard_bounded_def)
    then show ?thesis using end_call that(2) pos
      by (cases r) (auto simp: validate_end_def guard_bounded_def Let_def intro!: recordFail_ips)
  qed
  have new: "guard_bounded ?c NewGuard" by (simp add: guard_bounded_def NewGuard_def)
  have "guard_bounded ?c g"
    using assms by (induction rule: rtranclp_induct) (use new step in blast)+
  then show ?thesis by (simp add: guard_bounded_def NewConfig_def)
qed

theorem guard_tables_bounded_witness:
  "length (gd_neg (snd (validate_end (NewConfig 0 1 0 0) id (NewGuard :: (nat, nat) Guard) 7 ''a'' 0 (Bad 3 :: (unit, nat) lookup)))) \<le> 1"
proof -
  have "auth_step (NewConfig 0 1 0 0) NewGuard
      (snd (validate_end (NewConfig 0 1 0 0) id (NewGuard :: (nat, nat) Guard) 7 ''a'' 0 (Bad 3 :: (unit, nat) lookup)))"
    by (rule auth_step.end_call) simp_all
  then have "(auth_step (NewConfig 0 1 0 0))\<^sup>*\<^sup>* NewGuard
      (snd (validate_end (NewConfig 0 1 0 0) id (NewGuard :: (nat, nat) Guard) 7 ''a'' 0 (Bad 3 :: (unit, nat) lookup)))"
    by (rule r_into_rtranclp)
  from guard_tables_bounded [OF this] show ?thesis by simp
qed

section \<open>What a call decides\<close>


end
