(* ===== verification/AuditTrail.thy ===== *)
theory AuditTrail
  imports Json Sha256
begin

text \<open>
  The audit trail of \<^verbatim>\<open>src/internal/audit/audit.go\<close>, \<^verbatim>\<open>checkpoint.go\<close> and \<^verbatim>\<open>verification_reader.go\<close>: the
  keyed hash chain over the events, \<^verbatim>\<open>Record\<close> with its cached head, checkpoints, and \<^verbatim>\<open>Verify\<close> with its
  paged walk.  The two tables are lists in the order of insertion; whether a statement succeeds, and
  whether a failed insert was stored nevertheless, is an argument.
\<close>

section \<open>HMAC-SHA256 and hexadecimal text\<close>

unbundle bit_operations_syntax

definition xor_byte :: "8 word \<Rightarrow> char \<Rightarrow> char" where
  "xor_byte k c = byte_of (unat (k XOR of_nat (of_char c)))"

definition hmac_block :: "bytes \<Rightarrow> bytes" where
  "hmac_block key = (let k = (if length key > 64 then map byte_of (Sum256 key) else key)
     in k @ replicate (64 - length k) (byte_of 0))"

definition hmac :: "bytes \<Rightarrow> bytes \<Rightarrow> nat list" where
  "hmac key m = Sum256 (map (xor_byte 0x5c) (hmac_block key)
     @ map byte_of (Sum256 (map (xor_byte 0x36) (hmac_block key) @ m)))"

definition EncodeToString :: "nat list \<Rightarrow> string" where
  "EncodeToString bs = concat (map (\<lambda>b. [hex_digit (b div 16), hex_digit (b mod 16)]) bs)"

section \<open>Events, keys and checkpoints\<close>

record AuditEvent =
  AuditID :: string
  au_TenantID :: string
  au_SiteID :: string
  au_Timestamp :: int
  Actor :: string
  ActorType :: string
  Action :: string
  Target :: string
  au_Result :: string
  SourceIP :: string
  UserAgent :: string
  Metadata :: string
  au_Seq :: int
  PrevHash :: string
  Hash :: string
  au_KeyID :: string

datatype KeyStatus = KeyStatusDedicated | KeyStatusPersistent | KeyStatusFallback | KeyStatusUnkeyed

record KeyMaterial =
  km_ID :: string
  km_Key :: bytes

record Keyring =
  kr_Status :: KeyStatus
  kr_Signer :: KeyMaterial
  kr_verify :: "(string \<times> bytes) list"
  kr_legacy :: "bytes list"
  kr_keyFile :: string

definition Keyed :: "Keyring \<Rightarrow> bool" where
  "Keyed kr \<longleftrightarrow> kr_Status kr \<noteq> KeyStatusUnkeyed"

definition KeyFor :: "Keyring \<Rightarrow> string \<Rightarrow> bytes option" where
  "KeyFor kr i = (if i = [] then None else map_of (kr_verify kr) i)"

record AuditCheckpoint =
  CheckpointID :: string
  cp_Seq :: int
  HeadHash :: string
  Digest :: string
  cp_KeyID :: string
  CreatedAt :: int

datatype audit_error =
  ActionRequired | HeadUnreadable | AppendFailed string | EmptyChain | CheckpointWriteFailed | ReadFailed

section \<open>Hashing and classification of rows\<close>

definition mac_field :: "string \<Rightarrow> bytes" where
  "mac_field v = be64 (length v) @ v"

definition mac_values :: "AuditEvent \<Rightarrow> string list" where
  "mac_values ev = [PrevHash ev, print_int (au_Seq ev), print_int (au_Timestamp ev), AuditID ev, au_TenantID ev,
     au_SiteID ev, Actor ev, ActorType ev, Action ev, Target ev, au_Result ev, SourceIP ev, UserAgent ev,
     Metadata ev]"

definition mac_input :: "AuditEvent \<Rightarrow> bytes" where
  "mac_input ev = concat (map mac_field (mac_values ev))"

definition computeHashWith :: "bytes \<Rightarrow> AuditEvent \<Rightarrow> string" where
  "computeHashWith key ev = EncodeToString (hmac key (mac_input ev))"

text \<open>A nil keyring is \<open>None\<close>.\<close>

definition signer_key :: "Keyring option \<Rightarrow> bytes" where
  "signer_key ks = (case ks of None \<Rightarrow> [] | Some kr \<Rightarrow> km_Key (kr_Signer kr))"

definition computeHash :: "Keyring option \<Rightarrow> AuditEvent \<Rightarrow> string" where
  "computeHash ks ev = computeHashWith (signer_key ks) ev"

datatype rowMatch = matchNone | matchKeyed | matchLegacy | matchUnkeyed

definition rowMatchKind :: "Keyring option \<Rightarrow> AuditEvent \<Rightarrow> rowMatch" where
  "rowMatchKind ks ev =
     (let unkeyed = (if computeHashWith [] ev = Hash ev then matchUnkeyed else matchNone) in
      case ks of None \<Rightarrow> unkeyed
      | Some kr \<Rightarrow>
          if au_KeyID ev = [] then
            (if list_ex (\<lambda>k. 0 < length k \<and> computeHashWith k ev = Hash ev) (kr_legacy kr) then matchLegacy else unkeyed)
          else (case KeyFor kr (au_KeyID ev) of None \<Rightarrow> matchNone
                | Some k \<Rightarrow> if computeHashWith k ev = Hash ev then matchKeyed else matchNone))"

definition rowHashMatches :: "Keyring option \<Rightarrow> AuditEvent \<Rightarrow> bool" where
  "rowHashMatches ks ev \<longleftrightarrow> rowMatchKind ks ev \<noteq> matchNone"

definition keyKnown :: "Keyring option \<Rightarrow> string \<Rightarrow> bool" where
  "keyKnown ks i = (case ks of None \<Rightarrow> True | Some kr \<Rightarrow> i = [] \<or> KeyFor kr i \<noteq> None)"

section \<open>Writing\<close>

record audit_db =
  audit_events :: "AuditEvent list"
  audit_checkpoints :: "AuditCheckpoint list"

record Service =
  sv_keys :: "Keyring option"
  lastHash :: string
  lastSeq :: int
  sv_loaded :: bool

definition NewServiceWithKeys :: "Keyring option \<Rightarrow> Service" where
  "NewServiceWithKeys ks = \<lparr>sv_keys = ks, lastHash = [], lastSeq = 0, sv_loaded = False\<rparr>"

text \<open>What the outside answers during one call.\<close>

record audit_env =
  en_now :: int
  en_genID :: string
  en_load :: bool                \<comment> \<open>whether the head can be read\<close>
  en_insert :: insert_outcome
  en_cpNow :: int
  en_cpID :: string
  en_cpInsert :: insert_outcome

definition loadStateLocked :: "audit_env \<Rightarrow> audit_db \<Rightarrow> Service \<Rightarrow> audit_error option \<times> Service" where
  "loadStateLocked en d s =
     (if \<not> en_load en then (Some HeadUnreadable, s)
      else (None, (case max_row au_Seq (audit_events d) of None \<Rightarrow> s
                   | Some r \<Rightarrow> s\<lparr>lastSeq := au_Seq r, lastHash := Hash r\<rparr>)\<lparr>sv_loaded := True\<rparr>))"

definition checkpointDigest :: "bytes \<Rightarrow> int \<Rightarrow> string \<Rightarrow> string" where
  "checkpointDigest key n headHash =
     EncodeToString (hmac key (''observe-audit-checkpoint'' @ [nl] @ print_int n @ [nl] @ headHash))"

definition VerifyCheckpointDigest :: "AuditCheckpoint \<Rightarrow> bytes \<Rightarrow> bool" where
  "VerifyCheckpointDigest cp key \<longleftrightarrow> checkpointDigest key (cp_Seq cp) (HeadHash cp) = Digest cp"

definition CheckpointEvery :: int where "CheckpointEvery = 1000"

definition signer_id :: "Keyring option \<Rightarrow> string" where
  "signer_id ks = (case ks of None \<Rightarrow> [] | Some kr \<Rightarrow> km_ID (kr_Signer kr))"

definition head_checkpoint :: "audit_env \<Rightarrow> Service \<Rightarrow> AuditCheckpoint" where
  "head_checkpoint en s = \<lparr>CheckpointID = en_cpID en, cp_Seq = lastSeq s, HeadHash = lastHash s,
     Digest = checkpointDigest (signer_key (sv_keys s)) (lastSeq s) (lastHash s),
     cp_KeyID = signer_id (sv_keys s), CreatedAt = en_cpNow en\<rparr>"

definition checkpointLocked :: "audit_env \<Rightarrow> audit_db \<Rightarrow> Service
    \<Rightarrow> (audit_error + AuditCheckpoint) \<times> audit_db \<times> Service" where
  "checkpointLocked en d s =
     (case (if sv_loaded s then (None, s) else loadStateLocked en d s) of
        (Some e, s) \<Rightarrow> (Inl e, d, s)
      | (None, s) \<Rightarrow>
          if lastSeq s = 0 then (Inl EmptyChain, d, s)
          else let cp = head_checkpoint en s in
            (case insert_row (en_cpInsert en) cp (audit_checkpoints d) of (ok, cps) \<Rightarrow>
               (if ok then Inr cp else Inl CheckpointWriteFailed, d\<lparr>audit_checkpoints := cps\<rparr>, s)))"

definition or_default :: "string \<Rightarrow> string \<Rightarrow> string" where
  "or_default v w = (if v = [] then w else v)"

definition event_defaults :: "audit_env \<Rightarrow> AuditEvent \<Rightarrow> AuditEvent" where
  "event_defaults en ev = ev\<lparr>AuditID := or_default (AuditID ev) (en_genID en),
     au_Timestamp := (if au_Timestamp ev = 0 then en_now en else au_Timestamp ev),
     au_TenantID := or_default (au_TenantID ev) ''default'', au_SiteID := or_default (au_SiteID ev) ''default'',
     ActorType := or_default (ActorType ev) ''user'', au_Result := or_default (au_Result ev) ''success'',
     Metadata := or_default (Metadata ev) ''{}''\<rparr>"

definition chain_event :: "Service \<Rightarrow> AuditEvent \<Rightarrow> AuditEvent" where
  "chain_event s ev = (let ks = sv_keys s;
       ev = ev\<lparr>au_Seq := lastSeq s + 1, PrevHash := lastHash s\<rparr>;
       ev = (case ks of None \<Rightarrow> ev | Some kr \<Rightarrow> if Keyed kr then ev\<lparr>au_KeyID := km_ID (kr_Signer kr)\<rparr> else ev)
     in ev\<lparr>Hash := computeHash ks ev\<rparr>)"

definition Record :: "audit_env \<Rightarrow> AuditEvent \<Rightarrow> audit_db \<Rightarrow> Service
    \<Rightarrow> (audit_error option \<times> audit_db \<times> Service)" where
  "Record en ev d s =
     (if TrimSpace (Action ev) = [] then (Some ActionRequired, d, s) else
      case (if sv_loaded s then (None, s) else loadStateLocked en d s) of
        (Some e, s) \<Rightarrow> (Some e, d, s)
      | (None, s) \<Rightarrow>
          let ev = chain_event s (event_defaults en ev) in
          (case insert_row (en_insert en) ev (audit_events d) of (ok, rows) \<Rightarrow>
             let d = d\<lparr>audit_events := rows\<rparr> in
             if \<not> ok then (Some (AppendFailed (AuditID ev)), d, s\<lparr>sv_loaded := False\<rparr>)
             else let s = s\<lparr>lastSeq := au_Seq ev, lastHash := Hash ev\<rparr> in
               if lastSeq s mod CheckpointEvery = 0
               then (case checkpointLocked en d s of (_, d, s) \<Rightarrow> (None, d, s))
               else (None, d, s)))"

section \<open>Verification\<close>

datatype detail =
    NoDetail | SequenceGap int int | PrevHashMismatch | UnknownKeyID string | HashMismatch
  | OutsideDomain | MissingRecords int | DuplicateSequence int | BelowCheckpoint int int
  | CheckpointRewritten int | EmptyKeyRecords int nat | NarrowIntact int

record VerifyResult =
  Intact :: bool
  vr_Count :: nat
  BrokenAtSeq :: int
  vr_Detail :: detail
  Authenticated :: bool
  UnkeyedCount :: nat
  VerifiedThroughSeq :: int
  LatestCheckpoint :: "AuditCheckpoint option"
  CheckpointMatch :: bool
  HasCheckpoint :: bool

definition no_result :: VerifyResult where
  "no_result = \<lparr>Intact = False, vr_Count = 0, BrokenAtSeq = 0, vr_Detail = NoDetail, Authenticated = False,
     UnkeyedCount = 0, VerifiedThroughSeq = 0, LatestCheckpoint = None, CheckpointMatch = False,
     HasCheckpoint = False\<rparr>"

definition broken_at :: "int \<Rightarrow> nat \<Rightarrow> int \<Rightarrow> detail \<Rightarrow> VerifyResult" where
  "broken_at through n at why = no_result\<lparr>vr_Count := n, BrokenAtSeq := at, VerifiedThroughSeq := through,
     vr_Detail := why\<rparr>"

definition chainBreakDetail :: "Keyring option \<Rightarrow> AuditEvent \<Rightarrow> int \<Rightarrow> string \<Rightarrow> detail" where
  "chainBreakDetail ks ev expectSeq prev =
     (if au_Seq ev \<noteq> expectSeq then SequenceGap expectSeq (au_Seq ev)
      else if PrevHash ev \<noteq> prev then PrevHashMismatch
      else if \<not> keyKnown ks (au_KeyID ev) then UnknownKeyID (au_KeyID ev)
      else HashMismatch)"

text \<open>The interface \<^verbatim>\<open>verificationReader\<close>.\<close>

record reader =
  rd_invalid :: "audit_error + int option"
  rd_head :: "audit_error + int"
  rd_checkpoint :: "audit_error + AuditCheckpoint option"
  rd_page :: "int \<Rightarrow> int \<Rightarrow> nat \<Rightarrow> audit_error + AuditEvent list"

definition verificationSnapshot :: "reader \<Rightarrow> audit_error + (int + int \<times> AuditCheckpoint option)" where
  "verificationSnapshot r =
     (case rd_invalid r of Inl e \<Rightarrow> Inl e
      | Inr (Some n) \<Rightarrow> Inr (Inl n)
      | Inr None \<Rightarrow> (case rd_head r of Inl e \<Rightarrow> Inl e
          | Inr h \<Rightarrow> (case rd_checkpoint r of Inl e \<Rightarrow> Inl e | Inr cp \<Rightarrow> Inr (Inr (h, cp)))))"

text \<open>The variables of the walk.\<close>

record walk =
  wk_prev :: string
  expectSeq :: int
  checked :: nat
  unkeyed :: nat
  wk_last :: int
  hashAtCheckpoint :: string
  checkpointReached :: bool

definition walk_start :: walk where
  "walk_start = \<lparr>wk_prev = [], expectSeq = 1, checked = 0, unkeyed = 0, wk_last = 0, hashAtCheckpoint = [],
     checkpointReached = False\<rparr>"

definition walk_row :: "Keyring option \<Rightarrow> AuditCheckpoint option \<Rightarrow> AuditEvent \<Rightarrow> walk \<Rightarrow> walk" where
  "walk_row ks cp ev p =
     (let at = (case cp of None \<Rightarrow> False | Some c \<Rightarrow> au_Seq ev = cp_Seq c) in
      \<lparr>wk_prev = Hash ev, expectSeq = expectSeq p + 1, checked = checked p + 1,
       unkeyed = (if rowMatchKind ks ev = matchUnkeyed then unkeyed p + 1 else unkeyed p),
       wk_last = au_Seq ev,
       hashAtCheckpoint = (if at then Hash ev else hashAtCheckpoint p),
       checkpointReached = (checkpointReached p \<or> at)\<rparr>)"

fun walk_rows :: "Keyring option \<Rightarrow> AuditCheckpoint option \<Rightarrow> int \<Rightarrow> AuditEvent list \<Rightarrow> walk \<Rightarrow> VerifyResult + walk" where
  "walk_rows ks cp through [] p = Inr p"
| "walk_rows ks cp through (ev # rows) p =
     (if au_Seq ev \<noteq> expectSeq p \<or> PrevHash ev \<noteq> wk_prev p \<or> \<not> keyKnown ks (au_KeyID ev)
         \<or> rowMatchKind ks ev = matchNone
      then Inl (broken_at through (checked p) (au_Seq ev) (chainBreakDetail ks ev (expectSeq p) (wk_prev p)))
      else walk_rows ks cp through rows (walk_row ks cp ev p))"

definition pageSize :: nat where "pageSize = 500"

lemma walk_rows_last:
  "walk_rows ks cp through rows p = Inr p' \<Longrightarrow> rows \<noteq> []
    \<Longrightarrow> wk_last p' = expectSeq p' - 1 \<and> expectSeq p' = expectSeq p + int (length rows)"
proof (induction rows arbitrary: p)
  case (Cons ev rows)
  then have "au_Seq ev = expectSeq p" and run: "walk_rows ks cp through rows (walk_row ks cp ev p) = Inr p'"
    by (auto split: if_splits)
  then have ev: "wk_last (walk_row ks cp ev p) = expectSeq p" "expectSeq (walk_row ks cp ev p) = expectSeq p + 1"
    by (simp_all add: walk_row_def Let_def)
  show ?case
  proof (cases "rows = []")
    case True
    then show ?thesis using run ev by auto
  next
    case False
    show ?thesis using Cons.IH [OF run False] ev by simp
  qed
qed simp

function walk_pages :: "Keyring option \<Rightarrow> AuditCheckpoint option \<Rightarrow> (int \<Rightarrow> int \<Rightarrow> nat \<Rightarrow> audit_error + AuditEvent list)
    \<Rightarrow> int \<Rightarrow> walk \<Rightarrow> audit_error + (VerifyResult + walk)" where
  "walk_pages ks cp page through p =
     (if wk_last p < through then
        (case page (wk_last p) through (pageSize + 1) of Inl e \<Rightarrow> Inl e
         | Inr rows \<Rightarrow>
            if rows = [] then
              Inr (Inl (broken_at through (checked p) (wk_last p + 1) (MissingRecords through)))
            else if length rows > pageSize \<and> au_Seq (rows ! (pageSize - 1)) = au_Seq (rows ! pageSize) then
              Inr (Inl (broken_at through (checked p) (au_Seq (rows ! pageSize)) (DuplicateSequence (au_Seq (rows ! pageSize)))))
            else (case walk_rows ks cp through (take pageSize rows) p of
                    Inl r \<Rightarrow> Inr (Inl r)
                  | Inr p' \<Rightarrow> walk_pages ks cp page through p'))
      else Inr (Inr p))"
  by pat_completeness auto
termination
proof (relation "measures [\<lambda>(ks, cp, page, through, p). if wk_last p = expectSeq p - 1 then 0 else 1,
      \<lambda>(ks, cp, page, through, p). nat (through - wk_last p)]", goal_cases)
  case (2 ks cp page through p rows p')
  then have "take pageSize rows \<noteq> []" by (simp add: pageSize_def)
  from walk_rows_last [OF 2(5) this] this 2(1) show ?case by (cases rows) (auto simp: pageSize_def)
qed simp

declare walk_pages.simps [simp del]

definition verify_end :: "AuditCheckpoint option \<Rightarrow> int \<Rightarrow> walk \<Rightarrow> VerifyResult" where
  "verify_end cp through p =
     (let res = no_result\<lparr>Intact := True, vr_Count := checked p, VerifiedThroughSeq := through\<rparr>;
          sealed = (\<lambda>res. if 0 < unkeyed p
            then res\<lparr>Authenticated := False, UnkeyedCount := unkeyed p, vr_Detail := EmptyKeyRecords through (unkeyed p)\<rparr>
            else res\<lparr>Authenticated := True, vr_Detail := NarrowIntact through\<rparr>)
      in case cp of None \<Rightarrow> sealed res
         | Some c \<Rightarrow>
            let m = (checkpointReached p \<and> hashAtCheckpoint p = HeadHash c);
                res = res\<lparr>HasCheckpoint := True, LatestCheckpoint := Some c, CheckpointMatch := m\<rparr>
            in if through < cp_Seq c then
                 res\<lparr>Intact := False, BrokenAtSeq := through + 1, vr_Detail := BelowCheckpoint through (cp_Seq c)\<rparr>
               else if \<not> m then
                 res\<lparr>Intact := False, BrokenAtSeq := cp_Seq c, vr_Detail := CheckpointRewritten (cp_Seq c)\<rparr>
               else sealed res)"

definition Verify :: "Keyring option \<Rightarrow> reader \<Rightarrow> audit_error + VerifyResult" where
  "Verify ks r =
     (case verificationSnapshot r of Inl e \<Rightarrow> Inl e
      | Inr (Inl i) \<Rightarrow> Inr (no_result\<lparr>BrokenAtSeq := i, vr_Detail := OutsideDomain\<rparr>)
      | Inr (Inr (through, cp)) \<Rightarrow>
          (case walk_pages ks cp (rd_page r) through walk_start of Inl e \<Rightarrow> Inl e
           | Inr (Inl res) \<Rightarrow> Inr res
           | Inr (Inr p) \<Rightarrow> Inr (verify_end cp through p)))"

text \<open>\<^verbatim>\<open>nucleusVerificationReader\<close> on the tables: the snapshot reads them as they are, and the page after
  sequence \<open>lo\<close> is read when the rows \<open>later lo\<close> have been appended meanwhile.\<close>

definition latestCheckpoint :: "AuditCheckpoint list \<Rightarrow> AuditCheckpoint option" where
  "latestCheckpoint cps = (case max_row cp_Seq cps of None \<Rightarrow> None
     | Some m \<Rightarrow> max_row CreatedAt (filter (\<lambda>c. cp_Seq c = cp_Seq m) cps))"

definition page_rows :: "AuditEvent list \<Rightarrow> int \<Rightarrow> int \<Rightarrow> nat \<Rightarrow> AuditEvent list" where
  "page_rows rows lo through limit =
     take limit (sort_key au_Seq (filter (\<lambda>e. lo < au_Seq e \<and> au_Seq e \<le> through) rows))"

definition nucleusReader :: "audit_db \<Rightarrow> (int \<Rightarrow> AuditEvent list) \<Rightarrow> reader" where
  "nucleusReader d later = \<lparr>
     rd_invalid = Inr (map_option au_Seq (find (\<lambda>e. au_Seq e \<le> 0) (audit_events d))),
     rd_head = Inr (case max_row au_Seq (audit_events d) of None \<Rightarrow> 0 | Some e \<Rightarrow> au_Seq e),
     rd_checkpoint = Inr (latestCheckpoint (audit_checkpoints d)),
     rd_page = (\<lambda>lo through limit. Inr (page_rows (audit_events d @ later lo) lo through limit))\<rparr>"

text \<open>The pure core that the source keeps beside it.\<close>

fun verifyChain_from :: "(AuditEvent \<Rightarrow> string) \<Rightarrow> nat \<Rightarrow> string \<Rightarrow> int \<Rightarrow> AuditEvent list \<Rightarrow> VerifyResult" where
  "verifyChain_from hashFn n prev e [] = no_result\<lparr>Intact := True, vr_Count := n\<rparr>"
| "verifyChain_from hashFn n prev e (ev # rows) =
     (if au_Seq ev \<noteq> e then no_result\<lparr>vr_Count := n, BrokenAtSeq := au_Seq ev, vr_Detail := SequenceGap e (au_Seq ev)\<rparr>
      else if PrevHash ev \<noteq> prev then no_result\<lparr>vr_Count := n, BrokenAtSeq := au_Seq ev, vr_Detail := PrevHashMismatch\<rparr>
      else if hashFn ev \<noteq> Hash ev then no_result\<lparr>vr_Count := n, BrokenAtSeq := au_Seq ev, vr_Detail := HashMismatch\<rparr>
      else verifyChain_from hashFn n (Hash ev) (e + 1) rows)"

definition verifyChain :: "AuditEvent list \<Rightarrow> (AuditEvent \<Rightarrow> string) \<Rightarrow> VerifyResult" where
  "verifyChain rows hashFn = verifyChain_from hashFn (length rows) [] 1 rows"

end
