(* ===== verification/AuditKeys.thy ===== *)
theory AuditKeys
  imports AuditTrail
begin

text \<open>
  The keys of the audit chain (\<^verbatim>\<open>src/internal/audit/keys.go\<close>): key material as operators write it, the
  persistent key file, and the keyring that \<^verbatim>\<open>LoadKeyring\<close> resolves from the environment.
\<close>

section \<open>Base64\<close>

definition b64_char :: "nat \<Rightarrow> char" where
  "b64_char n = byte (if n < 26 then 65 + n else if n < 52 then 71 + n else if n < 62 then n - 4
     else if n = 62 then 43 else 47)"

definition b64_val :: "char \<Rightarrow> nat option" where
  "b64_val c = (let n = of_char c in
     if 65 \<le> n \<and> n \<le> 90 then Some (n - 65) else if 97 \<le> n \<and> n \<le> 122 then Some (n - 71)
     else if 48 \<le> n \<and> n \<le> 57 then Some (n + 4) else if n = 43 then Some 62
     else if n = 47 then Some 63 else None)"

abbreviation b64_pad :: char where "b64_pad \<equiv> CHR ''=''"

text \<open>\<^verbatim>\<open>base64.StdEncoding\<close>: quanta of four characters, the last one padded; line breaks are skipped.\<close>

fun b64_quanta :: "string \<Rightarrow> bytes option" where
  "b64_quanta [] = Some []"
| "b64_quanta (a # b # c # d # r) =
     (case (b64_val a, b64_val b, b64_val c, b64_val d) of
        (Some u, Some v, Some x, Some y) \<Rightarrow>
          map_option (\<lambda>bs. byte (4 * u + v div 16) # byte (16 * (v mod 16) + x div 4) # byte (64 * (x mod 4) + y) # bs)
            (b64_quanta r)
      | (Some u, Some v, Some x, None) \<Rightarrow>
          if d = b64_pad \<and> r = [] then Some [byte (4 * u + v div 16), byte (16 * (v mod 16) + x div 4)] else None
      | (Some u, Some v, None, None) \<Rightarrow>
          if c = b64_pad \<and> d = b64_pad \<and> r = [] then Some [byte (4 * u + v div 16)] else None
      | _ \<Rightarrow> None)"
| "b64_quanta _ = None"

definition DecodeString :: "string \<Rightarrow> bytes option" where
  "DecodeString s = b64_quanta (filter (\<lambda>c. c \<noteq> nl \<and> c \<noteq> cr) s)"

fun b64_encode :: "bytes \<Rightarrow> string" where
  "b64_encode [] = []"
| "b64_encode [a] = (let x = of_char a :: nat in [b64_char (x div 4), b64_char (16 * (x mod 4)), b64_pad, b64_pad])"
| "b64_encode [a, b] = (let x = of_char a :: nat; y = of_char b in
     [b64_char (x div 4), b64_char (16 * (x mod 4) + y div 16), b64_char (4 * (y mod 16)), b64_pad])"
| "b64_encode (a # b # c # r) = (let x = of_char a :: nat; y = of_char b; z = of_char c in
     [b64_char (x div 4), b64_char (16 * (x mod 4) + y div 16), b64_char (4 * (y mod 16) + z div 64), b64_char (z mod 64)]
     @ b64_encode r)"

section \<open>Key material\<close>

datatype key_error =
    SpecEntry nat | SpecID nat | MaterialEmpty | MaterialShort | SpecMismatch nat | Ambiguous string
  | FileUnreadable | FileCorrupt | FileKeyShort | FileMismatch | NoRandomness | DirFailed | PublishFailed

definition minAuditKeyBytes :: nat where "minAuditKeyBytes = 32"

definition keyID :: "bytes \<Rightarrow> string" where
  "keyID key = EncodeToString (take 4 (Sum256 key))"

definition material :: "bytes \<Rightarrow> KeyMaterial" where
  "material key = \<lparr>km_ID = keyID key, km_Key = key\<rparr>"

definition parseKeyMaterial :: "string \<Rightarrow> key_error + KeyMaterial" where
  "parseKeyMaterial raw =
     (let trimmed = TrimSpace raw;
          plain = (if minAuditKeyBytes \<le> length trimmed then Inr (material trimmed) else Inl MaterialShort) in
      if trimmed = [] then Inl MaterialEmpty
      else case DecodeString trimmed of
          Some dec \<Rightarrow> if length trimmed mod 4 = 0
            then (if length dec < minAuditKeyBytes then Inl MaterialShort else Inr (material dec)) else plain
        | None \<Rightarrow> plain)"

definition isKeyIDShape :: "string \<Rightarrow> bool" where
  "isKeyIDShape s \<longleftrightarrow> list_all (\<lambda>c. let n = of_char c :: nat in (97 \<le> n \<and> n \<le> 122) \<or> (48 \<le> n \<and> n \<le> 57)) s"

section \<open>The keyring\<close>

definition putVerificationKey :: "string \<Rightarrow> bytes \<Rightarrow> Keyring \<Rightarrow> key_error + Keyring" where
  "putVerificationKey i key kr =
     (case map_of (kr_verify kr) i of
        Some prev \<Rightarrow> if prev \<noteq> key then Inl (Ambiguous i)
          else Inr (kr\<lparr>kr_verify := AList.update i key (kr_verify kr)\<rparr>)
      | None \<Rightarrow> Inr (kr\<lparr>kr_verify := AList.update i key (kr_verify kr)\<rparr>))"

fun dedup_onto :: "bytes list \<Rightarrow> bytes list \<Rightarrow> bytes list" where
  "dedup_onto out [] = out"
| "dedup_onto out (k # ks) = dedup_onto (if k \<in> set out then out else out @ [k]) ks"

definition dedupKeys :: "bytes list \<Rightarrow> bytes list" where
  "dedupKeys ks = dedup_onto [] ks"

text \<open>\<^verbatim>\<open>strings.Split\<close> and \<^verbatim>\<open>strings.Cut\<close> at one character.\<close>

fun Split :: "char \<Rightarrow> string \<Rightarrow> string list" where
  "Split sep [] = [[]]"
| "Split sep (c # s) = (if c = sep then [] # Split sep s
     else (case Split sep s of w # ws \<Rightarrow> (c # w) # ws | [] \<Rightarrow> [[c]]))"

definition Cut :: "char \<Rightarrow> string \<Rightarrow> (string \<times> string) option" where
  "Cut sep s = (case dropWhile (\<lambda>c. c \<noteq> sep) s of [] \<Rightarrow> None | _ # r \<Rightarrow> Some (takeWhile (\<lambda>c. c \<noteq> sep) s, r))"

text \<open>One entry of the rotation keyring, counted from \<open>pos\<close>.\<close>

definition spec_entry :: "nat \<Rightarrow> string \<Rightarrow> key_error + KeyMaterial" where
  "spec_entry pos entry =
     (case Cut (CHR '':'') entry of None \<Rightarrow> Inl (SpecEntry (pos + 1))
      | Some (i, b64) \<Rightarrow>
          let i = TrimSpace i in
          if length i < 1 \<or> 32 < length i \<or> \<not> isKeyIDShape i then Inl (SpecID (pos + 1))
          else case parseKeyMaterial b64 of Inl e \<Rightarrow> Inl e
            | Inr km \<Rightarrow> if km_ID km \<noteq> i then Inl (SpecMismatch (pos + 1)) else Inr km)"

fun load_spec :: "nat \<Rightarrow> string list \<Rightarrow> Keyring \<Rightarrow> bytes list \<Rightarrow> key_error + (Keyring \<times> bytes list)" where
  "load_spec pos [] kr historical = Inr (kr, historical)"
| "load_spec pos (entry # entries) kr historical =
     (if TrimSpace entry = [] then load_spec (pos + 1) entries kr historical
      else case spec_entry pos (TrimSpace entry) of Inl e \<Rightarrow> Inl e
        | Inr km \<Rightarrow> (case putVerificationKey (km_ID km) (km_Key km) kr of Inl e \<Rightarrow> Inl e
            | Inr kr' \<Rightarrow> load_spec (pos + 1) entries kr' (historical @ [km_Key km])))"

section \<open>The persistent key file\<close>

text \<open>The file's content is \<open>None\<close> while it does not exist.  A start reads it, and if there is none
  publishes fresh material without replacing what another process may have published meanwhile.\<close>

datatype link_outcome = Linked | LinkRefused

record key_fs =
  kf_readable :: bool                \<comment> \<open>whether reading gives the content, or says there is no file\<close>
  kf_random :: "bytes option"        \<comment> \<open>the fresh material\<close>
  kf_mkdir :: bool
  kf_temp :: bool                    \<comment> \<open>writing, syncing and closing the temporary file\<close>
  kf_raced :: "bytes option"         \<comment> \<open>what another process publishes in between\<close>
  kf_link :: link_outcome
  kf_create :: bool                  \<comment> \<open>exclusive creation, where links are refused\<close>
  kf_written :: "nat option"         \<comment> \<open>a write cut off after so many bytes\<close>
  kf_dirsync :: bool
  kf_rereadable :: bool

definition print_key_file :: "KeyMaterial \<Rightarrow> bytes" where
  "print_key_file km = print_json (JObj [(''key_id'', JStr (km_ID km)), (''key_b64'', JStr (b64_encode (km_Key km)))])"

definition parse_members_of :: "json \<Rightarrow> (string \<times> json) list option" where
  "parse_members_of v = (case v of JObj ms \<Rightarrow> Some ms | JNull \<Rightarrow> Some [] | _ \<Rightarrow> None)"

definition parseKeyFile :: "bytes \<Rightarrow> key_error + KeyMaterial" where
  "parseKeyFile raw =
     (case Option.bind (parse_json raw) parse_members_of of None \<Rightarrow> Inl FileCorrupt
      | Some ms \<Rightarrow>
         (case (fill dec_string ''key_id'' [] ms, fill dec_string ''key_b64'' [] ms) of
            (Some i, Some k) \<Rightarrow>
              (case DecodeString k of None \<Rightarrow> Inl FileKeyShort
               | Some dec \<Rightarrow> if length dec < minAuditKeyBytes then Inl FileKeyShort
                   else if i \<noteq> keyID dec then Inl FileMismatch else Inr \<lparr>km_ID = i, km_Key = dec\<rparr>)
          | _ \<Rightarrow> Inl FileCorrupt))"

text \<open>\<^verbatim>\<open>publishKeyNoReplace\<close>: success or an error, and the file afterwards.\<close>

definition publishKeyNoReplace :: "key_fs \<Rightarrow> bytes \<Rightarrow> bytes option \<Rightarrow> bool \<times> bytes option" where
  "publishKeyNoReplace fs data file =
     (if \<not> kf_temp fs then (False, file)
      else case kf_link fs of
        Linked \<Rightarrow> (case file of None \<Rightarrow> (kf_dirsync fs, Some data) | Some old \<Rightarrow> (True, Some old))
      | LinkRefused \<Rightarrow>
          if \<not> kf_create fs then (False, file)
          else (case file of Some old \<Rightarrow> (True, Some old)
              | None \<Rightarrow> (case kf_written fs of None \<Rightarrow> (True, Some data) | Some n \<Rightarrow> (False, Some (take n data)))))"

definition loadOrCreateKeyFile :: "key_fs \<Rightarrow> bytes option \<Rightarrow> (key_error + KeyMaterial) \<times> bytes option" where
  "loadOrCreateKeyFile fs file =
     (if \<not> kf_readable fs then (Inl FileUnreadable, file) else
      case file of
        Some raw \<Rightarrow> (parseKeyFile raw, file)
      | None \<Rightarrow>
         (case kf_random fs of None \<Rightarrow> (Inl NoRandomness, file)
          | Some key \<Rightarrow>
             if \<not> kf_mkdir fs then (Inl DirFailed, file)
             else (case publishKeyNoReplace fs (print_key_file (material key)) (kf_raced fs) of
                 (False, file') \<Rightarrow> (Inl PublishFailed, file')
               | (True, file') \<Rightarrow> (case file' of None \<Rightarrow> (Inl FileUnreadable, file')
                    | Some raw \<Rightarrow> (if kf_rereadable fs then parseKeyFile raw else Inl FileUnreadable, file')))))"

section \<open>Resolving the keyring\<close>

record KeyEnv =
  Dedicated :: string
  KeyringSpec :: string
  Fallback :: string
  File :: string

definition resolve_signer :: "KeyEnv \<Rightarrow> key_fs \<Rightarrow> bytes option \<Rightarrow> Keyring \<Rightarrow> key_error + Keyring" where
  "resolve_signer env fs file kr =
     (if TrimSpace (Dedicated env) \<noteq> [] then
        (case parseKeyMaterial (Dedicated env) of Inl e \<Rightarrow> Inl e
         | Inr km \<Rightarrow> Inr (kr\<lparr>kr_Status := KeyStatusDedicated, kr_Signer := km\<rparr>))
      else if File env \<noteq> [] then
        (case fst (loadOrCreateKeyFile fs file) of Inl e \<Rightarrow> Inl e
         | Inr km \<Rightarrow> Inr (kr\<lparr>kr_Status := KeyStatusPersistent, kr_Signer := km, kr_keyFile := File env\<rparr>))
      else if Fallback env \<noteq> [] then
        Inr (kr\<lparr>kr_Status := KeyStatusFallback, kr_Signer := material (Fallback env)\<rparr>)
      else Inr (kr\<lparr>kr_Status := KeyStatusUnkeyed\<rparr>))"

definition legacy_candidates :: "KeyEnv \<Rightarrow> Keyring \<Rightarrow> bytes list \<Rightarrow> bytes list" where
  "legacy_candidates env kr historical =
     (if Keyed kr then [km_Key (kr_Signer kr)] else [])
     @ (if TrimSpace (Dedicated env) \<noteq> [] then [TrimSpace (Dedicated env)] else [])
     @ (if Fallback env \<noteq> [] then [Fallback env] else []) @ historical"

definition empty_ring :: Keyring where
  "empty_ring = \<lparr>kr_Status = KeyStatusUnkeyed, kr_Signer = \<lparr>km_ID = [], km_Key = []\<rparr>, kr_verify = [], kr_legacy = [],
     kr_keyFile = []\<rparr>"

definition LoadKeyring :: "KeyEnv \<Rightarrow> key_fs \<Rightarrow> bytes option \<Rightarrow> key_error + Keyring" where
  "LoadKeyring env fs file =
     (case load_spec 0 (Split (CHR '','') (KeyringSpec env)) empty_ring [] of Inl e \<Rightarrow> Inl e
      | Inr (kr, historical) \<Rightarrow>
         (case resolve_signer env fs file kr of Inl e \<Rightarrow> Inl e
          | Inr kr \<Rightarrow>
             (case (if Keyed kr then putVerificationKey (km_ID (kr_Signer kr)) (km_Key (kr_Signer kr)) kr else Inr kr) of
                Inl e \<Rightarrow> Inl e
              | Inr kr \<Rightarrow> Inr (kr\<lparr>kr_legacy := dedupKeys (legacy_candidates env kr historical)\<rparr>))))"

definition RotationSpec :: "Keyring \<Rightarrow> string" where
  "RotationSpec kr = (if kr_keyFile kr = [] \<or> kr_Status kr \<noteq> KeyStatusPersistent then []
     else km_ID (kr_Signer kr) @ [CHR '':''] @ b64_encode (km_Key (kr_Signer kr)))"

text \<open>The constructor that takes one key.\<close>

definition NewService :: "bytes \<Rightarrow> Service" where
  "NewService key = NewServiceWithKeys (Some (
     let kr = empty_ring\<lparr>kr_legacy := dedupKeys [key]\<rparr> in
     if 0 < length key then kr\<lparr>kr_Status := KeyStatusDedicated, kr_Signer := material key, kr_verify := [(keyID key, key)]\<rparr>
     else kr))"

end
