(* ===== verification/AuditChain.thy ===== *)
theory AuditChain
  imports AuditTrail
begin

text \<open>
  The walk of \<^verbatim>\<open>Verify\<close> (\<^verbatim>\<open>src/internal/audit/audit.go\<close>) against the chain it checks: reading in pages,
  with rows appended meanwhile, finds exactly what one pass over the whole table would.
\<close>

section \<open>The chain\<close>

fun chain_from :: "Keyring option \<Rightarrow> string \<Rightarrow> int \<Rightarrow> AuditEvent list \<Rightarrow> bool" where
  "chain_from ks prev n [] \<longleftrightarrow> True"
| "chain_from ks prev n (e # es) \<longleftrightarrow> au_Seq e = n \<and> PrevHash e = prev \<and> keyKnown ks (au_KeyID e)
     \<and> rowMatchKind ks e \<noteq> matchNone \<and> chain_from ks (Hash e) (n + 1) es"

definition head_hash :: "string \<Rightarrow> AuditEvent list \<Rightarrow> string" where
  "head_hash prev es = (if es = [] then prev else Hash (last es))"

lemma chain_append:
  "chain_from ks prev n (es @ fs) \<longleftrightarrow> chain_from ks prev n es
     \<and> chain_from ks (head_hash prev es) (n + int (length es)) fs"
  by (induction es arbitrary: prev n) (auto simp: head_hash_def algebra_simps)

lemma chain_seq: "chain_from ks prev n es \<Longrightarrow> i < length es \<Longrightarrow> au_Seq (es ! i) = n + int i"
proof (induction es arbitrary: prev n i)
  case (Cons e es)
  then show ?case using Cons.IH [of "Hash e" "n + 1" "i - 1"] by (cases i) auto
qed simp

lemma chain_seqs: "chain_from ks prev n es \<Longrightarrow> map au_Seq es = map (\<lambda>i. n + int i) [0..<length es]"
  by (rule nth_equalityI) (auto simp: chain_seq)

lemma chain_sorted:
  assumes "chain_from ks prev n es"
  shows "sorted (map au_Seq es)" "distinct (map au_Seq es)"
  unfolding chain_seqs [OF assms] by (auto simp: sorted_iff_nth_mono distinct_conv_nth)

lemma chain_prev: "chain_from ks prev n es \<Longrightarrow> Suc i < length es \<Longrightarrow> PrevHash (es ! Suc i) = Hash (es ! i)"
proof (induction es arbitrary: prev n i)
  case (Cons e es)
  show ?case
  proof (cases i)
    case 0
    then show ?thesis using Cons.prems by (cases es) auto
  next
    case (Suc j)
    then show ?thesis using Cons.prems Cons.IH [of "Hash e" "n + 1" j] by auto
  qed
qed simp

lemma chain_first: "chain_from ks prev n es \<Longrightarrow> es \<noteq> [] \<Longrightarrow> PrevHash (es ! 0) = prev"
  by (cases es) auto

lemma chain_match: "chain_from ks prev n es \<Longrightarrow> e \<in> set es \<Longrightarrow> rowMatchKind ks e \<noteq> matchNone"
  by (induction es arbitrary: prev n) auto

section \<open>One pass\<close>

lemma walk_row_simps [simp]:
  "wk_prev (walk_row ks cp ev p) = Hash ev" "expectSeq (walk_row ks cp ev p) = expectSeq p + 1"
  "checked (walk_row ks cp ev p) = checked p + 1" "wk_last (walk_row ks cp ev p) = au_Seq ev"
  "unkeyed (walk_row ks cp ev p) = unkeyed p + (if rowMatchKind ks ev = matchUnkeyed then 1 else 0)"
  by (simp_all add: walk_row_def Let_def)

lemma walk_rows_iff:
  "walk_rows ks cp through es p = Inr p' \<longleftrightarrow> chain_from ks (wk_prev p) (expectSeq p) es \<and> p' = fold (walk_row ks cp) es p"
  by (induction es arbitrary: p) auto

lemma walk_rows_broken: "walk_rows ks cp through es p = Inl r \<Longrightarrow> \<not> Intact r \<and> \<not> Authenticated r"
  by (induction es arbitrary: p) (auto simp: broken_at_def no_result_def split: if_splits)

lemma walk_rows_append:
  "walk_rows ks cp through (es @ fs) p = (case walk_rows ks cp through es p of Inl r \<Rightarrow> Inl r
     | Inr p' \<Rightarrow> walk_rows ks cp through fs p')"
  by (induction es arbitrary: p) auto

definition at_checkpoint :: "AuditCheckpoint option \<Rightarrow> AuditEvent \<Rightarrow> bool" where
  "at_checkpoint cp e \<longleftrightarrow> (case cp of None \<Rightarrow> False | Some c \<Rightarrow> au_Seq e = cp_Seq c)"

lemma walk_fold:
  fixes es :: "AuditEvent list" and ks :: "Keyring option" and cp :: "AuditCheckpoint option"
  defines "q p \<equiv> fold (walk_row ks cp) es p"
  shows "checked (q p) = checked p + length es"
    and "unkeyed (q p) = unkeyed p + length (filter (\<lambda>e. rowMatchKind ks e = matchUnkeyed) es)"
    and "checkpointReached (q p) \<longleftrightarrow> checkpointReached p \<or> (\<exists>e \<in> set es. at_checkpoint cp e)"
    and "hashAtCheckpoint (q p) = head_hash (hashAtCheckpoint p) (filter (at_checkpoint cp) es)"
proof -
  show "checked (q p) = checked p + length es"
    unfolding q_def by (induction es arbitrary: p) auto
  show "unkeyed (q p) = unkeyed p + length (filter (\<lambda>e. rowMatchKind ks e = matchUnkeyed) es)"
    unfolding q_def by (induction es arbitrary: p) auto
  show "checkpointReached (q p) \<longleftrightarrow> checkpointReached p \<or> (\<exists>e \<in> set es. at_checkpoint cp e)"
    unfolding q_def by (induction es arbitrary: p) (auto simp: walk_row_def at_checkpoint_def Let_def)
  show "hashAtCheckpoint (q p) = head_hash (hashAtCheckpoint p) (filter (at_checkpoint cp) es)"
    unfolding q_def
    by (induction es arbitrary: p) (auto simp: walk_row_def at_checkpoint_def head_hash_def Let_def)
qed

lemma walk_rows_Inl: "walk_rows ks cp through es p = Inl r \<Longrightarrow> \<not> chain_from ks (wk_prev p) (expectSeq p) es"
  by (metis Inl_Inr_False walk_rows_iff)

lemma walk_start_simps [simp]:
  "wk_prev walk_start = []" "expectSeq walk_start = 1" "wk_last walk_start = 0" "checked walk_start = 0"
  "unkeyed walk_start = 0" "checkpointReached walk_start = False" "hashAtCheckpoint walk_start = []"
  by (simp_all add: walk_start_def)

lemma verify_end_facts:
  "Intact (verify_end cp through p) \<longleftrightarrow> (case cp of None \<Rightarrow> True
     | Some c \<Rightarrow> cp_Seq c \<le> through \<and> checkpointReached p \<and> hashAtCheckpoint p = HeadHash c)"
  "Authenticated (verify_end cp through p) \<longleftrightarrow> Intact (verify_end cp through p) \<and> unkeyed p = 0"
  "vr_Count (verify_end cp through p) = checked p"
  "VerifiedThroughSeq (verify_end cp through p) = through"
  "LatestCheckpoint (verify_end cp through p) = cp"
  by (auto simp: verify_end_def Let_def no_result_def split: option.split)

section \<open>Pages\<close>

lemma filter_beyond:
  assumes srt: "sorted (map f xs)" and k: "0 < k" "xs \<noteq> []" "v = f (last (take k xs))"
    and gap: "k < length xs \<Longrightarrow> f (xs ! (k - 1)) \<noteq> (f (xs ! k) :: 'a :: linorder)"
  shows "filter (\<lambda>e. v < f e) xs = drop k xs"
proof -
  let ?m = "min k (length xs) - 1"
  have m: "v = f (xs ! ?m)" "?m < length xs" "length (take k xs) = Suc ?m"
    using k by (auto simp: last_conv_nth min_def)
  have le: "i \<le> j \<Longrightarrow> j < length xs \<Longrightarrow> f (xs ! i) \<le> f (xs ! j)" for i j
    using srt by (simp add: sorted_iff_nth_mono)
  have "\<not> v < f e" if "e \<in> set (take k xs)" for e
  proof -
    from that obtain i where "i < length (take k xs)" "e = take k xs ! i" by (auto simp: in_set_conv_nth)
    moreover from this have "i \<le> ?m" using m(3) by (simp only: less_Suc_eq_le)
    ultimately show ?thesis using le [of i ?m] m(1,2) by simp
  qed
  moreover have "v < f e" if "e \<in> set (drop k xs)" for e
  proof -
    from that obtain i where "i < length (drop k xs)" "e = drop k xs ! i" by (auto simp: in_set_conv_nth)
    then have i: "k + i < length xs" "e = xs ! (k + i)" by auto
    then have lt: "k < length xs" and "v = f (xs ! (k - 1))" using m by auto
    then show ?thesis using le [of "k - 1" k] le [of k "k + i"] i gap [OF lt] by simp
  qed
  ultimately have "filter (\<lambda>e. v < f e) (take k xs @ drop k xs) = drop k xs"
    unfolding filter_append by (simp add: filter_empty_conv filter_id_conv)
  then show ?thesis by simp
qed

locale paged =
  fixes page :: "int \<Rightarrow> int \<Rightarrow> nat \<Rightarrow> audit_error + AuditEvent list"
    and srt :: "AuditEvent list"
    and through :: int
  assumes page_law: "page lo through limit = Inr es \<Longrightarrow> es = take limit (filter (\<lambda>e. lo < au_Seq e) srt)"
    and srt_sorted: "sorted (map au_Seq srt)"
    and upto: "e \<in> set srt \<Longrightarrow> au_Seq e \<le> through"
    and reached: "0 < through \<Longrightarrow> \<exists>e \<in> set srt. au_Seq e = through"
begin

definition rest :: "walk \<Rightarrow> AuditEvent list" where
  "rest p = filter (\<lambda>e. wk_last p < au_Seq e) srt"

lemma rest_facts:
  "sorted (map au_Seq (rest p))"
  "0 \<le> wk_last p \<Longrightarrow> wk_last p < through \<Longrightarrow> rest p \<noteq> []"
  "\<not> wk_last p < through \<Longrightarrow> rest p = []"
proof -
  show "sorted (map au_Seq (rest p))" using srt_sorted by (simp add: rest_def sorted_filter)
  assume "0 \<le> wk_last p" "wk_last p < through"
  then show "rest p \<noteq> []" using reached by (force simp: rest_def filter_empty_conv)
next
  assume "\<not> wk_last p < through"
  then show "rest p = []" using upto by (force simp: rest_def filter_empty_conv)
qed

lemma rest_step:
  assumes ne: "rest p \<noteq> []" and walk: "walk_rows ks cp through (take pageSize (rest p)) p = Inr p'"
    and dup: "\<not> (pageSize < length (rest p) \<and> au_Seq (rest p ! (pageSize - 1)) = au_Seq (rest p ! pageSize))"
  shows "rest p' = drop pageSize (rest p)" "wk_last p \<le> wk_last p'" "wk_last p' = expectSeq p' - 1"
proof -
  let ?t = "take pageSize (rest p)"
  have t: "?t \<noteq> []" "0 < pageSize" using ne by (simp_all add: pageSize_def)
  have p': "p' = fold (walk_row ks cp) ?t p" and last': "wk_last p' = expectSeq p' - 1"
    using walk walk_rows_last [OF walk t(1)] by (simp_all add: walk_rows_iff)
  obtain us u where us: "?t = us @ [u]" using t(1) by (meson rev_exhaust)
  have u: "wk_last p' = au_Seq (last ?t)" unfolding p' us by simp
  have "last ?t \<in> set (rest p)" using t(1) by (meson in_set_takeD last_in_set)
  then have mono: "wk_last p \<le> wk_last p'" using u by (simp add: rest_def)
  have "rest p' = filter (\<lambda>e. wk_last p' < au_Seq e) (rest p)"
    using mono by (auto simp: rest_def intro: filter_cong)
  also have "\<dots> = drop pageSize (rest p)"
    using filter_beyond [OF rest_facts(1) t(2) ne, where v = "wk_last p'"] u dup by simp
  finally show "rest p' = drop pageSize (rest p)" .
  show "wk_last p \<le> wk_last p'" "wk_last p' = expectSeq p' - 1" by (fact mono, fact last')
qed

lemma walk_pages_exact:
  assumes "0 \<le> wk_last p" "walk_pages ks cp page through p = Inr res"
  shows "case res of Inr p' \<Rightarrow> walk_rows ks cp through (rest p) p = Inr p'
    | Inl r \<Rightarrow> \<not> Intact r \<and> \<not> Authenticated r \<and> (\<exists>r'. walk_rows ks cp through (rest p) p = Inl r')"
  using assms
proof (induction "length (rest p)" arbitrary: p rule: less_induct)
  case less
  show ?case
  proof (cases "wk_last p < through")
    case False
    then have "res = Inr p" using less.prems by (simp add: walk_pages.simps)
    then show ?thesis using rest_facts(3) [OF False] by simp
  next
    case True
    have ne: "rest p \<noteq> []" using rest_facts(2) less.prems(1) True by simp
    obtain rows where page: "page (wk_last p) through (pageSize + 1) = Inr rows"
      using less.prems(2) True by (auto simp: walk_pages.simps split: sum.splits)
    then have rows: "rows = take (pageSize + 1) (rest p)" by (simp add: page_law rest_def)
    define dup where "dup \<longleftrightarrow> pageSize < length (rest p) \<and> au_Seq (rest p ! (pageSize - 1)) = au_Seq (rest p ! pageSize)"
    have dup_rows: "(pageSize < length rows \<and> au_Seq (rows ! (pageSize - 1)) = au_Seq (rows ! pageSize)) = dup"
      using ne by (auto simp: rows dup_def)
    have take: "take pageSize rows = take pageSize (rest p)" by (simp add: rows)
    have rows_ne: "rows \<noteq> []" using ne by (simp add: rows)
    note run = less.prems(2) [unfolded walk_pages.simps [of ks cp page through p] if_P [OF True] page sum.case
        if_not_P [OF rows_ne] dup_rows take]
    show ?thesis
    proof (cases dup)
      case True
      have "walk_rows ks cp through (rest p) p \<noteq> Inr p'" for p'
        using True chain_seq [of ks "wk_prev p" "expectSeq p" "rest p" pageSize]
          chain_seq [of ks "wk_prev p" "expectSeq p" "rest p" "pageSize - 1"]
        by (auto simp: walk_rows_iff dup_def pageSize_def)
      then have "\<exists>r'. walk_rows ks cp through (rest p) p = Inl r'" by (metis sum.exhaust)
      then show ?thesis using run True by (auto simp: broken_at_def no_result_def)
    next
      case False
      have split: "walk_rows ks cp through (rest p) p = (case walk_rows ks cp through (take pageSize (rest p)) p of
          Inl r \<Rightarrow> Inl r | Inr p' \<Rightarrow> walk_rows ks cp through (drop pageSize (rest p)) p')"
        using walk_rows_append [of ks cp through "take pageSize (rest p)" "drop pageSize (rest p)" p] by simp
      show ?thesis
      proof (cases "walk_rows ks cp through (take pageSize (rest p)) p")
        case (Inl r)
        then have "res = Inl r" using run False by simp
        then show ?thesis using split Inl walk_rows_broken [OF Inl] by simp
      next
        case (Inr p')
        note step = rest_step [OF ne Inr False [unfolded dup_def]]
        have run': "walk_pages ks cp page through p' = Inr res" using run False Inr by simp
        have eq: "walk_rows ks cp through (rest p) p = walk_rows ks cp through (rest p') p'"
          using split Inr by (simp add: step)
        have "length (rest p') < length (rest p)" "0 \<le> wk_last p'"
          using ne step(2) less.prems(1) by (simp_all add: step(1) pageSize_def)
        then show ?thesis unfolding eq by (rule less.hyps) (fact run')
      qed
    qed
  qed
qed

end

section \<open>Every reader that answers truly\<close>

definition checkpoint_holds :: "AuditCheckpoint option \<Rightarrow> AuditEvent list \<Rightarrow> bool" where
  "checkpoint_holds cp rows \<longleftrightarrow> (case cp of None \<Rightarrow> True
     | Some c \<Rightarrow> list_ex (\<lambda>e. au_Seq e = cp_Seq c \<and> Hash e = HeadHash c) rows)"

lemma walk_checkpoint:
  assumes "chain_from ks [] 1 es"
  shows "checkpointReached (fold (walk_row ks (Some c)) es walk_start)
      \<and> hashAtCheckpoint (fold (walk_row ks (Some c)) es walk_start) = HeadHash c
    \<longleftrightarrow> checkpoint_holds (Some c) es"
proof (cases "\<exists>e \<in> set es. au_Seq e = cp_Seq c")
  case True
  then obtain e where e: "e \<in> set es" "au_Seq e = cp_Seq c" by blast
  have uniq: "f = e" if "f \<in> set es" "au_Seq f = cp_Seq c" for f
    using chain_sorted(2) [OF assms] e that inj_onD [of au_Seq "set es" f e] by (simp add: distinct_map)
  have at: "at_checkpoint (Some c) f \<longleftrightarrow> au_Seq f = cp_Seq c" for f by (simp add: at_checkpoint_def)
  have "set (filter (at_checkpoint (Some c)) es) = {e}"
    unfolding set_filter at using e uniq by blast
  moreover from this have "last (filter (at_checkpoint (Some c)) es) \<in> {e}" by (metis last_in_set list.set(1) insert_not_empty)
  moreover from calculation(1) have "filter (at_checkpoint (Some c)) es \<noteq> []" by force
  ultimately have "head_hash [] (filter (at_checkpoint (Some c)) es) = Hash e" by (simp add: head_hash_def)
  then have "hashAtCheckpoint (fold (walk_row ks (Some c)) es walk_start) = Hash e" by (simp add: walk_fold)
  moreover have "checkpointReached (fold (walk_row ks (Some c)) es walk_start)"
    using e at by (auto simp: walk_fold)
  moreover have "checkpoint_holds (Some c) es \<longleftrightarrow> Hash e = HeadHash c"
    unfolding checkpoint_holds_def list_ex_iff option.case using e uniq by metis
  ultimately show ?thesis by simp
next
  case False
  then show ?thesis
    by (auto simp: walk_fold checkpoint_holds_def list_ex_iff at_checkpoint_def)
qed

locale chain_reader =
  fixes rd :: reader and rows :: "AuditEvent list" and head :: int and cp :: "AuditCheckpoint option"
  assumes invalid_law: "rd_invalid rd = Inr (Some n) \<Longrightarrow> \<exists>e \<in> set rows. au_Seq e \<le> 0"
      "rd_invalid rd = Inr None \<Longrightarrow> e \<in> set rows \<Longrightarrow> 0 < au_Seq e"
    and head_law: "rd_head rd = Inr h \<Longrightarrow> h = head"
      "e \<in> set rows \<Longrightarrow> au_Seq e \<le> head" "0 < head \<Longrightarrow> \<exists>e \<in> set rows. au_Seq e = head"
    and checkpoint_law: "rd_checkpoint rd = Inr c \<Longrightarrow> c = cp"
    and pages_law: "rd_page rd lo head limit = Inr es
        \<Longrightarrow> es = take limit (filter (\<lambda>e. lo < au_Seq e) (sort_key au_Seq rows))"
begin

sublocale pages: paged "rd_page rd" "sort_key au_Seq rows" head
  by unfold_locales (use pages_law head_law in auto)

lemma walk_whole:
  assumes pos: "\<forall>e \<in> set rows. 0 < au_Seq e" and run: "walk_pages ks c (rd_page rd) head walk_start = Inr res"
  shows "case res of Inr p' \<Rightarrow> chain_from ks [] 1 (sort_key au_Seq rows)
        \<and> p' = fold (walk_row ks c) (sort_key au_Seq rows) walk_start
    | Inl r \<Rightarrow> \<not> Intact r \<and> \<not> Authenticated r \<and> \<not> chain_from ks [] 1 (sort_key au_Seq rows)"
proof -
  have "filter (\<lambda>e. 0 < au_Seq e) (sort_key au_Seq rows) = sort_key au_Seq rows"
    using pos by (simp add: filter_id_conv)
  then have "pages.rest walk_start = sort_key au_Seq rows" by (simp add: pages.rest_def)
  with pages.walk_pages_exact [OF _ run] show ?thesis
    by (cases res) (auto simp: walk_rows_iff dest: walk_rows_Inl)
qed

lemma verify_snapshot:
  assumes "Verify ks rd = Inr r"
  obtains "\<exists>e \<in> set rows. au_Seq e \<le> 0" "\<not> Intact r" "\<not> Authenticated r"
  | res where "\<forall>e \<in> set rows. 0 < au_Seq e" "walk_pages ks cp (rd_page rd) head walk_start = Inr res"
      "r = (case res of Inl r' \<Rightarrow> r' | Inr p \<Rightarrow> verify_end cp head p)"
proof (cases "rd_invalid rd")
  case (Inr i)
  show ?thesis
  proof (cases i)
    case None
    then show ?thesis
      using that(2) assms Inr invalid_law(2) checkpoint_law head_law(1)
      by (auto simp: Verify_def verificationSnapshot_def split: sum.splits)
  next
    case (Some n)
    then show ?thesis
      using that(1) assms Inr invalid_law(1) [of n] by (auto simp: Verify_def verificationSnapshot_def no_result_def)
  qed
qed (use assms in \<open>simp add: Verify_def verificationSnapshot_def\<close>)

lemma verify_exact:
  assumes run: "Verify ks rd = Inr r"
  shows "Intact r \<longleftrightarrow> (\<forall>e \<in> set rows. 0 < au_Seq e) \<and> chain_from ks [] 1 (sort_key au_Seq rows)
        \<and> checkpoint_holds cp rows"
    and "Authenticated r \<longleftrightarrow> Intact r \<and> (\<forall>e \<in> set rows. rowMatchKind ks e \<noteq> matchUnkeyed)"
    and "Intact r \<Longrightarrow> vr_Count r = length rows \<and> VerifiedThroughSeq r = head \<and> LatestCheckpoint r = cp"
proof -
  let ?srt = "sort_key au_Seq rows"
  have "(Intact r \<longleftrightarrow> (\<forall>e \<in> set rows. 0 < au_Seq e) \<and> chain_from ks [] 1 ?srt \<and> checkpoint_holds cp rows)
    \<and> (Authenticated r \<longleftrightarrow> Intact r \<and> (\<forall>e \<in> set rows. rowMatchKind ks e \<noteq> matchUnkeyed))
    \<and> (Intact r \<longrightarrow> vr_Count r = length rows \<and> VerifiedThroughSeq r = head \<and> LatestCheckpoint r = cp)"
  proof (rule verify_snapshot [OF run])
    fix res
    assume pos: "\<forall>e \<in> set rows. 0 < au_Seq e" and walk: "walk_pages ks cp (rd_page rd) head walk_start = Inr res"
      and r: "r = (case res of Inl r' \<Rightarrow> r' | Inr p \<Rightarrow> verify_end cp head p)"
    show ?thesis
    proof (cases res)
      case (Inl r')
      then show ?thesis using walk_whole [OF pos walk] r by simp
    next
      case (Inr p)
      then have chain: "chain_from ks [] 1 ?srt" and p: "p = fold (walk_row ks cp) ?srt walk_start"
        using walk_whole [OF pos walk] by simp_all
      have "checkpoint_holds cp rows \<longleftrightarrow> Intact (verify_end cp head p)"
        using walk_checkpoint [OF chain] head_law(2)
        by (fastforce simp: verify_end_facts p checkpoint_holds_def list_ex_iff split: option.split)
      then show ?thesis
        using chain pos r Inr by (auto simp: verify_end_facts(2-5) p walk_fold filter_empty_conv)
    qed
  qed force
  then show "Intact r \<longleftrightarrow> (\<forall>e \<in> set rows. 0 < au_Seq e) \<and> chain_from ks [] 1 ?srt \<and> checkpoint_holds cp rows"
    "Authenticated r \<longleftrightarrow> Intact r \<and> (\<forall>e \<in> set rows. rowMatchKind ks e \<noteq> matchUnkeyed)"
    "Intact r \<Longrightarrow> vr_Count r = length rows \<and> VerifiedThroughSeq r = head \<and> LatestCheckpoint r = cp"
    by blast+
qed

end

end
