(* ===== verification/AuditProps.thy ===== *)
theory AuditProps
  imports AuditChain "HOL-Library.Sublist"
begin

text \<open>
  What the audit trail of \<^verbatim>\<open>src/internal/audit\<close> guarantees: \<^verbatim>\<open>Verify\<close> finds every break, the chain that
  \<^verbatim>\<open>Record\<close> writes through failures, restarts and key rotations verifies and holds every acknowledged
  event, and a history that verifies up to an anchored hash is the anchored history.
\<close>

section \<open>Reading the tables\<close>

definition head_seq :: "AuditEvent list \<Rightarrow> int" where
  "head_seq rows = (case max_row au_Seq rows of None \<Rightarrow> 0 | Some e \<Rightarrow> au_Seq e)"

lemma head_seq_facts:
  "e \<in> set rows \<Longrightarrow> au_Seq e \<le> head_seq rows"
  "0 < head_seq rows \<Longrightarrow> \<exists>e \<in> set rows. au_Seq e = head_seq rows"
  using max_row_facts(1) [of au_Seq rows] max_row_facts(2) [of au_Seq rows]
  by (auto simp: head_seq_def split: option.splits)

lemma nucleus_laws:
  assumes later: "\<forall>lo. \<forall>e \<in> set (later lo). head_seq (audit_events d) < au_Seq e"
  shows "chain_reader (nucleusReader d later) (audit_events d) (head_seq (audit_events d))
    (latestCheckpoint (audit_checkpoints d))"
proof unfold_locales
  fix lo limit es
  let ?in = "\<lambda>e. lo < au_Seq e \<and> au_Seq e \<le> head_seq (audit_events d)"
  have "filter ?in (later lo) = []" using later by (force simp: filter_empty_conv)
  moreover have "filter ?in (audit_events d) = filter (\<lambda>e. lo < au_Seq e) (audit_events d)"
    by (rule filter_cong) (auto simp: head_seq_facts)
  moreover assume "rd_page (nucleusReader d later) lo (head_seq (audit_events d)) limit = Inr es"
  ultimately show "es = take limit (filter (\<lambda>e. lo < au_Seq e) (sort_key au_Seq (audit_events d)))"
    by (simp add: nucleusReader_def page_rows_def filter_sort)
qed (auto simp: nucleusReader_def head_seq_def [symmetric] head_seq_facts find_None_iff find_Some_iff)

text \<open>The reads of \<open>d\<close> while any records are appended, whose sequences lie behind the head.\<close>

definition behind_head :: "audit_db \<Rightarrow> (int \<Rightarrow> AuditEvent list) \<Rightarrow> int \<Rightarrow> AuditEvent list" where
  "behind_head d later lo = filter (\<lambda>e. head_seq (audit_events d) < au_Seq e) (later lo)"

interpretation appended: chain_reader "nucleusReader d (behind_head d later)" "audit_events d" "head_seq (audit_events d)"
    "latestCheckpoint (audit_checkpoints d)" for d later
  by (rule nucleus_laws) (simp add: behind_head_def)

lemma behind_none: "behind_head d (\<lambda>lo. []) = (\<lambda>lo. [])"
  by (auto simp: behind_head_def)

text \<open>The reads while nothing is appended.\<close>

lemmas settled_exact = appended.verify_exact [where later = "\<lambda>lo. []", unfolded behind_none]

lemma walk_pages_answers:
  "(\<And>lo limit. \<exists>es. page lo through limit = Inr es) \<Longrightarrow> \<exists>res. walk_pages ks cp page through p = Inr res"
proof (induction ks cp page through p rule: walk_pages.induct)
  case (1 ks cp page through p)
  obtain rows where rows: "page (wk_last p) through (pageSize + 1) = Inr rows" using 1(2) by blast
  show ?case
    using 1 rows by (subst walk_pages.simps) (auto split: sum.split)
qed

lemma nucleus_answers: "\<exists>r. Verify ks (nucleusReader d later) = Inr r"
proof -
  let ?rd = "nucleusReader d later"
  have "\<exists>res. walk_pages ks cp (rd_page ?rd) through p = Inr res" for cp through p
    by (rule walk_pages_answers) (simp add: nucleusReader_def)
  then obtain f where "walk_pages ks cp (rd_page ?rd) through p = Inr (f cp through p)" for cp through p
    by metis
  then show ?thesis
    by (auto simp: Verify_def verificationSnapshot_def nucleusReader_def split: sum.split option.split)
qed

text \<open>C26: Verify, reading in pages while other records are appended, answers Intact exactly when every
  row's sequence is positive, the rows in order of sequence form one unbroken chain from 1 in which
  every hash is right under a configured key, and the newest checkpoint (if any) names the hash of a row of the
  chain; Authenticated exactly when in addition no row verifies only under the empty key; an intact
  answer counts every row.\<close>

theorem verify_finds_every_break:
  assumes "\<forall>lo. \<forall>e \<in> set (later lo). head_seq (audit_events d) < au_Seq e"
  shows "\<exists>r. Verify ks (nucleusReader d later) = Inr r
    \<and> (Intact r \<longleftrightarrow> (\<forall>e \<in> set (audit_events d). 0 < au_Seq e) \<and> chain_from ks [] 1 (sort_key au_Seq (audit_events d))
         \<and> checkpoint_holds (latestCheckpoint (audit_checkpoints d)) (audit_events d))
    \<and> (Authenticated r \<longleftrightarrow> Intact r \<and> (\<forall>e \<in> set (audit_events d). rowMatchKind ks e \<noteq> matchUnkeyed))
    \<and> (Intact r \<longrightarrow> vr_Count r = length (audit_events d))"
proof -
  have "behind_head d later = later" using assms by (auto simp: behind_head_def filter_id_conv)
  then show ?thesis using nucleus_answers [of ks d later] appended.verify_exact [where d = d and later = later and ks = ks] by metis
qed

text \<open>A table whose only row claims a predecessor is refused, whatever is appended meanwhile.\<close>

definition stray_row :: AuditEvent where
  "stray_row = \<lparr>AuditID = ''a'', au_TenantID = ''default'', au_SiteID = ''default'', au_Timestamp = 1, Actor = ''eve'',
     ActorType = ''user'', Action = ''auth.login'', Target = [], au_Result = ''success'', SourceIP = [], UserAgent = [],
     Metadata = ''{}'', au_Seq = 1, PrevHash = ''f00d'', Hash = ''beef'', au_KeyID = []\<rparr>"

lemma verify_finds_every_break_witness:
  "\<exists>r. Verify None (nucleusReader \<lparr>audit_events = [stray_row], audit_checkpoints = []\<rparr>
     (\<lambda>lo. [stray_row\<lparr>au_Seq := 2\<rparr>])) = Inr r \<and> \<not> Intact r"
  using verify_finds_every_break [of "\<lambda>lo. [stray_row\<lparr>au_Seq := 2\<rparr>]"
    "\<lparr>audit_events = [stray_row], audit_checkpoints = []\<rparr>" None]
  by (auto simp: head_seq_def stray_row_def)

section \<open>Writing the chain\<close>

text \<open>The verifier \<open>V\<close> knows what a writer with keyring \<open>K\<close> signs with.\<close>

definition signer_known :: "Keyring option \<Rightarrow> Keyring option \<Rightarrow> bool" where
  "signer_known V K \<longleftrightarrow> (case K of None \<Rightarrow> True
     | Some kr \<Rightarrow> if Keyed kr then km_ID (kr_Signer kr) \<noteq> []
           \<and> (case V of None \<Rightarrow> False | Some v \<Rightarrow> KeyFor v (km_ID (kr_Signer kr)) = Some (km_Key (kr_Signer kr)))
         else km_Key (kr_Signer kr) = [])"

text \<open>An event without what the chain adds.\<close>

definition content :: "AuditEvent \<Rightarrow> AuditEvent" where
  "content e = e\<lparr>au_Seq := 0, PrevHash := [], Hash := [], au_KeyID := []\<rparr>"

text \<open>Calls in any order, with any answers of the outside; a restart begins with a new service and
  perhaps other keys.  The first component lists the events whose \<^verbatim>\<open>Record\<close> returned without error.\<close>

inductive audit_step :: "Keyring option \<Rightarrow> AuditEvent list \<times> audit_db \<times> Service
    \<Rightarrow> AuditEvent list \<times> audit_db \<times> Service \<Rightarrow> bool" for V where
  recorded: "Record en ev d s = (r, d', s') \<Longrightarrow> au_KeyID ev = []
    \<Longrightarrow> audit_step V (acks, d, s) (if r = None then acks @ [content (event_defaults en ev)] else acks, d', s')"
| anchored: "checkpointLocked en d s = (r, d', s') \<Longrightarrow> audit_step V (acks, d, s) (acks, d', s')"
| restarted: "signer_known V K \<Longrightarrow> audit_step V (acks, d, s) (acks, d, NewServiceWithKeys K)"

inductive_cases audit_stepE: "audit_step V st st'"

definition head_ok :: "audit_db \<Rightarrow> Service \<Rightarrow> bool" where
  "head_ok d s \<longleftrightarrow> (if sv_loaded s \<or> audit_events d = [] then lastSeq s = int (length (audit_events d))
     \<and> lastHash s = head_hash [] (audit_events d) else True)"

definition audit_inv :: "Keyring option \<Rightarrow> AuditEvent list \<times> audit_db \<times> Service \<Rightarrow> bool" where
  "audit_inv V st \<longleftrightarrow> (case st of (acks, d, s) \<Rightarrow> signer_known V (sv_keys s)
     \<and> chain_from V [] 1 (audit_events d) \<and> head_ok d s
     \<and> (\<forall>c \<in> set (audit_checkpoints d). checkpoint_holds (Some c) (audit_events d))
     \<and> subseq acks (map content (audit_events d)))"

lemma chain_max_row:
  assumes "chain_from V [] 1 es"
  shows "max_row au_Seq es = (if es = [] then None else Some (last es))"
proof (cases "max_row au_Seq es")
  case None
  then show ?thesis by (simp add: max_row_facts)
next
  case (Some m)
  then have m: "m \<in> set es" "\<forall>e \<in> set es. au_Seq e \<le> au_Seq m" using max_row_facts(2) [OF Some] by blast+
  then obtain i where i: "i < length es" "m = es ! i" by (auto simp: in_set_conv_nth)
  then have "es \<noteq> []" by auto
  then have "au_Seq (last es) \<le> au_Seq m" "es \<noteq> []" using m(2) last_in_set by blast+
  then have "int (length es - 1) \<le> int i"
    using chain_seq [OF assms, of i] chain_seq [OF assms, of "length es - 1"] i by (simp add: last_conv_nth)
  then have "i = length es - 1" using i(1) by linarith
  then show ?thesis using Some i by (auto simp: last_conv_nth)
qed

lemma load_head:
  assumes "chain_from V [] 1 (audit_events d)" "head_ok d s" "loadStateLocked en d s = (e, s')"
  shows "head_ok d s'" "sv_keys s' = sv_keys s" "sv_loaded s' = (e = None \<or> sv_loaded s)"
  using assms chain_max_row [OF assms(1)] chain_seq [OF assms(1), of "length (audit_events d) - 1"]
  by (auto simp: loadStateLocked_def head_ok_def head_hash_def last_conv_nth split: if_splits)

lemma chain_event_simps:
  "au_Seq (chain_event s ev) = lastSeq s + 1" "PrevHash (chain_event s ev) = lastHash s"
  "content (chain_event s ev) = content ev"
  by (simp_all add: chain_event_def content_def Let_def split: option.split)

lemma hash_ignores: "computeHashWith k (ev\<lparr>Hash := h\<rparr>) = computeHashWith k ev"
    "computeHashWith k (ev\<lparr>au_KeyID := i\<rparr>) = computeHashWith k ev"
  by (simp_all add: computeHashWith_def mac_input_def mac_values_def)

lemma chain_event_verifies:
  assumes "signer_known V (sv_keys s)" "au_KeyID ev = []"
  shows "keyKnown V (au_KeyID (chain_event s ev))" "rowMatchKind V (chain_event s ev) \<noteq> matchNone"
  using assms
  by (auto simp: chain_event_def Let_def signer_known_def keyKnown_def rowMatchKind_def computeHash_def signer_key_def
      hash_ignores split: option.splits if_splits)

lemma audit_invI:
  assumes "signer_known V (sv_keys s)" "chain_from V [] 1 (audit_events d)" "head_ok d s"
    "\<And>c. c \<in> set (audit_checkpoints d) \<Longrightarrow> checkpoint_holds (Some c) (audit_events d)"
    "subseq acks (map content (audit_events d))"
  shows "audit_inv V (acks, d, s)"
  using assms by (simp add: audit_inv_def)

lemma load_inv:
  assumes "audit_inv V (acks, d, s)" "(if sv_loaded s then (None, s) else loadStateLocked en d s) = (e, s')"
  shows "audit_inv V (acks, d, s')" "e = None \<Longrightarrow> sv_loaded s'"
  using assms load_head [of V d s en e s'] by (auto simp: audit_inv_def split: if_splits)

lemma checkpoint_inv:
  assumes inv: "audit_inv V (acks, d, s)" and run: "checkpointLocked en d s = (r, d', s')"
  shows "audit_inv V (acks, d', s')"
proof -
  obtain e s1 where load: "(if sv_loaded s then (None, s) else loadStateLocked en d s) = (e, s1)" by fastforce
  note inv1 = load_inv [OF inv load]
  show ?thesis
  proof (cases "e \<noteq> None \<or> lastSeq s1 = 0")
    case True
    then have "d' = d" "s' = s1"
      using run unfolding checkpointLocked_def load by (auto split: option.splits if_splits)
    then show ?thesis using inv1(1) by simp
  next
    case False
    then have head: "lastSeq s1 = int (length (audit_events d))" "lastHash s1 = head_hash [] (audit_events d)"
      using inv1 by (auto simp: audit_inv_def head_ok_def)
    have ne: "audit_events d \<noteq> []" using False head(1) by auto
    have "au_Seq (last (audit_events d)) = lastSeq s1"
      using inv1(1) chain_seq [of V "[]" 1 "audit_events d" "length (audit_events d) - 1"] ne
      by (simp add: audit_inv_def head last_conv_nth of_nat_diff Suc_leI)
    then have "checkpoint_holds (Some (head_checkpoint en s1)) (audit_events d)"
      using ne by (auto simp: checkpoint_holds_def head_checkpoint_def head(2) head_hash_def list_ex_iff)
    moreover obtain ok cps where ins: "insert_row (en_cpInsert en) (head_checkpoint en s1) (audit_checkpoints d) = (ok, cps)"
      by fastforce
    moreover have "d' = d\<lparr>audit_checkpoints := cps\<rparr>" "s' = s1"
      using run False unfolding checkpointLocked_def load by (auto simp: ins Let_def)
    ultimately show ?thesis
      using inv1(1) insert_row_cases [OF ins] by (auto simp: audit_inv_def head_ok_def)
  qed
qed

text \<open>A new row behind the chain, whether its insert was answered or not.\<close>

lemma append_row_inv:
  assumes inv: "audit_inv V (acks, d, s)" and loaded: "sv_loaded s" and key: "au_KeyID ev = []"
    and s': "sv_keys s' = sv_keys s" "if sv_loaded s' then lastSeq s' = lastSeq s + 1 \<and> lastHash s' = Hash (chain_event s ev) else True"
    and acks: "acks' = acks \<or> acks' = acks @ [content ev]"
  shows "audit_inv V (acks', d\<lparr>audit_events := audit_events d @ [chain_event s ev]\<rparr>, s')"
proof (rule audit_invI)
  have head: "lastSeq s = int (length (audit_events d))" "lastHash s = head_hash [] (audit_events d)"
    using inv loaded by (auto simp: audit_inv_def head_ok_def)
  have known: "signer_known V (sv_keys s)" using inv by (simp add: audit_inv_def)
  then show "signer_known V (sv_keys s')" by (simp add: s')
  show "chain_from V [] 1 (audit_events (d\<lparr>audit_events := audit_events d @ [chain_event s ev]\<rparr>))"
    using inv chain_event_verifies [OF known key] by (simp add: audit_inv_def chain_append chain_event_simps head)
  show "head_ok (d\<lparr>audit_events := audit_events d @ [chain_event s ev]\<rparr>) s'"
    using s'(2) head by (auto simp: head_ok_def head_hash_def)
  show "checkpoint_holds (Some c) (audit_events (d\<lparr>audit_events := audit_events d @ [chain_event s ev]\<rparr>))"
    if "c \<in> set (audit_checkpoints (d\<lparr>audit_events := audit_events d @ [chain_event s ev]\<rparr>))" for c
    using inv that by (auto simp: audit_inv_def checkpoint_holds_def)
  have "subseq acks (map content (audit_events d))" using inv by (simp add: audit_inv_def)
  then show "subseq acks' (map content (audit_events (d\<lparr>audit_events := audit_events d @ [chain_event s ev]\<rparr>)))"
    using acks by (auto simp: chain_event_simps intro: subseq_rev_drop_many list_emb_append_mono)
qed

lemma record_inv:
  assumes inv: "audit_inv V (acks, d, s)" and run: "Record en ev d s = (r, d', s')" and key: "au_KeyID ev = []"
  shows "audit_inv V (if r = None then acks @ [content (event_defaults en ev)] else acks, d', s')"
proof (cases "TrimSpace (Action ev) = []")
  case True
  then show ?thesis using inv run by (auto simp: Record_def)
next
  case act: False
  obtain e s1 where load: "(if sv_loaded s then (None, s) else loadStateLocked en d s) = (e, s1)" by fastforce
  note inv1 = load_inv [OF inv load]
  let ?ev = "event_defaults en ev"
  have key': "au_KeyID ?ev = []" by (simp add: event_defaults_def key)
  show ?thesis
  proof (cases e)
    case (Some a)
    then show ?thesis using inv1(1) run act unfolding Record_def load by auto
  next
    case None
    obtain ok rows where ins: "insert_row (en_insert en) (chain_event s1 ?ev) (audit_events d) = (ok, rows)" by fastforce
    define s2 where "s2 = s1\<lparr>lastSeq := au_Seq (chain_event s1 ?ev), lastHash := Hash (chain_event s1 ?ev)\<rparr>"
    note run' = run [unfolded Record_def load None prod.case option.case Let_def ins if_not_P [OF act], folded s2_def]
    show ?thesis
    proof (cases ok)
      case False
      then have d': "r \<noteq> None" "d' = d\<lparr>audit_events := rows\<rparr>" "s' = s1\<lparr>sv_loaded := False\<rparr>" using run' by auto
      from insert_row_cases [OF ins] show ?thesis
      proof
        assume "rows = audit_events d @ [chain_event s1 ?ev]"
        then show ?thesis
          using append_row_inv [OF inv1(1) inv1(2) [OF None] key', of s' acks] d' by auto
      next
        assume "rows = audit_events d \<and> \<not> ok"
        then show ?thesis using inv1 None d' by (auto simp: audit_inv_def head_ok_def)
      qed
    next
      case True
      then have rows: "rows = audit_events d @ [chain_event s1 ?ev]" using insert_row_cases [OF ins] by simp
      have inv2: "audit_inv V (acks @ [content ?ev], d\<lparr>audit_events := rows\<rparr>, s2)"
        using append_row_inv [OF inv1(1) inv1(2) [OF None] key', of s2 "acks @ [content ?ev]"]
        by (simp add: s2_def chain_event_simps rows)
      obtain c d3 s3 where cp: "checkpointLocked en (d\<lparr>audit_events := rows\<rparr>) s2 = (c, d3, s3)"
        by (cases "checkpointLocked en (d\<lparr>audit_events := rows\<rparr>) s2")
      show ?thesis using run' True inv2 checkpoint_inv [OF inv2 cp] cp by (auto split: if_splits)
    qed
  qed
qed

lemma audit_step_inv: "audit_step V st st' \<Longrightarrow> audit_inv V st \<Longrightarrow> audit_inv V st'"
proof (induction rule: audit_step.induct)
  case (restarted K acks d s)
  then show ?case by (simp add: audit_inv_def head_ok_def head_hash_def NewServiceWithKeys_def)
qed (simp_all only: record_inv checkpoint_inv)

lemma audit_reach_inv:
  assumes "(audit_step V)\<^sup>*\<^sup>* ([], \<lparr>audit_events = [], audit_checkpoints = []\<rparr>, NewServiceWithKeys K) st"
    and "signer_known V K"
  shows "audit_inv V st"
  using assms(1)
proof (induction rule: rtranclp_induct)
  case base
  then show ?case using assms(2) by (simp add: audit_inv_def head_ok_def head_hash_def NewServiceWithKeys_def)
qed (rule audit_step_inv)

lemma sort_key_sorted: "sorted (map f xs) \<Longrightarrow> sort_key f xs = xs"
  by (induction xs) (simp_all add: insort_is_Cons)

lemma latestCheckpoint_stored: "latestCheckpoint cps = Some c \<Longrightarrow> c \<in> set cps"
  using max_row_facts(2) [of CreatedAt] by (fastforce simp: latestCheckpoint_def split: option.splits)

lemma keyed_rows: "V \<noteq> None \<Longrightarrow> au_KeyID e \<noteq> [] \<Longrightarrow> rowMatchKind V e \<noteq> matchUnkeyed"
  by (auto simp: rowMatchKind_def Let_def split: option.split)

lemma reach_verifies:
  assumes "(audit_step V)\<^sup>*\<^sup>* ([], \<lparr>audit_events = [], audit_checkpoints = []\<rparr>, NewServiceWithKeys K) (acks, d, s)"
    and "signer_known V K"
  obtains r where "Verify V (nucleusReader d (\<lambda>lo. [])) = Inr r" "Intact r" "vr_Count r = length (audit_events d)"
    "LatestCheckpoint r = latestCheckpoint (audit_checkpoints d)"
    "V \<noteq> None \<Longrightarrow> \<forall>e \<in> set (audit_events d). au_KeyID e \<noteq> [] \<Longrightarrow> Authenticated r"
    "subseq acks (map content (audit_events d))"
proof -
  have inv: "audit_inv V (acks, d, s)" by (rule audit_reach_inv [OF assms])
  then have chain: "chain_from V [] 1 (audit_events d)" by (simp add: audit_inv_def)
  have "sort_key au_Seq (audit_events d) = audit_events d"
    using chain_sorted(1) [OF chain] by (rule sort_key_sorted)
  moreover have "\<forall>e \<in> set (audit_events d). 0 < au_Seq e"
    using chain_seq [OF chain] by (auto simp: in_set_conv_nth)
  moreover have "checkpoint_holds (latestCheckpoint (audit_checkpoints d)) (audit_events d)"
    using inv latestCheckpoint_stored [of "audit_checkpoints d"]
    by (cases "latestCheckpoint (audit_checkpoints d)") (auto simp: audit_inv_def checkpoint_holds_def)
  moreover obtain r where r: "Verify V (nucleusReader d (\<lambda>lo. [])) = Inr r" using nucleus_answers by blast
  ultimately have "Intact r" "Authenticated r \<longleftrightarrow> (\<forall>e \<in> set (audit_events d). rowMatchKind V e \<noteq> matchUnkeyed)"
    using settled_exact [OF r] chain by simp_all
  then show thesis
    using that [OF r] settled_exact(3) [OF r] inv keyed_rows [of V] by (auto simp: audit_inv_def)
qed

text \<open>C24: However calls of Record and Checkpoint follow each other, whichever of their reads and writes fail or
  lose their answers, and whatever restarts and key rotations lie between, Verify finds the chain
  intact as long as it knows every key that was signed with and callers leave the key id empty; every
  event whose Record returned without error is in the chain, in order; and if every row was written
  with a key, the answer is Authenticated.\<close>

theorem recorded_chain_verifies:
  assumes "(audit_step V)\<^sup>*\<^sup>* ([], \<lparr>audit_events = [], audit_checkpoints = []\<rparr>, NewServiceWithKeys K) (acks, d, s)"
    and "signer_known V K"
  shows "\<exists>r. Verify V (nucleusReader d (\<lambda>lo. [])) = Inr r \<and> Intact r \<and> vr_Count r = length (audit_events d)
    \<and> subseq acks (map content (audit_events d))
    \<and> (V \<noteq> None \<longrightarrow> (\<forall>e \<in> set (audit_events d). au_KeyID e \<noteq> []) \<longrightarrow> Authenticated r)"
  using reach_verifies [OF assms] by metis

text \<open>A login is recorded and a checkpoint taken; then the key is rotated and another login recorded, whose
  insert is stored but not answered.\<close>

definition demo_ring :: "string \<Rightarrow> Keyring option" where
  "demo_ring i = Some \<lparr>kr_Status = KeyStatusDedicated, kr_Signer = \<lparr>km_ID = i, km_Key = i\<rparr>,
     kr_verify = [(''old'', ''old''), (''new'', ''new'')], kr_legacy = [], kr_keyFile = []\<rparr>"

definition demo_event :: AuditEvent where
  "demo_event = \<lparr>AuditID = [], au_TenantID = [], au_SiteID = [], au_Timestamp = 0, Actor = ''ann'', ActorType = [],
     Action = ''login'', Target = [], au_Result = [], SourceIP = [], UserAgent = [], Metadata = [], au_Seq = 0,
     PrevHash = [], Hash = [], au_KeyID = []\<rparr>"

definition demo_env :: "insert_outcome \<Rightarrow> audit_env" where
  "demo_env out = \<lparr>en_now = 7, en_genID = ''id'', en_load = True, en_insert = out, en_cpNow = 9, en_cpID = ''cp'',
     en_cpInsert = Inserted\<rparr>"

definition demo1 :: "audit_error option \<times> audit_db \<times> Service" where
  "demo1 = Record (demo_env Inserted) demo_event \<lparr>audit_events = [], audit_checkpoints = []\<rparr>
     (NewServiceWithKeys (demo_ring ''old''))"

definition demo2 :: "(audit_error + AuditCheckpoint) \<times> audit_db \<times> Service" where
  "demo2 = checkpointLocked (demo_env Inserted) (fst (snd demo1)) (snd (snd demo1))"

definition demo3 :: "audit_error option \<times> audit_db \<times> Service" where
  "demo3 = Record (demo_env AnswerLost) demo_event (fst (snd demo2)) (NewServiceWithKeys (demo_ring ''new''))"

definition demo_login :: AuditEvent where "demo_login = event_defaults (demo_env Inserted) demo_event"

definition demo_row1 :: AuditEvent where
  "demo_row1 = chain_event (NewServiceWithKeys (demo_ring ''old'')\<lparr>sv_loaded := True\<rparr>) demo_login"

definition demo_service :: Service where
  "demo_service = \<lparr>sv_keys = demo_ring ''old'', lastHash = Hash demo_row1, lastSeq = 1, sv_loaded = True\<rparr>"

definition demo_cp :: AuditCheckpoint where "demo_cp = head_checkpoint (demo_env Inserted) demo_service"

definition demo_row2 :: AuditEvent where
  "demo_row2 = chain_event (demo_service\<lparr>sv_keys := demo_ring ''new''\<rparr>) demo_login"

lemma demo_action: "TrimSpace (Action demo_event) \<noteq> []" by code_simp

lemma demo_runs:
  "demo1 = (None, \<lparr>audit_events = [demo_row1], audit_checkpoints = []\<rparr>, demo_service)"
  "demo2 = (Inr demo_cp, \<lparr>audit_events = [demo_row1], audit_checkpoints = [demo_cp]\<rparr>, demo_service)"
  "\<exists>e s. demo3 = (Some e, \<lparr>audit_events = [demo_row1, demo_row2], audit_checkpoints = [demo_cp]\<rparr>, s)"
proof -
  have seq1: "au_Seq demo_row1 = 1" by (simp add: demo_row1_def chain_event_simps NewServiceWithKeys_def)
  show d1: "demo1 = (None, \<lparr>audit_events = [demo_row1], audit_checkpoints = []\<rparr>, demo_service)"
    using demo_action seq1
    by (simp add: demo1_def Record_def loadStateLocked_def NewServiceWithKeys_def demo_env_def CheckpointEvery_def
      demo_row1_def demo_login_def demo_service_def Let_def)
  show d2: "demo2 = (Inr demo_cp, \<lparr>audit_events = [demo_row1], audit_checkpoints = [demo_cp]\<rparr>, demo_service)"
    by (simp add: demo2_def d1 checkpointLocked_def demo_cp_def demo_service_def demo_env_def Let_def)
  have "event_defaults (demo_env AnswerLost) demo_event = demo_login"
    by (simp add: event_defaults_def demo_env_def demo_login_def)
  then show "\<exists>e s. demo3 = (Some e, \<lparr>audit_events = [demo_row1, demo_row2], audit_checkpoints = [demo_cp]\<rparr>, s)"
    using demo_action seq1
    by (simp add: demo3_def d2 Record_def loadStateLocked_def NewServiceWithKeys_def demo_row2_def demo_service_def
      Let_def) (simp add: demo_env_def)
qed

lemma demo_reach:
  "(audit_step (demo_ring ''new''))\<^sup>*\<^sup>* ([], \<lparr>audit_events = [], audit_checkpoints = []\<rparr>, NewServiceWithKeys (demo_ring ''old''))
     ([content demo_login], \<lparr>audit_events = [demo_row1], audit_checkpoints = [demo_cp]\<rparr>, demo_service)"
  "\<exists>s. (audit_step (demo_ring ''new''))\<^sup>*\<^sup>* ([], \<lparr>audit_events = [], audit_checkpoints = []\<rparr>, NewServiceWithKeys (demo_ring ''old''))
     ([content demo_login], \<lparr>audit_events = [demo_row1, demo_row2], audit_checkpoints = [demo_cp]\<rparr>, s)"
  "signer_known (demo_ring ''new'') (demo_ring i) \<longleftrightarrow> i = ''old'' \<or> i = ''new''"
proof -
  show known: "signer_known (demo_ring ''new'') (demo_ring i) \<longleftrightarrow> i = ''old'' \<or> i = ''new''" for i
    by (auto simp: signer_known_def demo_ring_def Keyed_def KeyFor_def)
  have key: "au_KeyID demo_event = []" by (simp add: demo_event_def)
  note r1 = demo_runs(1) [unfolded demo1_def] and r2 = demo_runs(2) [unfolded demo2_def demo_runs(1) snd_conv fst_conv]
  from recorded [OF r1 key, of "demo_ring ''new''" "[]"] anchored [OF r2, of "demo_ring ''new''" "[content demo_login]"]
  show two: "(audit_step (demo_ring ''new''))\<^sup>*\<^sup>* ([], \<lparr>audit_events = [], audit_checkpoints = []\<rparr>, NewServiceWithKeys (demo_ring ''old''))
     ([content demo_login], \<lparr>audit_events = [demo_row1], audit_checkpoints = [demo_cp]\<rparr>, demo_service)"
    by (simp add: demo_login_def)
  obtain e s where "demo3 = (Some e, \<lparr>audit_events = [demo_row1, demo_row2], audit_checkpoints = [demo_cp]\<rparr>, s)"
    using demo_runs(3) by blast
  note r3 = this [unfolded demo3_def demo_runs(2) snd_conv fst_conv]
  note two
  also have "audit_step (demo_ring ''new'') ([content demo_login], \<lparr>audit_events = [demo_row1], audit_checkpoints = [demo_cp]\<rparr>, demo_service)
      ([content demo_login], \<lparr>audit_events = [demo_row1], audit_checkpoints = [demo_cp]\<rparr>, NewServiceWithKeys (demo_ring ''new''))"
    by (rule restarted) (simp add: known)
  also note recorded [OF r3 key, of "demo_ring ''new''" "[content demo_login]", simplified]
  finally show "\<exists>s. (audit_step (demo_ring ''new''))\<^sup>*\<^sup>* ([], \<lparr>audit_events = [], audit_checkpoints = []\<rparr>, NewServiceWithKeys (demo_ring ''old''))
     ([content demo_login], \<lparr>audit_events = [demo_row1, demo_row2], audit_checkpoints = [demo_cp]\<rparr>, s)" by blast
qed

lemma demo_key_ids: "au_KeyID demo_row1 = ''old''" "au_KeyID demo_row2 = ''new''"
  by (simp_all add: demo_row1_def demo_row2_def chain_event_def NewServiceWithKeys_def demo_service_def demo_ring_def
      Keyed_def Let_def)

lemma recorded_chain_verifies_witness:
  "\<exists>r. Verify (demo_ring ''new'') (nucleusReader \<lparr>audit_events = [demo_row1, demo_row2], audit_checkpoints = [demo_cp]\<rparr>
     (\<lambda>lo. [])) = Inr r \<and> Authenticated r \<and> vr_Count r = 2"
proof -
  obtain s where reach: "(audit_step (demo_ring ''new''))\<^sup>*\<^sup>* ([], \<lparr>audit_events = [], audit_checkpoints = []\<rparr>, NewServiceWithKeys (demo_ring ''old''))
     ([content demo_login], \<lparr>audit_events = [demo_row1, demo_row2], audit_checkpoints = [demo_cp]\<rparr>, s)"
    using demo_reach(2) by blast
  have "signer_known (demo_ring ''new'') (demo_ring ''old'')" by (simp add: demo_reach(3))
  from recorded_chain_verifies [OF reach this] show ?thesis
    by (auto simp: demo_key_ids) (simp add: demo_ring_def)
qed

section \<open>What an anchored hash says about the history before it\<close>

lemma byte_of_inj: "byte_of (x mod 256) = byte_of (y mod 256) \<Longrightarrow> x mod 256 = y mod 256"
  by (metis byte_of_def mod_mod_trivial of_char_of)

lemma be64_inj:
  assumes "be64 n = be64 m" "n < 2 ^ 64" "m < 2 ^ 64"
  shows "n = m"
proof -
  have dig: "n div 2 ^ (8 * k) mod 256 = m div 2 ^ (8 * k) mod 256" if "k < 8" for k
  proof -
    have "be64 n ! (7 - k) = be64 m ! (7 - k)" by (simp add: assms(1))
    moreover have "[0..<8] ! (7 - k) = 7 - k" using that by (subst nth_upt) auto
    ultimately show ?thesis using that by (intro byte_of_inj) (simp add: be64_def)
  qed
  have "k \<le> 8 \<Longrightarrow> n mod 2 ^ (8 * k) = m mod 2 ^ (8 * k)" for k
  proof (induction k)
    case (Suc k)
    have "x mod 2 ^ (8 * Suc k) = 2 ^ (8 * k) * (x div 2 ^ (8 * k) mod 256) + x mod 2 ^ (8 * k)" for x :: nat
      by (simp add: power_add mult.commute flip: mod_mult2_eq)
    then show ?case using Suc dig [of k] by simp
  qed simp
  from this [of 8] show ?thesis using assms by simp
qed

lemma mac_field_inj:
  assumes "mac_field v @ r = mac_field w @ r'" "length v < 2 ^ 64" "length w < 2 ^ 64"
  shows "v = w \<and> r = r'"
proof -
  have len: "length (be64 n) = 8" for n by (simp add: be64_def)
  have "be64 (length v) = be64 (length w) \<and> v @ r = w @ r'"
    using assms(1) by (simp add: mac_field_def append_eq_append_conv len)
  then show ?thesis using be64_inj assms(2,3) by (metis append_eq_append_conv)
qed

lemma mac_concat_inj:
  "length xs = length ys \<Longrightarrow> \<forall>v \<in> set xs \<union> set ys. length v < 2 ^ 64
    \<Longrightarrow> concat (map mac_field xs) = concat (map mac_field ys) \<Longrightarrow> xs = ys"
proof (induction xs ys rule: list_induct2)
  case (Cons x xs y ys)
  then show ?case using mac_field_inj [of x "concat (map mac_field xs)" y "concat (map mac_field ys)"] by auto
qed simp

lemma print_int_inj: "print_int a = print_int b \<Longrightarrow> a = b"
proof -
  have neq: "dec_nat m \<noteq> CHR ''-'' # s" for m s
    using dec_nat_digits [of m] sign_not_digit by (cases "dec_nat m") auto
  assume "print_int a = print_int b"
  then show "a = b" using neq neq [symmetric] dec_nat_inj
    by (auto simp: print_int_def split: if_splits dest!: dec_nat_inj)
qed

text \<open>Go's strings are far shorter than \<open>2 ^ 64\<close>.\<close>

definition fields_short :: "AuditEvent \<Rightarrow> bool" where
  "fields_short e \<longleftrightarrow> list_all (\<lambda>v. length v < 2 ^ 64) (mac_values e)"

lemma mac_input_inj:
  assumes "mac_input e = mac_input f" "fields_short e" "fields_short f"
  shows "content e = content f" "PrevHash e = PrevHash f" "au_Seq e = au_Seq f"
proof -
  have "mac_values e = mac_values f"
    by (rule mac_concat_inj) (use assms in \<open>auto simp: mac_values_def mac_input_def fields_short_def\<close>)
  then show "content e = content f" "PrevHash e = PrevHash f" "au_Seq e = au_Seq f"
    by (auto simp: mac_values_def content_def dest: print_int_inj)
qed

lemma hex_digit_code: "a < 16 \<Longrightarrow> (of_char (hex_digit a) :: nat) = (if a < 10 then 48 + a else 87 + a)"
  by (simp add: hex_digit_def)

lemma hex_digit_inj:
  assumes "hex_digit a = hex_digit b" "a < 16" "b < 16"
  shows "a = b"
proof -
  have "(if a < 10 then 48 + a else 87 + a) = (if b < 10 then 48 + b else 87 + b)"
    using hex_digit_code [OF assms(2)] hex_digit_code [OF assms(3)] assms(1) by metis
  then show ?thesis using assms(2,3) by (cases "a < 10"; cases "b < 10") auto
qed

lemma hex_inj: "xs \<in> lists {..<256} \<Longrightarrow> ys \<in> lists {..<256} \<Longrightarrow> EncodeToString xs = EncodeToString ys \<Longrightarrow> xs = ys"
proof (induction xs arbitrary: ys)
  case Nil
  then show ?case by (cases ys) (auto simp: EncodeToString_def)
next
  case (Cons x xs)
  obtain y ys' where ys: "ys = y # ys'" using Cons.prems by (cases ys) (auto simp: EncodeToString_def)
  have "x div 16 = y div 16" "x mod 16 = y mod 16"
    using Cons.prems by (auto simp: ys EncodeToString_def intro: hex_digit_inj)
  then have "x = y" by (metis div_mod_decomp)
  then show ?case using Cons by (auto simp: ys EncodeToString_def)
qed

definition ring_keys :: "Keyring option \<Rightarrow> bytes list" where
  "ring_keys V = [] # (case V of None \<Rightarrow> [] | Some kr \<Rightarrow> map snd (kr_verify kr) @ kr_legacy kr)"

definition mac_collision :: "bytes \<Rightarrow> bytes \<Rightarrow> bytes \<Rightarrow> bytes \<Rightarrow> bool" where
  "mac_collision k m k' m' \<longleftrightarrow> m \<noteq> m' \<and> hmac k m = hmac k' m'"

lemma hex_hmac: "EncodeToString (hmac k m) = EncodeToString (hmac k' m') \<Longrightarrow> hmac k m = hmac k' m'"
  by (rule hex_inj) (auto simp: hmac_def Sum256_facts)

lemma match_key:
  assumes "rowMatchKind V e \<noteq> matchNone"
  shows "\<exists>k \<in> set (ring_keys V). computeHashWith k e = Hash e"
  using assms
  by (auto simp: rowMatchKind_def ring_keys_def Let_def KeyFor_def list_ex_iff split: option.splits if_splits
      dest!: map_of_SomeD intro: rev_image_eqI)

text \<open>Two rows with one hash but different contents are a collision of HMAC under configured keys.\<close>

definition rows_collide :: "Keyring option \<Rightarrow> AuditEvent list \<Rightarrow> Keyring option \<Rightarrow> AuditEvent list \<Rightarrow> bool" where
  "rows_collide V es W fs \<longleftrightarrow> (\<exists>e \<in> set es. \<exists>f \<in> set fs. \<exists>k \<in> set (ring_keys V). \<exists>k' \<in> set (ring_keys W).
     au_Seq e = au_Seq f \<and> mac_collision k (mac_input e) k' (mac_input f))"

lemma same_hash_same_row:
  assumes e: "e \<in> set es" "rowMatchKind V e \<noteq> matchNone" and f: "f \<in> set fs" "rowMatchKind W f \<noteq> matchNone"
    and "Hash e = Hash f" "au_Seq e = au_Seq f" "\<not> rows_collide V es W fs"
  shows "mac_input e = mac_input f"
proof -
  obtain k k' where k: "k \<in> set (ring_keys V)" "k' \<in> set (ring_keys W)"
    and "computeHashWith k e = Hash e" "computeHashWith k' f = Hash f"
    using match_key e f by metis
  then have "hmac k (mac_input e) = hmac k' (mac_input f)"
    using assms(5) by (intro hex_hmac) (simp add: computeHashWith_def)
  then show ?thesis using assms k by (auto simp: rows_collide_def mac_collision_def)
qed

lemma chains_agree:
  assumes chains: "chain_from V [] 1 es" "chain_from W [] 1 fs"
    and short: "\<forall>e \<in> set es \<union> set fs. fields_short e" and free: "\<not> rows_collide V es W fs"
    and i: "i < length es" "i < length fs" and "Hash (es ! i) = Hash (fs ! i)" and "j \<le> i"
  shows "content (es ! j) = content (fs ! j)"
proof -
  have same: "mac_input (es ! m) = mac_input (fs ! m)"
    if "m < length es" "m < length fs" "Hash (es ! m) = Hash (fs ! m)" for m
    using same_hash_same_row [of "es ! m" es V "fs ! m" fs W] that chain_seq chains chain_match free
    by (metis nth_mem)
  show ?thesis using i assms(7,8)
  proof (induction i)
    case 0
    then show ?case using same mac_input_inj(1) short by (metis UnCI le_zero_eq nth_mem)
  next
    case (Suc i)
    have eq: "mac_input (es ! Suc i) = mac_input (fs ! Suc i)" using same Suc.prems by blast
    show ?case
    proof (cases "j = Suc i")
      case True
      then show ?thesis using eq mac_input_inj(1) short Suc.prems by (metis UnCI nth_mem)
    next
      case False
      have "PrevHash (es ! Suc i) = PrevHash (fs ! Suc i)"
        using eq mac_input_inj(2) short Suc.prems by (metis UnCI nth_mem)
      then have "Hash (es ! i) = Hash (fs ! i)" using chain_prev chains Suc.prems by metis
      then show ?thesis using Suc False by simp
    qed
  qed
qed

lemma split_newline: "nl \<notin> set xs \<Longrightarrow> nl \<notin> set ys \<Longrightarrow> xs @ nl # a = ys @ nl # b \<Longrightarrow> xs = ys \<and> a = b"
proof (induction xs arbitrary: ys)
  case Nil
  then show ?case by (cases ys) auto
next
  case (Cons x xs)
  then show ?case by (cases ys) auto
qed

lemma print_int_no_newline: "nl \<notin> set (print_int n)"
proof -
  have "\<not> is_digit nl" by (simp add: is_digit_def)
  then have "nl \<notin> set (dec_nat m)" for m using dec_nat_digits [of m] by (auto simp: list_all_iff)
  then show ?thesis by (simp add: print_int_def)
qed

definition checkpoint_message :: "AuditCheckpoint \<Rightarrow> bytes" where
  "checkpoint_message c = ''observe-audit-checkpoint'' @ [nl] @ print_int (cp_Seq c) @ [nl] @ HeadHash c"

lemma checkpoint_message_inj:
  "checkpoint_message c = checkpoint_message c' \<Longrightarrow> cp_Seq c = cp_Seq c' \<and> HeadHash c = HeadHash c'"
  using split_newline [OF print_int_no_newline print_int_no_newline, of "cp_Seq c" "HeadHash c" "cp_Seq c'" "HeadHash c'"]
  by (auto simp: checkpoint_message_def dest: print_int_inj)

text \<open>The row a holding checkpoint names.\<close>

lemma checkpoint_row:
  assumes "chain_from V [] 1 (sort_key au_Seq es)" "checkpoint_holds (Some c) es"
  obtains i where "i < length es" "cp_Seq c = int i + 1" "Hash (sort_key au_Seq es ! i) = HeadHash c"
proof -
  obtain e where "e \<in> set (sort_key au_Seq es)" "au_Seq e = cp_Seq c" "Hash e = HeadHash c"
    using assms(2) by (auto simp: checkpoint_holds_def list_ex_iff)
  moreover from this obtain i where "i < length es" "e = sort_key au_Seq es ! i"
    unfolding in_set_conv_nth by auto
  ultimately show thesis using that [of i] chain_seq [OF assms(1), of i] by simp
qed

text \<open>C25: The digest of a checkpoint, kept outside the database, fixes the whole history up to it.  If the
  chain verifies now and its newest checkpoint reproduces the digest that was stored when the chain
  verified before, then the table still has a row for every sequence up to the checkpoint and all of them have the
  contents they had, unless two different messages with one HMAC under configured keys have
  been found: two rows with one sequence, or the two checkpoints.\<close>

theorem stored_digest_anchors_history:
  assumes before: "Verify V (nucleusReader d (\<lambda>lo. [])) = Inr r" "Intact r" "LatestCheckpoint r = Some c"
    and now: "Verify W (nucleusReader d' (\<lambda>lo. [])) = Inr r'" "Intact r'" "LatestCheckpoint r' = Some c'"
    and digest: "VerifyCheckpointDigest c key" "VerifyCheckpointDigest c' key" "Digest c' = Digest c"
    and short: "\<forall>e \<in> set (audit_events d) \<union> set (audit_events d'). fields_short e"
  shows "(let n = nat (cp_Seq c) in 0 < n \<and> n \<le> length (audit_events d) \<and> n \<le> length (audit_events d')
      \<and> map content (take n (sort_key au_Seq (audit_events d')))
        = map content (take n (sort_key au_Seq (audit_events d))))
    \<or> rows_collide V (audit_events d) W (audit_events d')
    \<or> mac_collision key (checkpoint_message c) key (checkpoint_message c')"
proof (rule disjCI)
  let ?es = "sort_key au_Seq (audit_events d)" and ?fs = "sort_key au_Seq (audit_events d')"
  assume "\<not> (rows_collide V (audit_events d) W (audit_events d')
    \<or> mac_collision key (checkpoint_message c) key (checkpoint_message c'))"
  then have free: "\<not> rows_collide V ?es W ?fs" and
    no: "\<not> mac_collision key (checkpoint_message c) key (checkpoint_message c')"
    by (simp_all add: rows_collide_def)
  have "hmac key (checkpoint_message c) = hmac key (checkpoint_message c')"
    using digest by (intro hex_hmac) (simp add: VerifyCheckpointDigest_def checkpointDigest_def checkpoint_message_def)
  then have same: "cp_Seq c' = cp_Seq c" "HeadHash c' = HeadHash c"
    using no checkpoint_message_inj [of c c'] by (auto simp: mac_collision_def)
  note exact = settled_exact(1,3) [OF before(1)] settled_exact(1,3) [OF now(1)]
  have chains: "chain_from V [] 1 ?es" "chain_from W [] 1 ?fs"
    and holds: "checkpoint_holds (Some c) (audit_events d)" "checkpoint_holds (Some c') (audit_events d')"
    using exact before now by auto
  obtain i where i: "i < length ?es" "cp_Seq c = int i + 1" "Hash (?es ! i) = HeadHash c"
    using checkpoint_row [OF chains(1) holds(1)] by auto
  obtain i' where i': "i' < length ?fs" "cp_Seq c = int i' + 1" "Hash (?fs ! i') = HeadHash c"
    using checkpoint_row [OF chains(2) holds(2)] same by auto
  have "i' = i" using i i' by simp
  then have "content (?fs ! j) = content (?es ! j)" if "j \<le> i" for j
    using chains_agree [OF chains _ free i(1), of j] i i' short that by simp
  then have "map content (take (Suc i) ?fs) = map content (take (Suc i) ?es)"
    using i i' \<open>i' = i\<close> by (intro nth_equalityI) (auto simp: nth_map less_Suc_eq_le)
  then show "let n = nat (cp_Seq c) in 0 < n \<and> n \<le> length (audit_events d) \<and> n \<le> length (audit_events d')
      \<and> map content (take n ?fs) = map content (take n ?es)"
    using i i' \<open>i' = i\<close> by (simp add: Let_def nat_add_distrib)
qed

lemma computeHash_length: "length (computeHash ks e) = 64"
proof -
  have "length (EncodeToString xs) = 2 * length xs" for xs by (induction xs) (simp_all add: EncodeToString_def)
  then show ?thesis by (simp add: computeHash_def computeHashWith_def hmac_def Sum256_facts)
qed

lemma demo_short: "fields_short demo_row1" "fields_short demo_row2"
proof -
  have len: "length (Hash demo_row1) = 64"
    by (simp add: demo_row1_def chain_event_def Let_def computeHash_length split: option.split)
  have "length (dec_nat 1) = 1" "length (dec_nat 2) = 1" "length (dec_nat 7) = 1" by (simp_all add: dec_nat.simps)
  note digits = this
  show "fields_short demo_row1" "fields_short demo_row2"
    using len digits
    by (simp_all add: fields_short_def mac_values_def demo_row1_def demo_row2_def chain_event_def Let_def NewServiceWithKeys_def
        demo_ring_def demo_service_def demo_login_def event_defaults_def demo_env_def demo_event_def or_default_def print_int_def)
qed

lemma stored_digest_anchors_history_witness:
  "\<exists>r r'. Verify (demo_ring ''new'') (nucleusReader \<lparr>audit_events = [demo_row1], audit_checkpoints = [demo_cp]\<rparr> (\<lambda>lo. [])) = Inr r
    \<and> Verify (demo_ring ''new'') (nucleusReader \<lparr>audit_events = [demo_row1, demo_row2], audit_checkpoints = [demo_cp]\<rparr> (\<lambda>lo. [])) = Inr r'
    \<and> (map content (take 1 (sort_key au_Seq [demo_row1, demo_row2])) = map content (take 1 (sort_key au_Seq [demo_row1]))
      \<or> rows_collide (demo_ring ''new'') [demo_row1] (demo_ring ''new'') [demo_row1, demo_row2]
      \<or> mac_collision ''old'' (checkpoint_message demo_cp) ''old'' (checkpoint_message demo_cp))"
proof -
  have known: "signer_known (demo_ring ''new'') (demo_ring ''old'')" by (simp add: demo_reach(3))
  obtain s where reach: "(audit_step (demo_ring ''new''))\<^sup>*\<^sup>* ([], \<lparr>audit_events = [], audit_checkpoints = []\<rparr>, NewServiceWithKeys (demo_ring ''old''))
     ([content demo_login], \<lparr>audit_events = [demo_row1, demo_row2], audit_checkpoints = [demo_cp]\<rparr>, s)"
    using demo_reach(2) by blast
  obtain r where r: "Verify (demo_ring ''new'') (nucleusReader \<lparr>audit_events = [demo_row1], audit_checkpoints = [demo_cp]\<rparr> (\<lambda>lo. [])) = Inr r"
      "Intact r" "LatestCheckpoint r = Some demo_cp"
    using reach_verifies [OF demo_reach(1) known] by (auto simp: latestCheckpoint_def)
  obtain r' where r': "Verify (demo_ring ''new'') (nucleusReader \<lparr>audit_events = [demo_row1, demo_row2], audit_checkpoints = [demo_cp]\<rparr> (\<lambda>lo. [])) = Inr r'"
      "Intact r'" "LatestCheckpoint r' = Some demo_cp"
    using reach_verifies [OF reach known] by (auto simp: latestCheckpoint_def)
  have cp: "VerifyCheckpointDigest demo_cp ''old''" "cp_Seq demo_cp = 1"
    by (simp_all add: VerifyCheckpointDigest_def demo_cp_def head_checkpoint_def demo_service_def signer_key_def demo_ring_def)
  have short: "\<forall>e \<in> set (audit_events \<lparr>audit_events = [demo_row1], audit_checkpoints = [demo_cp]\<rparr>)
      \<union> set (audit_events \<lparr>audit_events = [demo_row1, demo_row2], audit_checkpoints = [demo_cp]\<rparr>). fields_short e"
    by (simp add: demo_short)
  from stored_digest_anchors_history [OF r r' cp(1) cp(1) refl short] show ?thesis
    using r(1) r'(1) by (simp only: cp(2) Let_def nat_one_as_int [symmetric] select_convs) auto
qed

end
