(* ===== verification/AuditKeysProps.thy ===== *)
theory AuditKeysProps
  imports AuditKeys AuditProps
begin

text \<open>
  What \<^verbatim>\<open>LoadKeyring\<close> (\<^verbatim>\<open>src/internal/audit/keys.go\<close>) resolves: a keyring in which ids belong to their keys,
  a signer its own verifier knows, keys that stay verifiable when they are rotated out, and a
  persistent key that every start finds again.
\<close>

section \<open>Base64 text\<close>

lemma b64_val_char: "n < 64 \<Longrightarrow> b64_val (b64_char n) = Some n"
  by (auto simp: b64_val_def b64_char_def Let_def)

lemma b64_pad_val: "b64_val b64_pad = None"
  by (simp add: b64_val_def)

lemma char_parts:
  "(of_char c :: nat) div 4 < 64" "(of_char c :: nat) div 16 < 16" "(of_char c :: nat) div 64 < 4"
  using of_char_lt [of c] by (simp_all add: less_mult_imp_div_less)

lemma join_parts:
  "w < 16 \<Longrightarrow> (16 * m + w) div 16 = (m :: nat)" "w < 16 \<Longrightarrow> (16 * m + w) mod 16 = w"
  "w < 4 \<Longrightarrow> (4 * m + w) div 4 = m" "w < 4 \<Longrightarrow> (4 * m + w) mod 4 = w"
  "byte (4 * ((of_char c :: nat) div 4) + of_char c mod 4) = c"
  "byte (16 * ((of_char c :: nat) div 16) + of_char c mod 16) = c"
  "byte (64 * ((of_char c :: nat) div 64) + of_char c mod 64) = c"
  by (simp_all only: mult_div_mod_eq byte_of_char) simp_all

lemma sextet_bounds:
  "x < 4 \<Longrightarrow> w < 16 \<Longrightarrow> 16 * x + w < (64 :: nat)" "x < 16 \<Longrightarrow> w < 4 \<Longrightarrow> 4 * x + w < (64 :: nat)"
  "x < 4 \<Longrightarrow> 16 * x < (64 :: nat)" "x < 16 \<Longrightarrow> 4 * x < (64 :: nat)"
  by simp_all

lemma b64_round: "b64_quanta (b64_encode bs) = Some bs"
proof (induction bs rule: b64_encode.induct)
  case (2 a)
  have "(16 * ((of_char a :: nat) mod 4)) div 16 = of_char a mod 4" by simp
  then show ?case by (simp add: Let_def b64_val_char b64_pad_val char_parts sextet_bounds join_parts)
next
  case (3 a b)
  have "(4 * ((of_char b :: nat) mod 16)) div 4 = of_char b mod 16" by simp
  then show ?case by (simp add: Let_def b64_val_char b64_pad_val char_parts sextet_bounds join_parts)
next
  case (4 a b c r)
  then show ?case by (simp add: Let_def b64_val_char char_parts sextet_bounds join_parts)
qed simp

definition plain_char :: "char \<Rightarrow> bool" where
  "plain_char c \<longleftrightarrow> \<not> is_space c \<and> c \<noteq> nl \<and> c \<noteq> cr \<and> c \<noteq> CHR '','' \<and> c \<noteq> CHR '':''"

lemma plain_byte:
  assumes "n < 256" "n \<notin> {9, 10, 11, 12, 13, 32, 44, 58}"
  shows "plain_char (byte n)"
proof -
  have "(of_char (byte n) :: nat) = n" using assms(1) by simp
  moreover have "c = CHR '','' \<Longrightarrow> (of_char c :: nat) = 44" "c = CHR '':'' \<Longrightarrow> (of_char c :: nat) = 58"
    "c = nl \<Longrightarrow> (of_char c :: nat) = 10" "c = cr \<Longrightarrow> (of_char c :: nat) = 13" for c by simp_all
  ultimately show ?thesis using assms(2) unfolding plain_char_def is_space_iff by fastforce
qed

lemma b64_plain: "list_all plain_char (b64_encode bs)"
proof -
  have char: "plain_char (b64_char n)" if "n < 64" for n
    using that unfolding b64_char_def by (intro plain_byte) auto
  have pad: "plain_char b64_pad" by code_simp
  show ?thesis
    by (induction bs rule: b64_encode.induct)
      (simp_all add: Let_def char pad char_parts sextet_bounds)
qed

lemma b64_size: "length (b64_encode bs) mod 4 = 0" "length bs \<le> length (b64_encode bs)"
proof -
  show "length (b64_encode bs) mod 4 = 0" by (induction bs rule: b64_encode.induct) (simp_all add: Let_def)
  show "length bs \<le> length (b64_encode bs)"
    by (induction bs rule: b64_encode.induct) (auto simp: Let_def intro: le_SucI)
qed

lemma plain_trim: "list_all plain_char s \<Longrightarrow> TrimSpace s = s"
proof (cases "s = []")
  case False
  moreover assume "list_all plain_char s"
  ultimately have "plain_char (hd s)" "plain_char (last s)" by (simp_all add: list_all_iff)
  then show ?thesis using False by (intro TrimSpace_id) (simp_all add: plain_char_def)
qed (simp add: TrimSpace_def)

lemma decode_encode: "DecodeString (b64_encode bs) = Some bs"
proof -
  have "filter (\<lambda>c. c \<noteq> nl \<and> c \<noteq> cr) (b64_encode bs) = b64_encode bs"
    using b64_plain [of bs] by (auto simp: filter_id_conv list_all_iff plain_char_def)
  then show ?thesis by (simp add: DecodeString_def b64_round)
qed

lemma parse_encoded:
  assumes "minAuditKeyBytes \<le> length key"
  shows "parseKeyMaterial (b64_encode key) = Inr (material key)"
proof -
  have "b64_encode key \<noteq> []" using assms b64_size(2) [of key] by (auto simp: minAuditKeyBytes_def)
  then show ?thesis
    using assms by (simp add: parseKeyMaterial_def plain_trim b64_plain decode_encode b64_size Let_def)
qed

section \<open>Key ids\<close>

lemma hex_digit_shape: "n < 16 \<Longrightarrow> isKeyIDShape [hex_digit n]"
  by (simp add: isKeyIDShape_def hex_digit_code Let_def)

lemma hex_text: "set xs \<subseteq> {..<256} \<Longrightarrow> isKeyIDShape (EncodeToString xs) \<and> length (EncodeToString xs) = 2 * length xs"
proof (induction xs)
  case (Cons x xs)
  then have "isKeyIDShape [hex_digit (x div 16)]" "isKeyIDShape [hex_digit (x mod 16)]"
    by (intro hex_digit_shape; simp add: less_mult_imp_div_less)+
  then show ?case using Cons by (simp add: EncodeToString_def isKeyIDShape_def)
qed (simp add: EncodeToString_def isKeyIDShape_def)

lemma keyID_facts: "isKeyIDShape (keyID k)" "length (keyID k) = 8" "keyID k \<noteq> []" "list_all plain_char (keyID k)"
proof -
  have "set (take 4 (Sum256 k)) \<subseteq> {..<256}" using Sum256_facts(2) by (auto dest: in_set_takeD)
  then show id: "isKeyIDShape (keyID k)" "length (keyID k) = 8"
    using hex_text [of "take 4 (Sum256 k)"] by (simp_all add: keyID_def Sum256_facts)
  then show "keyID k \<noteq> []" by auto
  have "plain_char c" if "(97 \<le> (of_char c :: nat) \<and> (of_char c :: nat) \<le> 122) \<or> (48 \<le> (of_char c :: nat) \<and> (of_char c :: nat) \<le> 57)" for c
    using plain_byte [of "of_char c"] that by auto
  then show "list_all plain_char (keyID k)" using id(1) by (simp add: isKeyIDShape_def list_all_iff Let_def)
qed

text \<open>The line an operator pastes is read back as the key.\<close>

lemma spec_entry_round:
  assumes "minAuditKeyBytes \<le> length key"
  shows "spec_entry pos (keyID key @ [CHR '':''] @ b64_encode key) = Inr (material key)"
proof -
  have "CHR '':'' \<notin> set (keyID key)" using keyID_facts(4) [of key] by (auto simp: list_all_iff plain_char_def)
  then have "Cut (CHR '':'') (keyID key @ [CHR '':''] @ b64_encode key) = Some (keyID key, b64_encode key)"
    by (auto simp: Cut_def dropWhile_append takeWhile_append dropWhile_eq_Nil_conv takeWhile_eq_all_conv)
  then show ?thesis
    by (simp add: spec_entry_def plain_trim keyID_facts parse_encoded [OF assms] material_def Let_def)
qed

section \<open>The keyring\<close>

lemma put_facts:
  assumes "putVerificationKey i key kr = Inr kr'"
  shows "map_of (kr_verify kr') = (map_of (kr_verify kr))(i \<mapsto> key)"
    and "map_of (kr_verify kr) j = Some k \<Longrightarrow> map_of (kr_verify kr') j = Some k"
    and "kr' = kr\<lparr>kr_verify := kr_verify kr'\<rparr>"
    and "distinct (map fst (kr_verify kr)) \<Longrightarrow> distinct (map fst (kr_verify kr'))"
  using assms
  by (auto simp: putVerificationKey_def update_conv distinct_update split: option.splits if_splits)

text \<open>Material that parses is at least as long as the floor and carries the id of its bytes.\<close>

definition sound_material :: "KeyMaterial \<Rightarrow> bool" where
  "sound_material km \<longleftrightarrow> km = material (km_Key km) \<and> minAuditKeyBytes \<le> length (km_Key km)"

lemma parsed_sound:
  "parseKeyMaterial raw = Inr km \<Longrightarrow> sound_material km"
  "parseKeyFile raw = Inr km \<Longrightarrow> sound_material km"
  "spec_entry pos entry = Inr km \<Longrightarrow> sound_material km"
  "fst (loadOrCreateKeyFile fs file) = Inr km \<Longrightarrow> sound_material km"
proof -
  show parse: "parseKeyMaterial raw = Inr km \<Longrightarrow> sound_material km" for raw
    by (auto simp: parseKeyMaterial_def sound_material_def material_def Let_def split: option.splits if_splits)
  show key_file: "parseKeyFile raw = Inr km \<Longrightarrow> sound_material km" for raw
    by (auto simp: parseKeyFile_def sound_material_def material_def split: option.splits if_splits)
  show "spec_entry pos entry = Inr km \<Longrightarrow> sound_material km"
    using parse by (auto simp: spec_entry_def Let_def split: option.splits sum.splits if_splits)
  show "fst (loadOrCreateKeyFile fs file) = Inr km \<Longrightarrow> sound_material km"
    using key_file by (auto simp: loadOrCreateKeyFile_def split: option.splits if_splits prod.splits bool.splits)
qed

definition ring_sound :: "Keyring \<Rightarrow> bool" where
  "ring_sound kr \<longleftrightarrow> distinct (map fst (kr_verify kr))
     \<and> (\<forall>i k. map_of (kr_verify kr) i = Some k \<longrightarrow> i = keyID k)"

lemma put_sound: "putVerificationKey (keyID k) k kr = Inr kr' \<Longrightarrow> ring_sound kr \<Longrightarrow> ring_sound kr'"
  using put_facts [of "keyID k" k kr kr'] by (auto simp: ring_sound_def split: if_splits)

text \<open>What reading the rotation keyring adds to a ring and to the historical keys.\<close>

definition spec_grows :: "Keyring \<Rightarrow> bytes list \<Rightarrow> Keyring \<Rightarrow> bytes list \<Rightarrow> bool" where
  "spec_grows kr historical kr' historical' \<longleftrightarrow> ring_sound kr' \<and> kr' = kr\<lparr>kr_verify := kr_verify kr'\<rparr>
     \<and> set historical \<subseteq> set historical'
     \<and> (\<forall>k \<in> set historical'. k \<in> set historical \<or> minAuditKeyBytes \<le> length k)
     \<and> (\<forall>i k. map_of (kr_verify kr) i = Some k \<longrightarrow> map_of (kr_verify kr') i = Some k)
     \<and> (\<forall>i k. map_of (kr_verify kr') i = Some k \<longrightarrow> map_of (kr_verify kr) i = Some k \<or> minAuditKeyBytes \<le> length k)"

lemma spec_grows_trans:
  "spec_grows kr h kr' h' \<Longrightarrow> spec_grows kr' h' kr'' h'' \<Longrightarrow> spec_grows kr h kr'' h''"
  unfolding spec_grows_def by (metis Keyring.surjective Keyring.update_convs(3) subset_trans)

lemma put_grows:
  assumes "putVerificationKey (km_ID km) (km_Key km) kr = Inr kr'" "sound_material km" "ring_sound kr"
  shows "spec_grows kr h kr' (h @ [km_Key km])"
proof -
  have km: "km_ID km = keyID (km_Key km)" "minAuditKeyBytes \<le> length (km_Key km)"
    using assms(2) by (auto simp: sound_material_def material_def) (metis KeyMaterial.select_convs(1))
  show ?thesis
    using put_facts(1,3) [OF assms(1)] put_facts(2) [OF assms(1)] put_sound [OF assms(1) [unfolded km(1)] assms(3)] km(2)
    unfolding spec_grows_def by (auto split: if_splits)
qed

lemma load_spec_grows:
  "load_spec pos entries kr historical = Inr (kr', historical') \<Longrightarrow> ring_sound kr
    \<Longrightarrow> spec_grows kr historical kr' historical'
      \<and> (\<forall>entry \<in> set entries. TrimSpace entry \<noteq> [] \<longrightarrow> (\<exists>km p. spec_entry p (TrimSpace entry) = Inr km
           \<and> map_of (kr_verify kr') (km_ID km) = Some (km_Key km) \<and> km_Key km \<in> set historical'))"
proof (induction pos entries kr historical rule: load_spec.induct)
  case (1 pos kr historical)
  then show ?case by (auto simp: spec_grows_def)
next
  case (2 pos entry entries kr historical)
  show ?case
  proof (cases "TrimSpace entry = []")
    case True
    then show ?thesis using 2 by simp
  next
    case False
    obtain km kr1 where km: "spec_entry pos (TrimSpace entry) = Inr km"
      and put: "putVerificationKey (km_ID km) (km_Key km) kr = Inr kr1"
      and rest: "load_spec (pos + 1) entries kr1 (historical @ [km_Key km]) = Inr (kr', historical')"
      using "2.prems"(1) False by (auto split: sum.splits)
    have step: "spec_grows kr historical kr1 (historical @ [km_Key km])"
      using put_grows [OF put parsed_sound(3) [OF km]] "2.prems"(2) by simp
    then have "ring_sound kr1" by (simp add: spec_grows_def)
    note later = "2.IH"(2) [OF False km put rest this]
    have "map_of (kr_verify kr') (km_ID km) = Some (km_Key km)" "km_Key km \<in> set historical'"
      using later put_facts(1) [OF put] by (auto simp: spec_grows_def)
    then show ?thesis using later spec_grows_trans [OF step] km by auto
  qed
qed

lemma dedup_facts: "set (dedupKeys ks) = set ks" "distinct (dedupKeys ks)"
proof -
  have "set (dedup_onto out ks) = set out \<union> set ks \<and> (distinct out \<longrightarrow> distinct (dedup_onto out ks))" for out
    by (induction ks arbitrary: out) auto
  then show "set (dedupKeys ks) = set ks" "distinct (dedupKeys ks)" by (simp_all add: dedupKeys_def)
qed

text \<open>The stages of \<^verbatim>\<open>LoadKeyring\<close>: the rotation keyring, the signer, and the signer among the verification keys.\<close>

lemma load_stages:
  assumes "LoadKeyring env fs file = Inr kr"
  obtains kr1 historical kr2 kr3 where
    "load_spec 0 (Split (CHR '','') (KeyringSpec env)) empty_ring [] = Inr (kr1, historical)"
    "spec_grows empty_ring [] kr1 historical"
    "resolve_signer env fs file kr1 = Inr kr2"
    "if Keyed kr2 then putVerificationKey (km_ID (kr_Signer kr2)) (km_Key (kr_Signer kr2)) kr2 = Inr kr3 else kr3 = kr2"
    "kr = kr3\<lparr>kr_legacy := dedupKeys (legacy_candidates env kr3 historical)\<rparr>"
proof -
  have sound: "ring_sound empty_ring" by (simp add: ring_sound_def empty_ring_def)
  obtain kr1 historical where spec: "load_spec 0 (Split (CHR '','') (KeyringSpec env)) empty_ring [] = Inr (kr1, historical)"
    using assms by (auto simp: LoadKeyring_def split: sum.splits)
  obtain kr2 where signer: "resolve_signer env fs file kr1 = Inr kr2"
    using assms by (auto simp: LoadKeyring_def spec split: sum.splits)
  show thesis
    using that [OF spec _ signer] load_spec_grows [OF spec sound] assms
    by (auto simp: LoadKeyring_def spec signer split: sum.splits if_splits)
qed

lemma resolve_facts:
  assumes "resolve_signer env fs file kr = Inr kr'"
  shows "kr_verify kr' = kr_verify kr"
    and "Keyed kr' \<Longrightarrow> kr_Signer kr' = material (km_Key (kr_Signer kr'))
      \<and> (minAuditKeyBytes \<le> length (km_Key (kr_Signer kr')) \<or> km_Key (kr_Signer kr') = Fallback env \<and> Fallback env \<noteq> [])"
    and "\<not> Keyed kr' \<Longrightarrow> kr_Signer kr' = kr_Signer kr"
    and "kr_Status kr' = KeyStatusPersistent \<Longrightarrow> sound_material (kr_Signer kr') \<and> kr_keyFile kr' \<noteq> []"
  using assms parsed_sound(1) [of "Dedicated env"] parsed_sound(4) [of fs "file"]
  by (auto simp: resolve_signer_def sound_material_def Keyed_def material_def split: sum.splits if_splits)

lemma signer_ring:
  assumes spec: "spec_grows empty_ring [] kr1 historical" and signer: "resolve_signer env fs file kr1 = Inr kr2"
    and put: "if Keyed kr2 then putVerificationKey (km_ID (kr_Signer kr2)) (km_Key (kr_Signer kr2)) kr2 = Inr kr3
      else kr3 = kr2"
  shows "ring_sound kr3" "kr_Signer kr3 = kr_Signer kr2" "Keyed kr3 = Keyed kr2"
    and "map_of (kr_verify kr3) i = Some k \<Longrightarrow> minAuditKeyBytes \<le> length k \<or> k = Fallback env"
    and "map_of (kr_verify kr1) i = Some k \<Longrightarrow> map_of (kr_verify kr3) i = Some k"
    and "Keyed kr2 \<Longrightarrow> km_ID (kr_Signer kr2) = keyID (km_Key (kr_Signer kr2))
      \<and> map_of (kr_verify kr3) (keyID (km_Key (kr_Signer kr2))) = Some (km_Key (kr_Signer kr2))
      \<and> (minAuditKeyBytes \<le> length (km_Key (kr_Signer kr2)) \<or> km_Key (kr_Signer kr2) = Fallback env \<and> Fallback env \<noteq> [])"
    and "\<not> Keyed kr2 \<Longrightarrow> km_Key (kr_Signer kr2) = []"
proof -
  let ?k = "km_Key (kr_Signer kr2)"
  note res = resolve_facts [OF signer]
  have sound2: "ring_sound kr2" using spec res(1) by (simp add: spec_grows_def ring_sound_def)
  have long1: "map_of (kr_verify kr2) i = Some k \<Longrightarrow> minAuditKeyBytes \<le> length k" for i k
    using spec res(1) by (auto simp: spec_grows_def empty_ring_def)
  have id: "km_ID (kr_Signer kr2) = keyID ?k" if "Keyed kr2"
    using res(2) [OF that] by (metis KeyMaterial.select_convs(1) material_def)
  have "kr_Signer kr1 = kr_Signer empty_ring" using spec unfolding spec_grows_def by (metis Keyring.select_convs(2) Keyring.surjective Keyring.update_convs(3))
  then show "\<not> Keyed kr2 \<Longrightarrow> ?k = []" using res(3) by (simp add: empty_ring_def)
  have all: "ring_sound kr3 \<and> kr_Signer kr3 = kr_Signer kr2 \<and> Keyed kr3 = Keyed kr2
    \<and> (\<forall>i k. map_of (kr_verify kr3) i = Some k \<longrightarrow> minAuditKeyBytes \<le> length k \<or> k = Fallback env)
    \<and> (\<forall>i k. map_of (kr_verify kr2) i = Some k \<longrightarrow> map_of (kr_verify kr3) i = Some k)
    \<and> (Keyed kr2 \<longrightarrow> map_of (kr_verify kr3) (keyID ?k) = Some ?k)"
  proof (cases "Keyed kr2")
    case True
    then have put: "putVerificationKey (keyID ?k) ?k kr2 = Inr kr3" using put id by simp
    note facts = put_facts(1,3) [OF put]
    have "kr_Signer kr3 = kr_Signer kr2" "Keyed kr3 = Keyed kr2"
      by (subst facts(2), simp add: Keyed_def)+
    then show ?thesis
      using put_sound [OF put sound2] facts(1) put_facts(2) [OF put] res(2) [OF True] long1 by (auto split: if_splits)
  next
    case False
    then show ?thesis using put sound2 long1 by simp
  qed
  then show "ring_sound kr3" "kr_Signer kr3 = kr_Signer kr2" "Keyed kr3 = Keyed kr2"
    "map_of (kr_verify kr3) i = Some k \<Longrightarrow> minAuditKeyBytes \<le> length k \<or> k = Fallback env"
    "map_of (kr_verify kr1) i = Some k \<Longrightarrow> map_of (kr_verify kr3) i = Some k"
    using res(1) by simp_all
  show "Keyed kr2 \<Longrightarrow> km_ID (kr_Signer kr2) = keyID ?k \<and> map_of (kr_verify kr3) (keyID ?k) = Some ?k
      \<and> (minAuditKeyBytes \<le> length ?k \<or> ?k = Fallback env \<and> Fallback env \<noteq> [])"
    using all id res(2) by blast
qed

text \<open>C28: A keyring that LoadKeyring accepts names every key by its own id, once, and holds no key below
  the floor except the session secret; whatever it signs it also verifies; the signer is among the
  candidates for rows without a key id; and these candidates hold no key twice and not the
  empty key.\<close>

theorem keyring_resolved:
  assumes "LoadKeyring env fs file = Inr kr"
  shows "distinct (map fst (kr_verify kr))
    \<and> (\<forall>i k. KeyFor kr i = Some k \<longrightarrow> i = keyID k \<and> (minAuditKeyBytes \<le> length k \<or> k = Fallback env))
    \<and> signer_known (Some kr) (Some kr)
    \<and> (Keyed kr \<longrightarrow> km_Key (kr_Signer kr) \<in> set (kr_legacy kr))
    \<and> distinct (kr_legacy kr) \<and> [] \<notin> set (kr_legacy kr)"
proof -
  obtain kr1 historical kr2 kr3 where
    spec: "spec_grows empty_ring [] kr1 historical" and signer: "resolve_signer env fs file kr1 = Inr kr2"
    and put: "if Keyed kr2 then putVerificationKey (km_ID (kr_Signer kr2)) (km_Key (kr_Signer kr2)) kr2 = Inr kr3
      else kr3 = kr2"
    and kr: "kr = kr3\<lparr>kr_legacy := dedupKeys (legacy_candidates env kr3 historical)\<rparr>"
    using load_stages [OF assms] by metis
  note ring = signer_ring [OF spec signer put]
  have same: "kr_verify kr = kr_verify kr3" "kr_Signer kr = kr_Signer kr2" "Keyed kr = Keyed kr2"
    using ring(2,3) by (simp_all add: kr Keyed_def)
  have hist: "k \<in> set historical \<Longrightarrow> minAuditKeyBytes \<le> length k" for k
    using spec by (auto simp: spec_grows_def)
  have "signer_known (Some kr) (Some kr)"
    using ring(6,7) keyID_facts(3) same by (auto simp: signer_known_def KeyFor_def)
  moreover have "[] \<notin> set (kr_legacy kr)"
    using hist [of "[]"] ring(3,6) by (auto simp: kr dedup_facts legacy_candidates_def minAuditKeyBytes_def ring(2))
  moreover have "Keyed kr \<longrightarrow> km_Key (kr_Signer kr) \<in> set (kr_legacy kr)"
    using ring(2,3) same by (simp add: kr dedup_facts legacy_candidates_def)
  moreover have "distinct (kr_legacy kr)" by (simp add: kr dedup_facts)
  ultimately show ?thesis
    using ring(1,4) same(1) by (auto simp: ring_sound_def KeyFor_def)
qed

lemma publish_keeps: "publishKeyNoReplace fs data old = (ok, new) \<Longrightarrow> old \<noteq> None \<Longrightarrow> new = old"
  by (auto simp: publishKeyNoReplace_def split: if_splits option.splits link_outcome.splits)

lemma load_key_file:
  assumes "loadOrCreateKeyFile fs old = (Inr km, new)"
  shows "\<exists>raw. new = Some raw \<and> parseKeyFile raw = Inr km" "old \<noteq> None \<Longrightarrow> new = old"
    "old = None \<Longrightarrow> kf_raced fs \<noteq> None \<Longrightarrow> new = kf_raced fs"
proof -
  have "(\<exists>raw. new = Some raw \<and> parseKeyFile raw = Inr km) \<and> (old \<noteq> None \<longrightarrow> new = old)
    \<and> (old = None \<longrightarrow> kf_raced fs \<noteq> None \<longrightarrow> new = kf_raced fs)"
  proof (cases old)
    case None
    obtain key where key: "kf_random fs = Some key" "kf_readable fs" "kf_mkdir fs"
      using assms None by (auto simp: loadOrCreateKeyFile_def split: if_splits option.splits)
    obtain ok new' where pub: "publishKeyNoReplace fs (print_key_file (material key)) (kf_raced fs) = (ok, new')"
      by fastforce
    note run = assms [unfolded loadOrCreateKeyFile_def None option.case key(1) pub prod.case]
    have ok: "ok" using run key(2,3) by (cases ok) simp_all
    obtain raw where raw: "new' = Some raw" using run key(2,3) ok by (cases new') simp_all
    have "new = Some raw \<and> parseKeyFile raw = Inr km"
      using run key(2,3) ok raw by (simp split: if_splits)
    then have "new' = new" "\<exists>raw. new = Some raw \<and> parseKeyFile raw = Inr km" using raw by auto
    then show ?thesis using publish_keeps [OF pub] None by simp
  next
    case (Some raw)
    then show ?thesis using assms by (auto simp: loadOrCreateKeyFile_def split: if_splits)
  qed
  then show "\<exists>raw. new = Some raw \<and> parseKeyFile raw = Inr km" "old \<noteq> None \<Longrightarrow> new = old"
    "old = None \<Longrightarrow> kf_raced fs \<noteq> None \<Longrightarrow> new = kf_raced fs" by auto
qed

text \<open>The persistent key is decided once: after a start that got a key from the file, published or found,
  every later start that can read the file gets the same key and leaves the file alone, and no start
  replaces a file that exists.\<close>

theorem key_file_decided_once:
  assumes "loadOrCreateKeyFile fs file = (Inr km, file')" "kf_readable fs'"
  shows "loadOrCreateKeyFile fs' file' = (Inr km, file') \<and> (file \<noteq> None \<longrightarrow> file' = file)
    \<and> (file = None \<longrightarrow> kf_raced fs \<noteq> None \<longrightarrow> file' = kf_raced fs)"
proof -
  obtain raw where "file' = Some raw" "parseKeyFile raw = Inr km"
    using load_key_file(1) [OF assms(1)] by blast
  then have "loadOrCreateKeyFile fs' file' = (Inr km, file')"
    using assms(2) by (simp add: loadOrCreateKeyFile_def)
  then show ?thesis using load_key_file(2,3) [OF assms(1)] by blast
qed

lemma key_file_round:
  assumes "minAuditKeyBytes \<le> length key"
  shows "parseKeyFile (print_key_file (material key)) = Inr (material key)"
proof -
  have "json_ok (JObj [(''key_id'', JStr (keyID key)), (''key_b64'', JStr (b64_encode key))])" by simp
  then have "parse_json (print_key_file (material key)) = Some (JObj [(''key_id'', JStr (keyID key)), (''key_b64'', JStr (b64_encode key))])"
    by (simp add: print_key_file_def material_def parse_json_print del: print_json.simps)
  moreover have "key_match ''key_id'' ''key_id''" "\<not> key_match ''key_id'' ''key_b64''" "\<not> key_match ''key_b64'' ''key_id''"
    "key_match ''key_b64'' ''key_b64''" by code_simp+
  ultimately show ?thesis
    using assms by (simp add: parseKeyFile_def parse_members_of_def decode_encode material_def)
qed

text \<open>A first start that publishes its fresh key by a link, then a restart.\<close>

definition demo_fs :: key_fs where
  "demo_fs = \<lparr>kf_readable = True, kf_random = Some (replicate 32 (CHR ''k'')), kf_mkdir = True, kf_temp = True, kf_raced = None,
     kf_link = Linked, kf_create = True, kf_written = None, kf_dirsync = True, kf_rereadable = True\<rparr>"

abbreviation demo_key :: bytes where "demo_key \<equiv> replicate 32 (CHR ''k'')"

lemma demo_first_start:
  "loadOrCreateKeyFile demo_fs None = (Inr (material demo_key), Some (print_key_file (material demo_key)))"
  using key_file_round [of demo_key]
  by (simp add: loadOrCreateKeyFile_def demo_fs_def publishKeyNoReplace_def minAuditKeyBytes_def)

lemma key_file_decided_once_witness:
  "loadOrCreateKeyFile demo_fs (Some (print_key_file (material demo_key)))
     = (Inr (material demo_key), Some (print_key_file (material demo_key)))"
  using key_file_decided_once [OF demo_first_start, of demo_fs] by (simp add: demo_fs_def)

text \<open>The rotation line of a persistent key: the next keyring has the key under its id.\<close>

lemma rotation_line:
  assumes "LoadKeyring env fs file = Inr kr" "kr_Status kr = KeyStatusPersistent"
  defines "k \<equiv> km_Key (kr_Signer kr)"
  shows "kr_Signer kr = material k" "minAuditKeyBytes \<le> length k"
    and "RotationSpec kr = keyID k @ [CHR '':''] @ b64_encode k" "TrimSpace (RotationSpec kr) = RotationSpec kr"
proof -
  obtain kr1 historical kr2 kr3 where
    spec: "spec_grows empty_ring [] kr1 historical" and signer: "resolve_signer env fs file kr1 = Inr kr2"
    and put: "if Keyed kr2 then putVerificationKey (km_ID (kr_Signer kr2)) (km_Key (kr_Signer kr2)) kr2 = Inr kr3
      else kr3 = kr2"
    and kr: "kr = kr3\<lparr>kr_legacy := dedupKeys (legacy_candidates env kr3 historical)\<rparr>"
    using load_stages [OF assms(1)] by metis
  have "kr3 = kr2\<lparr>kr_verify := kr_verify kr3\<rparr>" using put put_facts(3) by (auto split: if_splits)
  then have "kr_Status kr3 = kr_Status kr2" "kr_Signer kr3 = kr_Signer kr2" "kr_keyFile kr3 = kr_keyFile kr2"
    by (metis Keyring.select_convs Keyring.surjective Keyring.update_convs(3))+
  then have "sound_material (kr_Signer kr)" "kr_keyFile kr \<noteq> []"
    using resolve_facts(4) [OF signer] assms(2) by (simp_all add: kr)
  then show sig: "kr_Signer kr = material k" and long: "minAuditKeyBytes \<le> length k"
    and line: "RotationSpec kr = keyID k @ [CHR '':''] @ b64_encode k"
    using assms(2) by (auto simp: sound_material_def k_def RotationSpec_def material_def) (metis KeyMaterial.select_convs(1))
  have "b64_encode k \<noteq> []" using long b64_size(2) [of k] by (auto simp: minAuditKeyBytes_def)
  moreover have "plain_char (hd (keyID k))" "b64_encode k \<noteq> [] \<Longrightarrow> plain_char (last (b64_encode k))"
    using keyID_facts(3,4) [of k] b64_plain [of k] by (simp_all add: list_all_iff)
  ultimately show "TrimSpace (RotationSpec kr) = RotationSpec kr"
    unfolding line by (intro TrimSpace_id) (auto simp: plain_char_def keyID_facts(3))
qed

lemma rotation_known:
  assumes old: "LoadKeyring env fs file = Inr kr" "kr_Status kr = KeyStatusPersistent"
    and new: "LoadKeyring env' fs' file' = Inr kr'"
    and spec: "RotationSpec kr \<in> set (Split (CHR '','') (KeyringSpec env'))"
  shows "signer_known (Some kr') (Some kr)" "km_Key (kr_Signer kr) \<in> set (kr_legacy kr')"
proof -
  define k where "k = km_Key (kr_Signer kr)"
  note line = rotation_line [OF old, folded k_def]
  obtain kr1 historical kr2 kr3 where
    load: "load_spec 0 (Split (CHR '','') (KeyringSpec env')) empty_ring [] = Inr (kr1, historical)"
    and grown: "spec_grows empty_ring [] kr1 historical" and signer: "resolve_signer env' fs' file' kr1 = Inr kr2"
    and put: "if Keyed kr2 then putVerificationKey (km_ID (kr_Signer kr2)) (km_Key (kr_Signer kr2)) kr2 = Inr kr3
      else kr3 = kr2"
    and kr': "kr' = kr3\<lparr>kr_legacy := dedupKeys (legacy_candidates env' kr3 historical)\<rparr>"
    using load_stages [OF new] by metis
  have "ring_sound empty_ring" by (simp add: ring_sound_def empty_ring_def)
  moreover have "RotationSpec kr \<noteq> []" by (simp add: line(3))
  ultimately obtain km p where km: "spec_entry p (RotationSpec kr) = Inr km"
      "map_of (kr_verify kr1) (km_ID km) = Some (km_Key km)" "km_Key km \<in> set historical"
    using load_spec_grows [OF load] spec line(4) by metis
  have "km = material k" using km(1) spec_entry_round [OF line(2), of p] by (simp add: line(3))
  then have "map_of (kr_verify kr') (keyID k) = Some k" "k \<in> set historical"
    using km signer_ring(5) [OF grown signer put] by (simp_all add: material_def kr')
  then show "signer_known (Some kr') (Some kr)" "km_Key (kr_Signer kr) \<in> set (kr_legacy kr')"
    using line(1) old(2) keyID_facts(3) [of k]
    by (simp_all add: signer_known_def Keyed_def material_def KeyFor_def kr' dedup_facts legacy_candidates_def k_def [symmetric])
qed

text \<open>C27: A key that is rotated out keeps verifying: when the line RotationSpec gives for a persistent key is an
  entry of the next configuration's keyring, the next keyring verifies the whole chain the old one
  wrote, through every failure, and tries the old key for rows without a key id.\<close>

theorem rotated_key_verifies:
  assumes old: "LoadKeyring env fs file = Inr kr" "kr_Status kr = KeyStatusPersistent"
    and new: "LoadKeyring env' fs' file' = Inr kr'"
    and spec: "RotationSpec kr \<in> set (Split (CHR '','') (KeyringSpec env'))"
    and run: "(audit_step (Some kr'))\<^sup>*\<^sup>* ([], \<lparr>audit_events = [], audit_checkpoints = []\<rparr>, NewServiceWithKeys (Some kr))
      (acks, d, s)"
  shows "km_Key (kr_Signer kr) \<in> set (kr_legacy kr')
    \<and> (\<exists>r. Verify (Some kr') (nucleusReader d (\<lambda>lo. [])) = Inr r \<and> Intact r)"
  using rotation_known [OF old new spec] reach_verifies [OF run] by metis

text \<open>The persistent key of the first start moves to the keyring of a configuration without a signer.\<close>

definition first_env :: KeyEnv where
  "first_env = \<lparr>Dedicated = [], KeyringSpec = [], Fallback = [], File = ''audit.key''\<rparr>"

definition next_env :: KeyEnv where
  "next_env = \<lparr>Dedicated = [], KeyringSpec = keyID demo_key @ [CHR '':''] @ b64_encode demo_key,
     Fallback = [], File = []\<rparr>"

lemma split_plain: "sep \<notin> set s \<Longrightarrow> Split sep s = [s]"
  by (induction s) auto

lemma load_first:
  obtains kr where "LoadKeyring first_env demo_fs None = Inr kr" "kr_Status kr = KeyStatusPersistent"
    "kr_Signer kr = material demo_key" "kr_keyFile kr = ''audit.key''"
  using that demo_first_start
  by (simp add: LoadKeyring_def first_env_def empty_ring_def resolve_signer_def TrimSpace_def Keyed_def putVerificationKey_def)

lemma split_line:
  "Split (CHR '','') (keyID demo_key @ [CHR '':''] @ b64_encode demo_key) = [keyID demo_key @ [CHR '':''] @ b64_encode demo_key]"
  by (rule split_plain)
    (use keyID_facts(4) [of demo_key] b64_plain [of demo_key] in \<open>auto simp: list_all_iff plain_char_def\<close>)

lemma load_next: "\<exists>kr'. LoadKeyring next_env demo_fs None = Inr kr'"
proof -
  let ?line = "keyID demo_key @ [CHR '':''] @ b64_encode demo_key"
  have long: "minAuditKeyBytes \<le> length demo_key" by (simp add: minAuditKeyBytes_def)
  obtain kr where "LoadKeyring first_env demo_fs None = Inr kr" "kr_Status kr = KeyStatusPersistent" "kr_Signer kr = material demo_key"
    by (rule load_first)
  from rotation_line(3,4) [OF this(1,2)] have "TrimSpace ?line = ?line"
    by (simp add: \<open>kr_Signer kr = material demo_key\<close> material_def)
  moreover have "?line \<noteq> []" by simp
  ultimately show ?thesis
    using spec_entry_round [OF long, of 0] split_line
    by (simp add: LoadKeyring_def next_env_def empty_ring_def putVerificationKey_def material_def resolve_signer_def
      Keyed_def TrimSpace_def [of "[]"] del: append_Cons)
qed

lemma rotated_key_verifies_witness:
  "\<exists>kr kr' d s r. LoadKeyring first_env demo_fs None = Inr kr \<and> LoadKeyring next_env demo_fs None = Inr kr'
    \<and> Record (demo_env Inserted) demo_event \<lparr>audit_events = [], audit_checkpoints = []\<rparr> (NewServiceWithKeys (Some kr)) = (None, d, s)
    \<and> Verify (Some kr') (nucleusReader d (\<lambda>lo. [])) = Inr r \<and> Intact r"
proof -
  obtain kr where kr: "LoadKeyring first_env demo_fs None = Inr kr" "kr_Status kr = KeyStatusPersistent"
      "kr_Signer kr = material demo_key" by (rule load_first)
  obtain kr' where kr': "LoadKeyring next_env demo_fs None = Inr kr'" using load_next by blast
  have spec: "RotationSpec kr \<in> set (Split (CHR '','') (KeyringSpec next_env))"
    using rotation_line(3) [OF kr(1,2)] split_line by (simp add: kr(3) next_env_def material_def)
  obtain d s where rec: "Record (demo_env Inserted) demo_event \<lparr>audit_events = [], audit_checkpoints = []\<rparr>
      (NewServiceWithKeys (Some kr)) = (None, d, s)"
    using demo_action
    by (simp add: Record_def loadStateLocked_def NewServiceWithKeys_def demo_env_def CheckpointEvery_def chain_event_simps Let_def)
  have "au_KeyID demo_event = []" by (simp add: demo_event_def)
  from recorded [OF rec this, of "Some kr'" "[]"]
  have "(audit_step (Some kr'))\<^sup>*\<^sup>* ([], \<lparr>audit_events = [], audit_checkpoints = []\<rparr>, NewServiceWithKeys (Some kr))
      ([content (event_defaults (demo_env Inserted) demo_event)], d, s)" by simp
  from rotated_key_verifies [OF kr(1,2) kr' spec this] kr(1) kr' rec show ?thesis by blast
qed

lemma keyring_resolved_witness:
  "\<exists>kr. LoadKeyring first_env demo_fs None = Inr kr \<and> signer_known (Some kr) (Some kr) \<and> [] \<notin> set (kr_legacy kr)"
  using load_first keyring_resolved [of first_env demo_fs None] by metis

end
