(* ===== verification/Persons.thy ===== *)
theory Persons
  imports Json "HOL-Library.List_Lexorder" "HOL-Library.Char_ord"
begin

text \<open>
  Person identity (\<^verbatim>\<open>src/internal/persons/identity.go\<close>, \<^verbatim>\<open>service_identity.go\<close>, the tables of
  \<^verbatim>\<open>store_nucleus.go\<close>): aliases resolved at read time, merges, erasure by tombstones, and the traits of a
  person.  One site is modelled; every call to the store may fail, or be stored with the answer lost.
\<close>

definition MaxPropertyKeys :: nat where "MaxPropertyKeys = 50"
definition MaxPropertyValueLen :: nat where "MaxPropertyValueLen = 1024"
definition MaxPersonKeyLen :: nat where "MaxPersonKeyLen = 256"
definition MaxAliasesPerPerson :: nat where "MaxAliasesPerPerson = 20"
definition MaxAliasesPerSite :: nat where "MaxAliasesPerSite = 10000"
definition MaxTombstonesPerSite :: nat where "MaxTombstonesPerSite = 50000"
definition resolveScanCap :: nat where "resolveScanCap = 5000"

datatype person_error = ErrInvalid | ErrNotFound | ErrConflict | ErrLimit | ErrErased | ErrStore

section \<open>Validation\<close>

text \<open>Whether a key is valid UTF-8 is an argument.\<close>

definition ValidatePersonKey :: "(string \<Rightarrow> bool) \<Rightarrow> string \<Rightarrow> person_error option" where
  "ValidatePersonKey utf8_ok k =
     (if k = [] \<or> MaxPersonKeyLen < length k \<or> \<not> utf8_ok k \<or> CHR 0x00 \<in> set k then Some ErrInvalid else None)"

text \<open>\<^verbatim>\<open>^[A-Za-z_$][A-Za-z0-9_.$-]{0,63}$\<close>\<close>

definition prop_first :: "char \<Rightarrow> bool" where
  "prop_first c \<longleftrightarrow> (let n = of_char c :: nat in 65 \<le> n \<and> n \<le> 90 \<or> 97 \<le> n \<and> n \<le> 122) \<or> c = CHR ''_'' \<or> c = CHR ''$''"

definition propKeyRe :: "string \<Rightarrow> bool" where
  "propKeyRe k \<longleftrightarrow> (case k of [] \<Rightarrow> False
     | c # cs \<Rightarrow> prop_first c \<and> length cs \<le> 63
         \<and> list_all (\<lambda>c. prop_first c \<or> is_digit c \<or> c = CHR ''.'' \<or> c = CHR ''-'') cs)"

definition reservedPropertyKeys :: "string list" where
  "reservedPropertyKeys = [''distinct_id'', ''user_id'']"

text \<open>The batch in the order the map is iterated; a number's text is the one \<^verbatim>\<open>Marshal\<close> writes for it.\<close>

fun ValidateProperties_loop :: "(string \<times> json) list \<Rightarrow> person_error + ((string \<times> json) list \<times> string list)" where
  "ValidateProperties_loop [] = Inr ([], [])"
| "ValidateProperties_loop ((k, v) # kvs) =
     (if \<not> propKeyRe k then Inl ErrInvalid
      else if map lower k \<in> set reservedPropertyKeys then Inl ErrInvalid
      else case v of
          JNull \<Rightarrow> map_sum id (\<lambda>(st, rm). (st, k # rm)) (ValidateProperties_loop kvs)
        | JArr _ \<Rightarrow> Inl ErrInvalid
        | JObj _ \<Rightarrow> Inl ErrInvalid
        | _ \<Rightarrow> if MaxPropertyValueLen < length (print_json v) then Inl ErrInvalid
            else map_sum id (\<lambda>(st, rm). ((k, v) # st, rm)) (ValidateProperties_loop kvs))"

definition ValidateProperties :: "(string \<times> json) list \<Rightarrow> person_error + ((string \<times> json) list \<times> string list)" where
  "ValidateProperties kvs =
     (if MaxPropertyKeys < length kvs then Inl ErrInvalid
      else map_sum id (\<lambda>(st, rm). (st, sort rm)) (ValidateProperties_loop kvs))"

section \<open>Resolving aliases\<close>

record AliasRow =
  AliasKey :: string
  CanonicalKey :: string

record Resolver =
  rs_direct :: "(string \<times> string) list"
  rs_members :: "string \<Rightarrow> string list"
  rs_roots :: "(string \<times> string) list"

fun direct_of :: "AliasRow list \<Rightarrow> (string \<times> string) list \<Rightarrow> (string \<times> string) list" where
  "direct_of [] d = d"
| "direct_of (a # rows) d =
     (if AliasKey a \<noteq> [] \<and> CanonicalKey a \<noteq> [] \<and> AliasKey a \<noteq> CanonicalKey a
      then direct_of rows (AList.update (AliasKey a) (CanonicalKey a) d) else direct_of rows d)"

text \<open>One walk: the root, or the empty key on a cycle, and the path walked.\<close>

function walk_root :: "(string \<times> string) list \<Rightarrow> (string \<times> string) list \<Rightarrow> string list \<Rightarrow> string \<Rightarrow> string \<times> string list" where
  "walk_root d roots path cur =
     (case map_of roots cur of Some r \<Rightarrow> (r, path)
      | None \<Rightarrow>
          if cur \<in> set path then ([], path)
          else (case map_of d cur of None \<Rightarrow> (cur, path)
                | Some nxt \<Rightarrow> walk_root d roots (path @ [cur]) nxt))"
  by pat_completeness auto
termination
proof (relation "measure (\<lambda>(d, roots, path, cur). card (fst ` set d - set path))", goal_cases)
  case (2 d roots path cur nxt)
  then have "cur \<in> fst ` set d - set path" by (force dest: map_of_SomeD)
  then have "card (fst ` set d - set path - {cur}) < card (fst ` set d - set path)"
    by (intro psubset_card_mono) auto
  moreover have "fst ` set d - set (path @ [cur]) = fst ` set d - set path - {cur}" by auto
  ultimately show ?case by simp
qed simp

declare walk_root.simps [simp del]

fun memo_roots :: "(string \<times> string) list \<Rightarrow> string list \<Rightarrow> (string \<times> string) list \<Rightarrow> (string \<times> string) list" where
  "memo_roots d [] roots = roots"
| "memo_roots d (alias # keys) roots =
     (if map_of roots alias \<noteq> None then memo_roots d keys roots
      else (case walk_root d roots [] alias of (root, path) \<Rightarrow>
        memo_roots d keys (map (\<lambda>k. (k, root)) path @ roots)))"

definition canonical_in :: "(string \<times> string) list \<Rightarrow> string \<Rightarrow> string" where
  "canonical_in roots key = (case map_of roots key of None \<Rightarrow> key | Some r \<Rightarrow> if r = [] then key else r)"

definition Canonical :: "Resolver \<Rightarrow> string \<Rightarrow> string" where
  "Canonical r key = canonical_in (rs_roots r) key"

definition IsAlias :: "Resolver \<Rightarrow> string \<Rightarrow> bool" where
  "IsAlias r key \<longleftrightarrow> map_of (rs_direct r) key \<noteq> None"

text \<open>\<open>order\<close> is the order in which the range loops meet the keys of the map.\<close>

definition NewResolver :: "(string list \<Rightarrow> string list) \<Rightarrow> AliasRow list \<Rightarrow> Resolver" where
  "NewResolver order rows =
     (let d = direct_of rows []; keys = order (map fst d); roots = memo_roots d keys [] in
      \<lparr>rs_direct = d,
       rs_members = (\<lambda>c. sort (filter (\<lambda>a. canonical_in roots a \<noteq> a \<and> canonical_in roots a = c) keys)),
       rs_roots = roots\<rparr>)"

definition Members :: "Resolver \<Rightarrow> string \<Rightarrow> string list" where
  "Members r c = rs_members r c"

definition checkedResolver :: "(string list \<Rightarrow> string list) \<Rightarrow> AliasRow list \<Rightarrow> person_error + Resolver" where
  "checkedResolver order rows =
     (if MaxAliasesPerSite < length rows then Inl ErrLimit
      else let r = NewResolver order rows in
        if list_ex (\<lambda>a. AliasKey a = CanonicalKey a \<or> Canonical r (AliasKey a) = AliasKey a) rows
        then Inl ErrConflict else Inr r)"

section \<open>The list of persons\<close>

record Person =
  DistinctID :: string
  FirstSeenMs :: int
  LastSeenMs :: int
  EventCount :: int
  SessionCount :: int
  TopCountry :: string
  TopBrowser :: string

definition absorb :: "Person \<Rightarrow> Person \<Rightarrow> Person" where
  "absorb p q =
     (let p = p\<lparr>EventCount := EventCount p + EventCount q, SessionCount := SessionCount p + SessionCount q\<rparr>;
          p = (if FirstSeenMs q < FirstSeenMs p then p\<lparr>FirstSeenMs := FirstSeenMs q\<rparr> else p)
      in if LastSeenMs p < LastSeenMs q
         then p\<lparr>LastSeenMs := LastSeenMs q, TopCountry := TopCountry q, TopBrowser := TopBrowser q\<rparr> else p)"

text \<open>The accumulator in the order of first appearance.\<close>

fun absorb_into :: "string \<Rightarrow> Person \<Rightarrow> Person list \<Rightarrow> Person list" where
  "absorb_into c p [] = [p\<lparr>DistinctID := c\<rparr>]"
| "absorb_into c p (q # acc) = (if DistinctID q = c then absorb q p # acc else q # absorb_into c p acc)"

fun fold_rows :: "Resolver \<Rightarrow> string list \<Rightarrow> Person list \<Rightarrow> Person list \<Rightarrow> Person list" where
  "fold_rows res tomb [] acc = acc"
| "fold_rows res tomb (p # rows) acc =
     (if DistinctID p \<in> set tomb then fold_rows res tomb rows acc
      else let c = (if DistinctID p \<noteq> [] then Canonical res (DistinctID p) else DistinctID p) in
        if c \<in> set tomb then fold_rows res tomb rows acc else fold_rows res tomb rows (absorb_into c p acc))"

definition foldPersons :: "Person list \<Rightarrow> Resolver \<Rightarrow> string list \<Rightarrow> Person list" where
  "foldPersons rows res tomb = sort_key (\<lambda>p. - LastSeenMs p) (sort_key DistinctID (fold_rows res tomb rows []))"

section \<open>The tables\<close>

text \<open>
  Aliases and traits are rows with a version of which the highest counts; tombstones are rows that are
  only ever added.  \<open>pd_io\<close> says how the next calls of the store end; when it is used up they succeed.
\<close>

record alias_version =
  av_alias :: string
  av_canonical :: string
  av_active :: bool
  av_version :: int

record props_version =
  pv_key :: string
  pv_props :: string
  pv_version :: int

record person_db =
  pd_aliases :: "alias_version list"
  pd_tombs :: "string list"
  pd_props :: "props_version list"
  pd_io :: "insert_outcome list"
  pd_now :: int

definition next_call :: "person_db \<Rightarrow> insert_outcome \<times> person_db" where
  "next_call st = (case pd_io st of [] \<Rightarrow> (Inserted, st) | x # xs \<Rightarrow> (x, st\<lparr>pd_io := xs\<rparr>))"

text \<open>A read succeeds or fails.\<close>

definition read_call :: "person_db \<Rightarrow> bool \<times> person_db" where
  "read_call st = (case next_call st of (x, st) \<Rightarrow> (x = Inserted, st))"

definition latest_alias :: "alias_version list \<Rightarrow> string \<Rightarrow> alias_version option" where
  "latest_alias rows k = max_row av_version (filter (\<lambda>r. av_alias r = k) rows)"

definition active_aliases :: "alias_version list \<Rightarrow> AliasRow list" where
  "active_aliases rows = concat (map (\<lambda>k. case latest_alias rows k of None \<Rightarrow> []
     | Some r \<Rightarrow> if av_active r then [\<lparr>AliasKey = k, CanonicalKey = av_canonical r\<rparr>] else [])
     (sort (remdups (map av_alias rows))))"

definition ListAliases :: "nat \<Rightarrow> person_db \<Rightarrow> (person_error + AliasRow list) \<times> person_db" where
  "ListAliases limit st = (case read_call st of (ok, st) \<Rightarrow>
     (if ok then Inr (take limit (active_aliases (pd_aliases st))) else Inl ErrStore, st))"

definition next_version :: "int \<Rightarrow> int option \<Rightarrow> int" where
  "next_version now prev = (case prev of None \<Rightarrow> now | Some v \<Rightarrow> if now < v + 1 then v + 1 else now)"

definition PutAlias :: "string \<Rightarrow> string \<Rightarrow> bool \<Rightarrow> person_db \<Rightarrow> person_error option \<times> person_db" where
  "PutAlias alias canonical active st =
     (case read_call st of (ok, st) \<Rightarrow>
        if \<not> ok then (Some ErrStore, st)
        else (case next_call st of (out, st) \<Rightarrow>
          (case insert_row out \<lparr>av_alias = alias, av_canonical = canonical, av_active = active,
               av_version = next_version (pd_now st) (map_option av_version (latest_alias (pd_aliases st) alias))\<rparr>
               (pd_aliases st) of
             (ok, rows) \<Rightarrow> (if ok then None else Some ErrStore, st\<lparr>pd_aliases := rows\<rparr>))))"

definition ListTombstones :: "nat \<Rightarrow> person_db \<Rightarrow> (person_error + string list) \<times> person_db" where
  "ListTombstones limit st = (case read_call st of (ok, st) \<Rightarrow>
     (if ok then Inr (take limit (pd_tombs st)) else Inl ErrStore, st))"

definition PutTombstone :: "string \<Rightarrow> person_db \<Rightarrow> person_error option \<times> person_db" where
  "PutTombstone key st = (case next_call st of (out, st) \<Rightarrow>
     (case insert_row out key (pd_tombs st) of (ok, rows) \<Rightarrow> (if ok then None else Some ErrStore, st\<lparr>pd_tombs := rows\<rparr>)))"

definition latestProps :: "props_version list \<Rightarrow> string \<Rightarrow> props_version option" where
  "latestProps rows k = max_row pv_version (filter (\<lambda>r. pv_key r = k) rows)"

definition GetProps :: "string \<Rightarrow> person_db \<Rightarrow> (person_error + string option) \<times> person_db" where
  "GetProps key st = (case read_call st of (ok, st) \<Rightarrow>
     (if ok then Inr (map_option pv_props (latestProps (pd_props st) key)) else Inl ErrStore, st))"

definition PutProps :: "string \<Rightarrow> string \<Rightarrow> person_db \<Rightarrow> person_error option \<times> person_db" where
  "PutProps key doc st =
     (case read_call st of (ok, st) \<Rightarrow>
        if \<not> ok then (Some ErrStore, st)
        else (case next_call st of (out, st) \<Rightarrow>
          (case insert_row out \<lparr>pv_key = key, pv_props = doc,
               pv_version = (let v = (case latestProps (pd_props st) key of None \<Rightarrow> 0 | Some r \<Rightarrow> pv_version r)
                 in if pd_now st < v + 1 then v + 1 else pd_now st)\<rparr> (pd_props st) of
             (ok, rows) \<Rightarrow> (if ok then None else Some ErrStore, st\<lparr>pd_props := rows\<rparr>))))"

section \<open>The service\<close>

type_synonym order = "string list \<Rightarrow> string list"

definition loadResolver :: "order \<Rightarrow> person_db \<Rightarrow> (person_error + Resolver) \<times> person_db" where
  "loadResolver ord st = (case ListAliases (MaxAliasesPerSite + 1) st of
     (Inl e, st) \<Rightarrow> (Inl e, st) | (Inr rows, st) \<Rightarrow> (checkedResolver ord rows, st))"

definition loadTombstones :: "person_db \<Rightarrow> (person_error + string list) \<times> person_db" where
  "loadTombstones st = (case ListTombstones (MaxTombstonesPerSite + 1) st of
     (Inl e, st) \<Rightarrow> (Inl e, st)
   | (Inr keys, st) \<Rightarrow> (if MaxTombstonesPerSite < length keys then Inl ErrLimit else Inr (remdups keys), st))"

definition IsErased :: "order \<Rightarrow> string \<Rightarrow> string \<Rightarrow> person_db \<Rightarrow> (person_error + bool) \<times> person_db" where
  "IsErased ord site key st =
     (if site = [] \<or> key = [] then (Inr False, st)
      else case loadResolver ord st of (Inl e, st) \<Rightarrow> (Inl e, st)
      | (Inr r, st) \<Rightarrow> (case loadTombstones st of (Inl e, st) \<Rightarrow> (Inl e, st)
          | (Inr tomb, st) \<Rightarrow> (Inr (key \<in> set tomb \<or> Canonical r key \<in> set tomb), st)))"

record ListResult =
  lr_Persons :: "Person list"
  lr_Total :: nat
  lr_Resolved :: bool
  lr_Truncated :: bool

record PersonEvent =
  pe_EventID :: string
  pe_EventType :: string
  pe_URL :: string
  pe_Pathname :: string
  pe_Timestamp :: int

text \<open>The events table: per person rows, ordered by last activity, their number, and what is known of one key.\<close>

record event_source =
  es_List :: "nat \<Rightarrow> nat \<Rightarrow> person_error + Person list"
  es_Count :: "person_error + nat"
  es_ListAll :: "nat \<Rightarrow> person_error + Person list"
  es_Aggregate :: "string \<Rightarrow> person_error + Person option"
  es_Timeline :: "string \<Rightarrow> person_error + PersonEvent list"
  es_Exists :: "string \<Rightarrow> person_error + bool"

definition clamp_limit :: "int \<Rightarrow> nat" where
  "clamp_limit limit = (let l = (if limit \<le> 0 then 50 else limit) in nat (if 500 < l then 500 else l))"

definition clamp_offset :: "int \<Rightarrow> nat" where
  "clamp_offset offset = nat (if offset < 0 then 0 else offset)"

definition ListPersons :: "event_source \<Rightarrow> string \<Rightarrow> int \<Rightarrow> int \<Rightarrow> person_error + Person list" where
  "ListPersons ev site limit offset =
     (if site = [] then Inr [] else es_List ev (clamp_limit limit) (clamp_offset offset))"

definition CountPersons :: "event_source \<Rightarrow> string \<Rightarrow> person_error + nat" where
  "CountPersons ev site = (if site = [] then Inr 0 else es_Count ev)"

definition ListResolved :: "order \<Rightarrow> event_source \<Rightarrow> string \<Rightarrow> int \<Rightarrow> int \<Rightarrow> person_db
    \<Rightarrow> (person_error + ListResult) \<times> person_db" where
  "ListResolved ord ev site limit offset st =
     (if site = [] then (Inr \<lparr>lr_Persons = [], lr_Total = 0, lr_Resolved = False, lr_Truncated = False\<rparr>, st)
      else let l = clamp_limit limit; f = clamp_offset offset in
      case loadResolver ord st of (Inl e, st) \<Rightarrow> (Inl e, st)
      | (Inr res, st) \<Rightarrow> (case loadTombstones st of (Inl e, st) \<Rightarrow> (Inl e, st)
          | (Inr tomb, st) \<Rightarrow>
              if rs_direct res = [] \<and> tomb = [] then
                (case ListPersons ev site (int l) (int f) of Inl e \<Rightarrow> (Inl e, st)
                 | Inr rows \<Rightarrow> (Inr \<lparr>lr_Persons = rows,
                     lr_Total = (case CountPersons ev site of Inl _ \<Rightarrow> 0 | Inr n \<Rightarrow> n), lr_Resolved = False, lr_Truncated = False\<rparr>, st))
              else (case es_ListAll ev (resolveScanCap + 1) of Inl e \<Rightarrow> (Inl e, st)
                 | Inr raw \<Rightarrow> let folded = foldPersons (take resolveScanCap raw) res tomb in
                     (Inr \<lparr>lr_Persons = take l (drop f folded), lr_Total = length folded, lr_Resolved = True,
                        lr_Truncated = (resolveScanCap < length raw)\<rparr>, st))))"

definition delete_keys :: "string list \<Rightarrow> (string \<times> json) list \<Rightarrow> (string \<times> json) list" where
  "delete_keys ks doc = fold AList.delete ks doc"

definition set_keys :: "(string \<times> json) list \<Rightarrow> (string \<times> json) list \<Rightarrow> (string \<times> json) list" where
  "set_keys kvs doc = fold (\<lambda>(k, v). AList.update k v) kvs doc"

text \<open>A stored text that is no object counts as the empty document; a key that occurs twice keeps its last value.\<close>

definition stored_doc :: "string option \<Rightarrow> (string \<times> json) list" where
  "stored_doc raw = (case raw of None \<Rightarrow> []
     | Some s \<Rightarrow> (case parse_json s of Some (JObj ms) \<Rightarrow> set_keys ms [] | _ \<Rightarrow> []))"

record PersonDetailRecord =
  pd_Person :: Person
  pd_Timeline :: "PersonEvent list"
  pd_Properties :: "(string \<times> json) list"
  pd_Aliases :: "string list"
  pd_CanonicalKey :: string

definition empty_person :: "string \<Rightarrow> Person" where
  "empty_person k = \<lparr>DistinctID = k, FirstSeenMs = 0, LastSeenMs = 0, EventCount = 0, SessionCount = 0,
     TopCountry = [], TopBrowser = []\<rparr>"

text \<open>What a stored text contributes; the text \<open>null\<close> reads as an empty map.\<close>

definition prop_part :: "string option \<Rightarrow> (string \<times> json) list option" where
  "prop_part raw = (case raw of None \<Rightarrow> None
     | Some s \<Rightarrow> (case parse_json s of Some (JObj ms) \<Rightarrow> Some (set_keys ms []) | Some JNull \<Rightarrow> Some [] | _ \<Rightarrow> None))"

text \<open>The loop over the members; \<open>first\<close> tells whether the next one is the canonical key.\<close>

fun detail_loop :: "event_source \<Rightarrow> bool \<Rightarrow> string list \<Rightarrow> Person option \<Rightarrow> PersonEvent list \<Rightarrow> (string \<times> json) list list
    \<Rightarrow> person_db \<Rightarrow> (person_error + (Person option \<times> PersonEvent list \<times> (string \<times> json) list list)) \<times> person_db" where
  "detail_loop ev first [] agg tline parts st = (Inr (agg, tline, parts), st)"
| "detail_loop ev first (m # ms) agg tline parts st =
     (case es_Aggregate ev m of Inl e \<Rightarrow> (Inl e, st)
      | Inr p \<Rightarrow>
          let agg = (case p of None \<Rightarrow> agg | Some q \<Rightarrow> (case agg of None \<Rightarrow> Some q | Some a \<Rightarrow> Some (absorb a q)));
              tline = (case es_Timeline ev m of Inl _ \<Rightarrow> tline | Inr evs \<Rightarrow> tline @ evs) in
          case GetProps m st of (Inl e, st) \<Rightarrow> (Inl e, st)
          | (Inr raw, st) \<Rightarrow>
              let parts = (case prop_part raw of None \<Rightarrow> parts | Some pm \<Rightarrow> if first then parts @ [pm] else pm # parts) in
              detail_loop ev False ms agg tline parts st)"

definition PersonDetail :: "order \<Rightarrow> event_source \<Rightarrow> string \<Rightarrow> string \<Rightarrow> person_db
    \<Rightarrow> (person_error + PersonDetailRecord option) \<times> person_db" where
  "PersonDetail ord ev site key st =
     (if site = [] \<or> key = [] then (Inr None, st) else
      case loadResolver ord st of (Inl e, st) \<Rightarrow> (Inl e, st) | (Inr res, st) \<Rightarrow>
      let canon = Canonical res key in
      case loadTombstones st of (Inl e, st) \<Rightarrow> (Inl e, st) | (Inr tomb, st) \<Rightarrow>
      if key \<in> set tomb \<or> canon \<in> set tomb then (Inl ErrErased, st) else
      let aliases = filter (\<lambda>m. m \<notin> set tomb) (Members res canon) in
      if MaxAliasesPerPerson + 1 < length (canon # aliases) then (Inl ErrLimit, st) else
      case detail_loop ev True (canon # aliases) None [] [] st of (Inl e, st) \<Rightarrow> (Inl e, st)
      | (Inr (agg, tline, parts), st) \<Rightarrow>
          (Inr (Some \<lparr>pd_Person = (case agg of None \<Rightarrow> empty_person canon | Some p \<Rightarrow> p\<lparr>DistinctID := canon\<rparr>),
             pd_Timeline = take 100 (sort_key (\<lambda>e. - pe_Timestamp e) tline),
             pd_Properties = fold set_keys parts [], pd_Aliases = aliases, pd_CanonicalKey = canon\<rparr>), st))"

definition SetProperties :: "order \<Rightarrow> (string \<Rightarrow> bool) \<Rightarrow> string \<Rightarrow> string \<Rightarrow> (string \<times> json) list \<Rightarrow> bool \<Rightarrow> person_db
    \<Rightarrow> (person_error + (string \<times> json) list) \<times> person_db" where
  "SetProperties ord utf8_ok site key kvs replac st =
     (if site = [] then (Inl ErrInvalid, st) else
      case ValidatePersonKey utf8_ok key of Some e \<Rightarrow> (Inl e, st) | None \<Rightarrow>
      case ValidateProperties kvs of Inl e \<Rightarrow> (Inl e, st) | Inr (news, gone) \<Rightarrow>
      case IsErased ord site key st of
        (Inl e, st) \<Rightarrow> (Inl e, st)
      | (Inr True, st) \<Rightarrow> (Inl ErrErased, st)
      | (Inr False, st) \<Rightarrow>
          (case (if replac then (Inr [], st)
                 else (case GetProps key st of (Inl e, st) \<Rightarrow> (Inl e, st)
                   | (Inr raw, st) \<Rightarrow> (Inr (delete_keys gone (stored_doc raw)), st))) of
             (Inl e, st) \<Rightarrow> (Inl e, st)
           | (Inr doc, st) \<Rightarrow>
               let doc = sort_key fst (set_keys news doc) in
               if MaxPropertyKeys < length doc then (Inl ErrInvalid, st)
               else (case PutProps key (print_json (JObj doc)) st of
                   (Some e, st) \<Rightarrow> (Inl e, st) | (None, st) \<Rightarrow> (Inr doc, st))))"

definition writeKnown :: "order \<Rightarrow> (string \<Rightarrow> bool) \<Rightarrow> event_source \<Rightarrow> string \<Rightarrow> string \<Rightarrow> (string \<times> json) list \<Rightarrow> bool
    \<Rightarrow> person_db \<Rightarrow> (person_error + string list) \<times> person_db" where
  "writeKnown ord utf8_ok ev site key kvs replac st =
     (if site = [] then (Inl ErrInvalid, st) else
      case ValidatePersonKey utf8_ok key of Some e \<Rightarrow> (Inl e, st) | None \<Rightarrow>
      case ValidateProperties kvs of Inl e \<Rightarrow> (Inl e, st) | Inr _ \<Rightarrow>
      case es_Exists ev key of Inl e \<Rightarrow> (Inl e, st) | Inr False \<Rightarrow> (Inl ErrNotFound, st)
      | Inr True \<Rightarrow> (case SetProperties ord utf8_ok site key kvs replac st of
          (Inl e, st) \<Rightarrow> (Inl e, st) | (Inr _, st) \<Rightarrow> (Inr (sort (map fst kvs)), st)))"

definition Merge :: "order \<Rightarrow> (string \<Rightarrow> bool) \<Rightarrow> event_source \<Rightarrow> string \<Rightarrow> string \<Rightarrow> string \<Rightarrow> person_db
    \<Rightarrow> (person_error + string) \<times> person_db" where
  "Merge ord utf8_ok ev site fromKey intoKey st =
     (if site = [] then (Inl ErrInvalid, st) else
      case ValidatePersonKey utf8_ok fromKey of Some e \<Rightarrow> (Inl e, st) | None \<Rightarrow>
      case ValidatePersonKey utf8_ok intoKey of Some e \<Rightarrow> (Inl e, st) | None \<Rightarrow>
      if fromKey = intoKey then (Inl ErrInvalid, st) else
      case loadTombstones st of (Inl e, st) \<Rightarrow> (Inl e, st) | (Inr tomb, st) \<Rightarrow>
      if fromKey \<in> set tomb \<or> intoKey \<in> set tomb then (Inl ErrErased, st) else
      case ListAliases (MaxAliasesPerSite + 1) st of (Inl e, st) \<Rightarrow> (Inl e, st) | (Inr rows, st) \<Rightarrow>
      if MaxAliasesPerSite \<le> length rows then (Inl ErrLimit, st) else
      case checkedResolver ord rows of Inl e \<Rightarrow> (Inl e, st) | Inr res \<Rightarrow>
      if IsAlias res fromKey then (Inl ErrConflict, st) else
      let root = Canonical res intoKey in
      if root = fromKey then (Inl ErrConflict, st)
      else if root \<in> set tomb then (Inl ErrErased, st)
      else if MaxAliasesPerPerson < length (Members res root) + length (Members res fromKey) + 1 then (Inl ErrLimit, st)
      else case es_Exists ev fromKey of Inl e \<Rightarrow> (Inl e, st) | Inr False \<Rightarrow> (Inl ErrNotFound, st) | Inr True \<Rightarrow>
      case es_Exists ev intoKey of Inl e \<Rightarrow> (Inl e, st) | Inr False \<Rightarrow> (Inl ErrNotFound, st) | Inr True \<Rightarrow>
      case PutAlias fromKey root True st of (Some e, st) \<Rightarrow> (Inl e, st) | (None, st) \<Rightarrow> (Inr root, st))"

fun put_tombstones :: "string list \<Rightarrow> person_db \<Rightarrow> person_error option \<times> person_db" where
  "put_tombstones [] st = (None, st)"
| "put_tombstones (k # ks) st = (case PutTombstone k st of
     (Some e, st) \<Rightarrow> (Some e, st) | (None, st) \<Rightarrow> put_tombstones ks st)"

fun clear_props :: "string list \<Rightarrow> person_db \<Rightarrow> person_error option \<times> person_db" where
  "clear_props [] st = (None, st)"
| "clear_props (k # ks) st = (case PutProps k ''{}'' st of
     (Some e, st) \<Rightarrow> (Some e, st) | (None, st) \<Rightarrow> clear_props ks st)"

fun detach :: "Resolver \<Rightarrow> string list \<Rightarrow> person_db \<Rightarrow> person_error option \<times> person_db" where
  "detach res [] st = (None, st)"
| "detach res (k # ks) st =
     (if Canonical res k = k then detach res ks st
      else case PutAlias k (Canonical res k) False st of (Some e, st) \<Rightarrow> (Some e, st) | (None, st) \<Rightarrow> detach res ks st)"

definition Erase :: "order \<Rightarrow> (string \<Rightarrow> bool) \<Rightarrow> string \<Rightarrow> string \<Rightarrow> person_db \<Rightarrow> (person_error + string list) \<times> person_db" where
  "Erase ord utf8_ok site key st =
     (if site = [] then (Inl ErrInvalid, st) else
      case ValidatePersonKey utf8_ok key of Some e \<Rightarrow> (Inl e, st) | None \<Rightarrow>
      case loadResolver ord st of (Inl e, st) \<Rightarrow> (Inl e, st) | (Inr res, st) \<Rightarrow>
      let root = Canonical res key; keys = root # Members res root in
      case loadTombstones st of (Inl e, st) \<Rightarrow> (Inl e, st) | (Inr tomb, st) \<Rightarrow>
      if MaxTombstonesPerSite < length tomb + length (filter (\<lambda>k. k \<notin> set tomb) keys) then (Inl ErrLimit, st) else
      case put_tombstones keys st of (Some e, st) \<Rightarrow> (Inl e, st) | (None, st) \<Rightarrow>
      case clear_props keys st of (Some e, st) \<Rightarrow> (Inl e, st) | (None, st) \<Rightarrow>
      case detach res keys st of (Some e, st) \<Rightarrow> (Inl e, st) | (None, st) \<Rightarrow> (Inr keys, st))"

end
