(* ===== verification/PersonsProps.thy ===== *)
theory PersonsProps
  imports Persons IngestBuffer
begin

text \<open>
  What person identity (\<^verbatim>\<open>src/internal/persons\<close>) guarantees: the memoised resolver follows alias chains
  exactly, a merge unites two persons and keeps the graph readable, and an erasure hides a person however
  far it gets.
\<close>

section \<open>Roots of an alias map\<close>

inductive rooted :: "(string \<Rightarrow> string option) \<Rightarrow> string \<Rightarrow> string \<Rightarrow> bool" for m where
  here: "m k = None \<Longrightarrow> rooted m k k"
| follow: "m k = Some k' \<Longrightarrow> rooted m k' r \<Longrightarrow> rooted m k r"

inductive_simps rooted_None: "rooted m k r"

lemma rooted_end: "rooted m k r \<Longrightarrow> m r = None"
  by (induction rule: rooted.induct)

lemma rooted_next: "m k = Some k' \<Longrightarrow> rooted m k r \<longleftrightarrow> rooted m k' r"
  by (subst rooted.simps) auto

lemma rooted_unique: "rooted m k r \<Longrightarrow> rooted m k r' \<Longrightarrow> r = r'"
proof (induction rule: rooted.induct)
  case (here k)
  then show ?case by (subst (asm) rooted.simps) auto
next
  case (follow k k' r)
  then show ?case using rooted_next by metis
qed

lemma rooted_here: "m k = None \<Longrightarrow> rooted m k r \<longleftrightarrow> r = k"
  by (subst rooted.simps) auto

definition edges :: "(string \<Rightarrow> string option) \<Rightarrow> (string \<times> string) set" where
  "edges m = {(k, k'). m k = Some k'}"

lemma rooted_along: "(p, q) \<in> (edges m)\<^sup>+ \<Longrightarrow> rooted m p r \<longleftrightarrow> rooted m q r"
  by (induction rule: trancl_induct) (auto simp: edges_def rooted_next)

lemma cycle_unrooted: "rooted m k r \<Longrightarrow> (k, k) \<notin> (edges m)\<^sup>+"
proof (induction rule: rooted.induct)
  case (here k)
  then show ?case by (auto simp: edges_def dest!: tranclD)
next
  case (follow k k' r)
  show ?case
  proof
    assume "(k, k) \<in> (edges m)\<^sup>+"
    then obtain z where "(k, z) \<in> edges m" "(z, k) \<in> (edges m)\<^sup>*" by (meson tranclD)
    then have "(k', k) \<in> (edges m)\<^sup>*" "(k, k') \<in> edges m" using follow.hyps by (auto simp: edges_def)
    then show False using follow.IH by (meson rtrancl_into_trancl1)
  qed
qed

section \<open>The resolver\<close>

definition edges_ok :: "(string \<times> string) list \<Rightarrow> bool" where
  "edges_ok d \<longleftrightarrow> distinct (map fst d) \<and> (\<forall>k v. (k, v) \<in> set d \<longrightarrow> k \<noteq> [] \<and> v \<noteq> [] \<and> k \<noteq> v)"

lemma direct_ok: "edges_ok d \<Longrightarrow> edges_ok (direct_of rows d)"
proof (induction rows d rule: direct_of.induct)
  case (2 a rows d)
  have "set (AList.update (AliasKey a) (CanonicalKey a) d) \<subseteq> insert (AliasKey a, CanonicalKey a) (set d)"
    by (induction d) auto
  then have sub: "(k, v) = (AliasKey a, CanonicalKey a) \<or> (k, v) \<in> set d"
    if "(k, v) \<in> set (AList.update (AliasKey a) (CanonicalKey a) d)" for k v
    using that by (meson insertE subsetD)
  have "edges_ok (AList.update (AliasKey a) (CanonicalKey a) d)"
    if "AliasKey a \<noteq> []" "CanonicalKey a \<noteq> []" "AliasKey a \<noteq> CanonicalKey a"
  proof -
    have "distinct (map fst (AList.update (AliasKey a) (CanonicalKey a) d))"
      using "2.prems" by (simp add: edges_ok_def distinct_update)
    moreover have "k \<noteq> [] \<and> v \<noteq> [] \<and> k \<noteq> v" if kv: "(k, v) \<in> set (AList.update (AliasKey a) (CanonicalKey a) d)" for k v
      using sub [OF kv] "2.prems" \<open>AliasKey a \<noteq> []\<close> \<open>CanonicalKey a \<noteq> []\<close> \<open>AliasKey a \<noteq> CanonicalKey a\<close>
      unfolding edges_ok_def by (metis Pair_inject)
    ultimately show ?thesis unfolding edges_ok_def by metis
  qed
  then show ?case using 2 by simp
qed simp

text \<open>What the memo says of a key is right, and it says it of keys with an edge only.\<close>

definition root_right :: "(string \<Rightarrow> string option) \<Rightarrow> string \<Rightarrow> string \<Rightarrow> bool" where
  "root_right m k r \<longleftrightarrow> (if r = [] then \<not> (\<exists>r. rooted m k r) else rooted m k r)"

definition memo_ok :: "(string \<times> string) list \<Rightarrow> (string \<times> string) list \<Rightarrow> bool" where
  "memo_ok d roots \<longleftrightarrow> (\<forall>k r. (k, r) \<in> set roots \<longrightarrow> k \<in> fst ` set d \<and> root_right (map_of d) k r)"

lemma walk_right:
  "edges_ok d \<Longrightarrow> memo_ok d roots \<Longrightarrow> \<forall>p \<in> set path. p \<in> fst ` set d \<and> (p, cur) \<in> (edges (map_of d))\<^sup>+
    \<Longrightarrow> cur \<noteq> [] \<Longrightarrow> walk_root d roots path cur = (root, path') \<Longrightarrow> set path \<subseteq> set path'
      \<and> (\<forall>p \<in> set path'. p \<in> fst ` set d \<and> root_right (map_of d) p root)
      \<and> (map_of roots cur = None \<and> cur \<in> fst ` set d \<longrightarrow> cur \<in> set path')"
proof (induction d roots path cur rule: walk_root.induct)
  case (1 d roots path cur)
  have along: "root_right (map_of d) p r = root_right (map_of d) cur r" if "p \<in> set path" for p r
    using that "1.prems"(3) rooted_along [of p cur "map_of d"] by (simp add: root_right_def)
  consider (known) r where "map_of roots cur = Some r"
    | (cycle) "map_of roots cur = None" "cur \<in> set path"
    | (top) "map_of roots cur = None" "cur \<notin> set path" "map_of d cur = None"
    | (edge) nxt where "map_of roots cur = None" "cur \<notin> set path" "map_of d cur = Some nxt"
    by (metis option.exhaust)
  then show ?case
  proof cases
    case known
    then have "root_right (map_of d) cur r" using "1.prems"(2) by (auto simp: memo_ok_def dest: map_of_SomeD)
    moreover have "root = r" "path' = path" using known "1.prems"(5) by (simp_all add: walk_root.simps [of d roots path cur])
    ultimately show ?thesis using known "1.prems"(3) along by simp
  next
    case cycle
    then have "(cur, cur) \<in> (edges (map_of d))\<^sup>+" using "1.prems"(3) by blast
    then have "root_right (map_of d) cur []"
      using cycle_unrooted [of "map_of d" cur] by (metis root_right_def)
    moreover have "root = []" "path' = path" using cycle "1.prems"(5) by (simp_all add: walk_root.simps [of d roots path cur])
    moreover from calculation(1) have "\<forall>p \<in> set path. p \<in> fst ` set d \<and> root_right (map_of d) p []"
      using "1.prems"(3) along by blast
    ultimately show ?thesis using cycle by simp
  next
    case top
    then have "root_right (map_of d) cur cur" using "1.prems"(4) by (simp add: root_right_def rooted_here)
    moreover have "root = cur" "path' = path" using top "1.prems"(5) by (simp_all add: walk_root.simps [of d roots path cur])
    moreover have "cur \<notin> fst ` set d" using top(3) by (simp add: map_of_eq_None_iff)
    ultimately show ?thesis using "1.prems"(3) along by blast
  next
    case edge
    have step: "(cur, nxt) \<in> edges (map_of d)" using edge by (simp add: edges_def)
    have "cur \<in> fst ` set d" "nxt \<noteq> []"
      using edge(3) "1.prems"(1) by (force simp: edges_ok_def dest: map_of_SomeD)+
    moreover have "\<forall>p \<in> set (path @ [cur]). p \<in> fst ` set d \<and> (p, nxt) \<in> (edges (map_of d))\<^sup>+"
      using "1.prems"(3) step calculation(1) by (auto intro: trancl_into_trancl)
    moreover have "walk_root d roots (path @ [cur]) nxt = (root, path')"
      using edge "1.prems"(5) by (simp add: walk_root.simps [of d roots path cur])
    ultimately have "set (path @ [cur]) \<subseteq> set path' \<and> (\<forall>p \<in> set path'. p \<in> fst ` set d \<and> root_right (map_of d) p root)"
      using "1.IH" [OF edge "1.prems"(1,2)] by blast
    then show ?thesis by simp
  qed
qed

lemma memo_right:
  "edges_ok d \<Longrightarrow> memo_ok d roots \<Longrightarrow> set keys \<subseteq> fst ` set d
    \<Longrightarrow> memo_ok d (memo_roots d keys roots) \<and> fst ` set roots \<union> set keys \<subseteq> fst ` set (memo_roots d keys roots)"
proof (induction keys arbitrary: roots)
  case (Cons a keys)
  show ?case
  proof (cases "map_of roots a")
    case None
    obtain root path where walk: "walk_root d roots [] a = (root, path)" by fastforce
    have "a \<noteq> []" using Cons.prems by (force simp: edges_ok_def)
    from walk_right [OF Cons.prems(1,2) _ this walk]
    have path: "\<forall>p \<in> set path. p \<in> fst ` set d \<and> root_right (map_of d) p root" "a \<in> set path"
      using None Cons.prems(3) by simp_all
    then have "memo_ok d (map (\<lambda>k. (k, root)) path @ roots)"
      using Cons.prems(2) unfolding memo_ok_def by auto
    moreover have "fst ` set (map (\<lambda>k. (k, root)) path @ roots) = set path \<union> fst ` set roots" by force
    moreover have "memo_roots d (a # keys) roots = memo_roots d keys (map (\<lambda>k. (k, root)) path @ roots)"
      using None walk by simp
    ultimately show ?thesis
      using Cons.IH [of "map (\<lambda>k. (k, root)) path @ roots"] Cons.prems(1,3) path(2) by auto
  next
    case (Some r)
    then have "a \<in> fst ` set roots" by (force dest: map_of_SomeD)
    then show ?thesis using Cons Some by auto
  qed
qed simp

definition map_order :: "order \<Rightarrow> bool" where
  "map_order ord \<longleftrightarrow> (\<forall>ks. distinct ks \<longrightarrow> distinct (ord ks) \<and> set (ord ks) = set ks)"

text \<open>The person a key stands for: the root of its chain, itself on a cycle.\<close>

lemma resolver_facts:
  fixes rows :: "AliasRow list"
  assumes "map_order ord"
  defines "m \<equiv> map_of (direct_of rows [])"
  shows "rooted m k r \<Longrightarrow> Canonical (NewResolver ord rows) k = r"
    and "\<not> (\<exists>r. rooted m k r) \<Longrightarrow> Canonical (NewResolver ord rows) k = k"
    and "sorted (Members (NewResolver ord rows) c)" "distinct (Members (NewResolver ord rows) c)"
    and "set (Members (NewResolver ord rows) c) = {a. a \<noteq> c \<and> rooted m a c}"
    and "rs_direct (NewResolver ord rows) = direct_of rows []"
proof -
  define d where "d = direct_of rows []"
  define roots where "roots = memo_roots d (ord (map fst d)) []"
  have ok: "edges_ok d" unfolding d_def by (rule direct_ok) (simp add: edges_ok_def)
  then have keys: "distinct (ord (map fst d))" "set (ord (map fst d)) = fst ` set d"
    using assms(1) by (auto simp: map_order_def edges_ok_def)
  have memo: "memo_ok d roots" "fst ` set d \<subseteq> fst ` set roots"
    using memo_right [OF ok, of "[]" "ord (map fst d)"] keys by (auto simp: roots_def memo_ok_def)
  have canon: "Canonical (NewResolver ord rows) k = canonical_in roots k" for k
    by (simp add: Canonical_def NewResolver_def Let_def roots_def d_def)
  have m: "m = map_of d" by (simp add: m_def d_def)
  have top: "map_of roots k = None \<longleftrightarrow> m k = None" for k
    using memo by (force simp: m map_of_eq_None_iff memo_ok_def)
  have ends: "rooted m k r \<Longrightarrow> k \<noteq> r \<Longrightarrow> r \<noteq> []" for k r
  proof (induction rule: rooted.induct)
    case (follow k k' r)
    then show ?case using ok by (cases "k' = r") (force simp: m edges_ok_def dest: map_of_SomeD)+
  qed simp
  have right: "root_right m k r" if "map_of roots k = Some r" for k r
    using memo(1) that by (auto simp: memo_ok_def m dest: map_of_SomeD)
  have exact: "canonical_in roots k = r" if "rooted m k r" for k r
    using right [of k] top [of k] that rooted_unique rooted_here [of m k r]
    by (auto simp: canonical_in_def root_right_def split: option.split if_splits)
  show "rooted m k r \<Longrightarrow> Canonical (NewResolver ord rows) k = r" by (simp add: canon exact)
  have loose: "canonical_in roots k = k" if "\<not> (\<exists>r. rooted m k r)" for k
    using right [of k] that by (auto simp: canonical_in_def root_right_def split: option.split if_splits)
  then show "\<not> (\<exists>r. rooted m k r) \<Longrightarrow> Canonical (NewResolver ord rows) k = k" by (simp add: canon)
  have members: "Members (NewResolver ord rows) c
      = sort (filter (\<lambda>a. canonical_in roots a \<noteq> a \<and> canonical_in roots a = c) (ord (map fst d)))"
    by (simp add: Members_def NewResolver_def Let_def roots_def d_def)
  show "sorted (Members (NewResolver ord rows) c)" "distinct (Members (NewResolver ord rows) c)"
    using keys by (simp_all add: members)
  have "a \<in> fst ` set d \<and> canonical_in roots a \<noteq> a \<and> canonical_in roots a = c \<longleftrightarrow> a \<noteq> c \<and> rooted m a c" for a
    using exact [of a] loose [of a] rooted_here [of m a c] by (auto simp: m map_of_eq_None_iff)
  then show "set (Members (NewResolver ord rows) c) = {a. a \<noteq> c \<and> rooted m a c}"
    by (auto simp: members keys)
  show "rs_direct (NewResolver ord rows) = direct_of rows []" by (simp add: NewResolver_def Let_def)
qed

section \<open>The alias table\<close>

definition alias_map :: "alias_version list \<Rightarrow> string \<Rightarrow> string option" where
  "alias_map rows k = (case latest_alias rows k of None \<Rightarrow> None
     | Some r \<Rightarrow> if av_active r then Some (av_canonical r) else None)"

lemma max_row_new: "\<forall>r \<in> set rs. key r < key m \<Longrightarrow> max_row key (rs @ [m]) = Some m"
  by (induction rs) auto

text \<open>A new version of an alias is the one that counts.\<close>

lemma alias_map_put:
  assumes "new = \<lparr>av_alias = a, av_canonical = c, av_active = act,
      av_version = next_version now (map_option av_version (latest_alias rows a))\<rparr>"
  shows "alias_map (rows @ [new]) = (alias_map rows)(a := if act then Some c else None)"
proof
  fix k
  show "alias_map (rows @ [new]) k = ((alias_map rows)(a := if act then Some c else None)) k"
  proof (cases "k = a")
    case True
    have "av_version r < av_version new" if r: "r \<in> set (filter (\<lambda>r. av_alias r = a) rows)" for r
    proof -
      from r have "filter (\<lambda>r. av_alias r = a) rows \<noteq> []" by fastforce
      then obtain m where m: "latest_alias rows a = Some m"
        using max_row_facts(1) [of av_version "filter (\<lambda>r. av_alias r = a) rows"] by (auto simp: latest_alias_def)
      then have "av_version r \<le> av_version m"
        using max_row_facts(2) [of av_version "filter (\<lambda>r. av_alias r = a) rows" m] r by (simp add: latest_alias_def)
      moreover have "av_version m < av_version new" by (simp add: assms m next_version_def)
      ultimately show ?thesis by simp
    qed
    then have "latest_alias (rows @ [new]) a = Some new"
      using max_row_new [of "filter (\<lambda>r. av_alias r = a) rows" av_version new] by (simp add: latest_alias_def assms)
    then show ?thesis using True by (simp add: alias_map_def assms)
  next
    case False
    then show ?thesis by (simp add: alias_map_def latest_alias_def assms)
  qed
qed

lemma latest_alias_key: "latest_alias rows k = Some r \<Longrightarrow> k \<in> av_alias ` set rows"
  using max_row_facts(2) [of av_version "filter (\<lambda>r. av_alias r = k) rows" r] by (auto simp: latest_alias_def)

lemma active_rows:
  "distinct (map AliasKey (active_aliases rows))"
  "a \<in> set (active_aliases rows) \<longleftrightarrow> alias_map rows (AliasKey a) = Some (CanonicalKey a)"
proof -
  let ?f = "\<lambda>k. case latest_alias rows k of None \<Rightarrow> []
     | Some r \<Rightarrow> if av_active r then [\<lparr>AliasKey = k, CanonicalKey = av_canonical r\<rparr>] else []"
  have sub: "set (map AliasKey (concat (map ?f ks))) \<subseteq> set ks" for ks
    by (auto split: option.splits if_splits)
  have "distinct ks \<Longrightarrow> distinct (map AliasKey (concat (map ?f ks)))" for ks
  proof (induction ks)
    case (Cons k ks)
    then have "k \<notin> set (map AliasKey (concat (map ?f ks)))" using sub [of ks] by auto
    then show ?case using Cons by (auto split: option.split)
  qed simp
  then show "distinct (map AliasKey (active_aliases rows))" by (simp add: active_aliases_def)
  have one: "a \<in> set (?f k) \<longleftrightarrow> AliasKey a = k \<and> alias_map rows k = Some (CanonicalKey a)" for a k
    by (cases a) (auto simp: alias_map_def split: option.split)
  have key: "alias_map rows k = Some v \<Longrightarrow> k \<in> av_alias ` set rows" for k v
    using latest_alias_key [of rows k] by (auto simp: alias_map_def split: option.splits)
  have "a \<in> set (active_aliases rows) \<longleftrightarrow> (\<exists>k \<in> av_alias ` set rows. a \<in> set (?f k))" for a
    unfolding active_aliases_def by simp
  then show "a \<in> set (active_aliases rows) \<longleftrightarrow> alias_map rows (AliasKey a) = Some (CanonicalKey a)" for a
    unfolding one using key by metis
qed

definition edge_ok :: "AliasRow \<Rightarrow> bool" where
  "edge_ok a \<longleftrightarrow> AliasKey a \<noteq> [] \<and> CanonicalKey a \<noteq> [] \<and> AliasKey a \<noteq> CanonicalKey a"

lemma direct_sound:
  "map_of (direct_of rows d) k = Some v \<Longrightarrow> map_of d k = Some v
    \<or> (\<exists>a \<in> set rows. AliasKey a = k \<and> CanonicalKey a = v \<and> edge_ok a)"
  by (induction rows d rule: direct_of.induct) (auto simp: update_conv edge_ok_def split: if_splits)

lemma direct_other: "k \<notin> AliasKey ` set rows \<Longrightarrow> map_of (direct_of rows d) k = map_of d k"
  by (induction rows d rule: direct_of.induct) (auto simp: update_conv)

lemma direct_complete:
  "distinct (map AliasKey rows) \<Longrightarrow> a \<in> set rows \<Longrightarrow> edge_ok a
    \<Longrightarrow> map_of (direct_of rows d) (AliasKey a) = Some (CanonicalKey a)"
  by (induction rows d rule: direct_of.induct) (auto simp: update_conv edge_ok_def direct_other)

lemma checked_facts:
  assumes ord: "map_order ord" and checked: "checkedResolver ord (active_aliases rows) = Inr res"
  shows "map_of (rs_direct res) = alias_map rows" "\<exists>r. rooted (alias_map rows) k r"
    and "rooted (alias_map rows) k r \<Longrightarrow> Canonical res k = r"
    and "distinct (Members res c)" "set (Members res c) = {a. a \<noteq> c \<and> rooted (alias_map rows) a c}"
    and "alias_map rows k = Some v \<Longrightarrow> k \<noteq> [] \<and> v \<noteq> [] \<and> k \<noteq> v"
    and "length (active_aliases rows) \<le> MaxAliasesPerSite"
proof -
  let ?as = "active_aliases rows"
  define m where "m = map_of (direct_of ?as [])"
  have res: "res = NewResolver ord ?as" and len: "length ?as \<le> MaxAliasesPerSite"
    and check: "a \<in> set ?as \<Longrightarrow> AliasKey a \<noteq> CanonicalKey a \<and> Canonical res (AliasKey a) \<noteq> AliasKey a" for a
    using checked by (auto simp: checkedResolver_def Let_def list_ex_iff split: if_splits)
  note facts = resolver_facts [OF ord, of ?as, folded m_def res]
  have ok: "edge_ok a" if "a \<in> set ?as" for a
  proof -
    have "m (AliasKey a) \<noteq> None" using facts(1) rooted_here check [OF that] by metis
    then obtain b where "b \<in> set ?as" "AliasKey b = AliasKey a" "edge_ok b"
      using direct_sound [of ?as "[]" "AliasKey a"] by (auto simp: m_def)
    then show ?thesis using active_rows(1) [of rows] that by (metis inj_onD distinct_map)
  qed
  have m: "m = alias_map rows"
  proof
    fix k
    show "m k = alias_map rows k"
    proof (cases "alias_map rows k")
      case None
      then have "m k \<noteq> Some v" for v
        using direct_sound [of ?as "[]" k v] by (auto simp: m_def active_rows)
      then show ?thesis using None by auto
    next
      case (Some v)
      then have "\<lparr>AliasKey = k, CanonicalKey = v\<rparr> \<in> set ?as" by (simp add: active_rows)
      from direct_complete [OF active_rows(1) this ok [OF this], of "[]"] show ?thesis using Some by (simp add: m_def)
    qed
  qed
  show "map_of (rs_direct res) = alias_map rows" using facts(6) m by (simp add: m_def)
  show "rooted (alias_map rows) k r \<Longrightarrow> Canonical res k = r" using facts(1) m by simp
  show "distinct (Members res c)" "set (Members res c) = {a. a \<noteq> c \<and> rooted (alias_map rows) a c}"
    using facts(4,5) m by simp_all
  show edge: "alias_map rows k = Some v \<Longrightarrow> k \<noteq> [] \<and> v \<noteq> [] \<and> k \<noteq> v"
    using ok [of "\<lparr>AliasKey = k, CanonicalKey = v\<rparr>"] by (simp add: active_rows edge_ok_def)
  show "\<exists>r. rooted (alias_map rows) k r"
  proof (cases "alias_map rows k")
    case (Some v)
    then have "\<lparr>AliasKey = k, CanonicalKey = v\<rparr> \<in> set ?as" by (simp add: active_rows)
    then have "Canonical res k \<noteq> k" using check by fastforce
    then show ?thesis using facts(2) m by auto
  qed (auto intro: here)
  show "length ?as \<le> MaxAliasesPerSite" by (rule len)
qed

lemma checked_ok:
  assumes ord: "map_order ord" and roots: "\<And>k. \<exists>r. rooted (alias_map rows) k r"
    and edge: "\<And>k v. alias_map rows k = Some v \<Longrightarrow> k \<noteq> [] \<and> v \<noteq> [] \<and> k \<noteq> v"
    and len: "length (active_aliases rows) \<le> MaxAliasesPerSite"
  shows "\<exists>res. checkedResolver ord (active_aliases rows) = Inr res"
proof -
  let ?as = "active_aliases rows"
  define m where "m = map_of (direct_of ?as [])"
  have row: "a \<in> set ?as \<longleftrightarrow> alias_map rows (AliasKey a) = Some (CanonicalKey a)" for a
    by (rule active_rows(2))
  have ok: "edge_ok a" if "a \<in> set ?as" for a using edge that by (simp add: row edge_ok_def)
  have m: "m = alias_map rows"
  proof
    fix k
    show "m k = alias_map rows k"
    proof (cases "alias_map rows k")
      case None
      then have "k \<notin> AliasKey ` set ?as" by (auto simp: row)
      then show ?thesis using None direct_other [of k ?as "[]"] by (simp add: m_def)
    next
      case (Some v)
      then have "\<lparr>AliasKey = k, CanonicalKey = v\<rparr> \<in> set ?as" by (simp add: active_rows)
      from direct_complete [OF active_rows(1) this ok [OF this], of "[]"] show ?thesis using Some by (simp add: m_def)
    qed
  qed
  have "AliasKey a \<noteq> CanonicalKey a \<and> Canonical (NewResolver ord ?as) (AliasKey a) \<noteq> AliasKey a" if a: "a \<in> set ?as" for a
  proof -
    obtain r where r: "rooted m (AliasKey a) r" using roots m by auto
    then have "m r = None" by (rule rooted_end)
    then have "r \<noteq> AliasKey a" using a by (auto simp: row m)
    then show ?thesis using resolver_facts(1) [OF ord, of ?as] r ok [OF a] by (auto simp: m_def edge_ok_def)
  qed
  then show ?thesis using len by (auto simp: checkedResolver_def Let_def list_ex_iff)
qed

section \<open>Reading does not change the tables\<close>

definition tables :: "person_db \<Rightarrow> alias_version list \<times> string list \<times> props_version list" where
  "tables st = (pd_aliases st, pd_tombs st, pd_props st)"

lemma calls_tables:
  "next_call st = (x, st') \<Longrightarrow> tables st' = tables st" "read_call st = (ok, st') \<Longrightarrow> tables st' = tables st"
  by (auto simp: next_call_def read_call_def tables_def split: list.splits prod.splits)

lemma reads_tables:
  "ListAliases n st = (xa, st') \<Longrightarrow> tables st' = tables st" "ListTombstones n st = (xt, st') \<Longrightarrow> tables st' = tables st"
  "loadResolver ord st = (xr, st') \<Longrightarrow> tables st' = tables st" "loadTombstones st = (xt, st') \<Longrightarrow> tables st' = tables st"
  "GetProps key st = (xp, st') \<Longrightarrow> tables st' = tables st"
proof -
  show aliases: "ListAliases n st = (xa, st') \<Longrightarrow> tables st' = tables st" for n xa st'
    by (auto simp: ListAliases_def calls_tables split: prod.splits)
  show tombs: "ListTombstones n st = (xt, st') \<Longrightarrow> tables st' = tables st" for n xt st'
    by (auto simp: ListTombstones_def calls_tables split: prod.splits)
  show "loadResolver ord st = (xr, st') \<Longrightarrow> tables st' = tables st"
    using aliases by (auto simp: loadResolver_def split: prod.splits sum.splits)
  show "loadTombstones st = (xt, st') \<Longrightarrow> tables st' = tables st"
    using tombs by (auto simp: loadTombstones_def split: prod.splits sum.splits)
  show "GetProps key st = (xp, st') \<Longrightarrow> tables st' = tables st"
    by (auto simp: GetProps_def calls_tables split: prod.splits)
qed

lemma list_aliases: "ListAliases n st = (Inr rows, st') \<Longrightarrow> rows = take n (active_aliases (pd_aliases st))"
  using calls_tables(2) [of st] by (auto simp: ListAliases_def tables_def split: prod.splits if_splits)

lemma load_resolver:
  assumes "loadResolver ord st = (Inr res, st')"
  shows "checkedResolver ord (active_aliases (pd_aliases st)) = Inr res"
proof -
  obtain rows where "rows = take (MaxAliasesPerSite + 1) (active_aliases (pd_aliases st))" "checkedResolver ord rows = Inr res"
    using assms list_aliases [of "MaxAliasesPerSite + 1" st] by (auto simp: loadResolver_def split: prod.splits sum.splits)
  moreover from this have "length rows \<le> MaxAliasesPerSite" by (auto simp: checkedResolver_def split: if_splits)
  ultimately show ?thesis by (auto simp: min_def split: if_splits)
qed

lemma load_tombstones:
  assumes "loadTombstones st = (Inr tomb, st')"
  shows "set tomb = set (pd_tombs st)"
proof -
  obtain keys where "keys = take (MaxTombstonesPerSite + 1) (pd_tombs st)" "\<not> MaxTombstonesPerSite < length keys" "tomb = remdups keys"
    using assms calls_tables(2) [of st]
    by (auto simp: loadTombstones_def ListTombstones_def tables_def split: prod.splits if_splits)
  then show ?thesis by (auto simp: min_def split: if_splits)
qed

lemma put_alias:
  assumes "PutAlias a c act st = (e, st')"
  shows "pd_tombs st' = pd_tombs st" "pd_props st' = pd_props st"
    and "alias_map (pd_aliases st') = (alias_map (pd_aliases st))(a := if act then Some c else None)
      \<or> pd_aliases st' = pd_aliases st \<and> e \<noteq> None"
proof -
  obtain ok st1 where r: "read_call st = (ok, st1)" by fastforce
  obtain out st2 where n: "next_call st1 = (out, st2)" by fastforce
  have same: "tables st1 = tables st" "tables st2 = tables st" using calls_tables r n by metis+
  have "pd_tombs st' = pd_tombs st \<and> pd_props st' = pd_props st
    \<and> (alias_map (pd_aliases st') = (alias_map (pd_aliases st))(a := if act then Some c else None)
      \<or> pd_aliases st' = pd_aliases st \<and> e \<noteq> None)"
    using assms same alias_map_put [OF refl, of "pd_aliases st" a c act "pd_now st2"]
    by (cases out) (auto simp: PutAlias_def r n tables_def split: if_splits)
  then show "pd_tombs st' = pd_tombs st" "pd_props st' = pd_props st"
    "alias_map (pd_aliases st') = (alias_map (pd_aliases st))(a := if act then Some c else None)
      \<or> pd_aliases st' = pd_aliases st \<and> e \<noteq> None" by auto
qed

section \<open>Merging\<close>

lemma merge_rooted:
  assumes "m a = None" "m c = None" "c \<noteq> a"
  shows "rooted m k p \<Longrightarrow> rooted (m(a \<mapsto> c)) k (if p = a then c else p)"
proof (induction rule: rooted.induct)
  case (here k)
  have "rooted (m(a \<mapsto> c)) c c" using assms(2,3) by (intro rooted.here) simp
  then have "rooted (m(a \<mapsto> c)) a c" by (rule rooted.follow [rotated]) simp
  moreover have "k \<noteq> a \<Longrightarrow> rooted (m(a \<mapsto> c)) k k" using here by (intro rooted.here) simp
  ultimately show ?case by (cases "k = a") (simp_all del: fun_upd_apply)
next
  case (follow k k' r)
  then have "k \<noteq> a" using assms(1) by auto
  then show ?case using follow by (intro rooted.follow [of _ k k']) auto
qed

lemma active_count: "length (active_aliases rows) = card (dom (alias_map rows))" "finite (dom (alias_map rows))"
proof -
  have "dom (alias_map rows) = AliasKey ` set (active_aliases rows)"
  proof (intro set_eqI iffI)
    fix k
    assume "k \<in> dom (alias_map rows)"
    then obtain v where "alias_map rows k = Some v" by blast
    then have "\<lparr>AliasKey = k, CanonicalKey = v\<rparr> \<in> set (active_aliases rows)" by (simp add: active_rows)
    then show "k \<in> AliasKey ` set (active_aliases rows)" by force
  qed (auto simp: active_rows)
  moreover have "card (AliasKey ` set (active_aliases rows)) = length (active_aliases rows)"
    using active_rows(1) [of rows] by (metis distinct_card length_map set_map)
  ultimately show "length (active_aliases rows) = card (dom (alias_map rows))" "finite (dom (alias_map rows))" by simp_all
qed

text \<open>What a merge does: every key that stood for \<open>a\<close> stands for \<open>c\<close>, all others stay; the site stays
  readable and the person has no more aliases than allowed.\<close>

definition merged :: "order \<Rightarrow> person_db \<Rightarrow> string \<Rightarrow> string \<Rightarrow> string \<Rightarrow> person_db \<Rightarrow> bool" where
  "merged ord st a b c st' \<longleftrightarrow>
     (let m = alias_map (pd_aliases st); m' = alias_map (pd_aliases st') in
      rooted m a a \<and> rooted m b c \<and> c \<noteq> a
      \<and> (\<forall>k p. rooted m k p \<longrightarrow> rooted m' k (if p = a then c else p))
      \<and> (\<exists>res. checkedResolver ord (active_aliases (pd_aliases st')) = Inr res)
      \<and> card {k. k \<noteq> c \<and> rooted m' k c} \<le> MaxAliasesPerPerson
      \<and> a \<notin> set (pd_tombs st) \<and> c \<notin> set (pd_tombs st))"

lemma merged_put:
  assumes ord: "map_order ord" and checked: "checkedResolver ord (active_aliases (pd_aliases st)) = Inr res"
    and a: "\<not> IsAlias res a" "a \<noteq> []" and b: "b \<noteq> []" and c: "c = Canonical res b" "c \<noteq> a"
    and room: "length (active_aliases (pd_aliases st)) < MaxAliasesPerSite"
      "length (Members res c) + length (Members res a) + 1 \<le> MaxAliasesPerPerson"
    and tomb: "a \<notin> set (pd_tombs st)" "c \<notin> set (pd_tombs st)"
    and put: "alias_map (pd_aliases st') = (alias_map (pd_aliases st))(a \<mapsto> c)"
  shows "merged ord st a b c st'"
proof -
  let ?m = "alias_map (pd_aliases st)"
  note facts = checked_facts [OF ord checked]
  have ma: "?m a = None" using a(1) facts(1) by (simp add: IsAlias_def)
  obtain r where "rooted ?m b r" using facts(2) by blast
  then have bc: "rooted ?m b c" and mc: "?m c = None" using facts(3) c(1) rooted_end by metis+
  have c0: "c \<noteq> []"
    using bc b facts(6) by (induction rule: rooted.induct) auto
  note move = merge_rooted [OF ma mc c(2)]
  have roots: "\<exists>r. rooted (?m(a \<mapsto> c)) k r" for k using facts(2) move by blast
  have again: "\<exists>res. checkedResolver ord (active_aliases (pd_aliases st')) = Inr res"
  proof (rule checked_ok [OF ord])
    show "length (active_aliases (pd_aliases st')) \<le> MaxAliasesPerSite"
      using room(1) active_count(2) [of "pd_aliases st"] by (simp add: active_count(1) put card_insert_if)
  next
    fix k v
    assume "alias_map (pd_aliases st') k = Some v"
    then show "k \<noteq> [] \<and> v \<noteq> [] \<and> k \<noteq> v" using facts(6) [of k v] a(2) c0 c(2) unfolding put by (cases "k = a") auto
  next
    show "\<exists>r. rooted (alias_map (pd_aliases st')) k r" for k unfolding put by (rule roots)
  qed
  have "{k. k \<noteq> c \<and> rooted (?m(a \<mapsto> c)) k c} \<subseteq> set (Members res c) \<union> set (Members res a) \<union> {a}"
  proof
    fix k
    assume k: "k \<in> {k. k \<noteq> c \<and> rooted (?m(a \<mapsto> c)) k c}"
    obtain p where p: "rooted ?m k p" using facts(2) by blast
    then have "(if p = a then c else p) = c" using rooted_unique [OF move [OF p]] k by blast
    then have "p = a \<or> p = c" by (simp split: if_splits)
    then show "k \<in> set (Members res c) \<union> set (Members res a) \<union> {a}" using p k unfolding facts(5) by blast
  qed
  then have "card {k. k \<noteq> c \<and> rooted (?m(a \<mapsto> c)) k c} \<le> card (set (Members res c) \<union> set (Members res a) \<union> {a})"
    by (intro card_mono) auto
  also have "\<dots> \<le> length (Members res c) + length (Members res a) + 1"
    using card_Un_le [of "set (Members res c) \<union> set (Members res a)" "{a}"]
      card_Un_le [of "set (Members res c)" "set (Members res a)"] card_length [of "Members res c"] card_length [of "Members res a"]
    by simp
  finally have "card {k. k \<noteq> c \<and> rooted (?m(a \<mapsto> c)) k c} \<le> MaxAliasesPerPerson" using room(2) by simp
  moreover have "rooted ?m a a" using ma by (rule here)
  ultimately show ?thesis using again bc c(2) tomb move unfolding merged_def put Let_def by blast
qed

text \<open>A merge either stops before it writes, or writes one edge after all its checks.\<close>

lemma merge_cases:
  assumes run: "Merge ord utf8_ok ev site a b st = (r, st')"
  obtains (stopped) e where "r = Inl e" "tables st' = tables st"
  | (written) res st1 e where "checkedResolver ord (active_aliases (pd_aliases st)) = Inr res" "tables st1 = tables st"
      "PutAlias a (Canonical res b) True st1 = (e, st')" "r = (case e of None \<Rightarrow> Inr (Canonical res b) | Some x \<Rightarrow> Inl x)"
      "\<not> IsAlias res a" "a \<noteq> []" "b \<noteq> []" "Canonical res b \<noteq> a"
      "length (active_aliases (pd_aliases st)) < MaxAliasesPerSite"
      "length (Members res (Canonical res b)) + length (Members res a) + 1 \<le> MaxAliasesPerPerson"
      "a \<notin> set (pd_tombs st)" "Canonical res b \<notin> set (pd_tombs st)"
proof -
  obtain t st1 where t: "loadTombstones st = (t, st1)" by fastforce
  obtain l st2 where l: "ListAliases (MaxAliasesPerSite + 1) st1 = (l, st2)" by fastforce
  have same: "tables st1 = tables st" "tables st2 = tables st" using reads_tables(1) [OF l] reads_tables(4) [OF t] by simp_all
  show thesis
  proof (cases "\<exists>e. r = Inl e \<and> tables st' = tables st")
    case True
    then show thesis using stopped by blast
  next
    case False
    note run' = run [unfolded Merge_def t prod.case]
    have keys: "site \<noteq> []" "ValidatePersonKey utf8_ok a = None" "ValidatePersonKey utf8_ok b = None" "a \<noteq> b"
      using run' False by (auto split: if_splits option.splits)
    obtain tomb where tomb: "t = Inr tomb" "a \<notin> set tomb" "b \<notin> set tomb"
      using run' False keys same by (cases t) (auto split: if_splits)
    note run1 = run' [unfolded tomb(1) sum.case l prod.case]
    obtain rows where rows: "l = Inr rows" "length rows < MaxAliasesPerSite"
      using run1 False keys same tomb by (cases l) (auto split: if_splits)
    obtain res where res: "checkedResolver ord rows = Inr res"
      using run1 False keys same tomb rows by (cases "checkedResolver ord rows") (auto split: if_splits)
    note run2 = run' [unfolded tomb(1) sum.case l prod.case rows(1) res keys(2,3) option.case]
    have guards: "\<not> IsAlias res a" "Canonical res b \<noteq> a" "Canonical res b \<notin> set tomb"
        "length (Members res (Canonical res b)) + length (Members res a) + 1 \<le> MaxAliasesPerPerson"
      using run2 False keys same tomb rows by (auto simp: Let_def split: if_splits)
    have ex: "es_Exists ev a = Inr True" "es_Exists ev b = Inr True"
      using run2 False keys same tomb rows guards by (auto simp: Let_def split: sum.splits bool.splits)
    obtain e where put: "PutAlias a (Canonical res b) True st2 = (e, st')"
      and r: "r = (case e of None \<Rightarrow> Inr (Canonical res b) | Some x \<Rightarrow> Inl x)"
      using run2 keys tomb rows guards ex by (auto simp: Let_def split: prod.splits option.splits)
    have all: "rows = active_aliases (pd_aliases st)"
      using list_aliases [OF l [unfolded rows(1)]] rows(2) same(1) by (auto simp: tables_def min_def split: if_splits)
    have "set tomb = set (pd_tombs st)" using load_tombstones [OF t [unfolded tomb(1)]] .
    then show thesis
      using written [OF res [unfolded all] same(2) put r guards(1)] guards keys tomb rows(2)
      by (auto simp: all ValidatePersonKey_def split: if_splits)
  qed
qed

text \<open>C29: Merging a person into another unites exactly the two: every key that stood for the first stands for
  the root of the second, every other key stays where it was, neither was erased, and afterwards the
  alias graph is still readable, free of cycles, and within its bounds.  A merge that reports an error
  has changed nothing, or has been stored in full.\<close>

theorem merge_unites:
  assumes "map_order ord" "Merge ord utf8_ok ev site a b st = (r, st')"
  shows "pd_tombs st' = pd_tombs st \<and> pd_props st' = pd_props st
    \<and> (case r of Inr c \<Rightarrow> merged ord st a b c st'
       | Inl e \<Rightarrow> pd_aliases st' = pd_aliases st \<or> (\<exists>c. merged ord st a b c st'))"
  using assms(2)
proof (rule merge_cases)
  fix res st1 e
  assume checked: "checkedResolver ord (active_aliases (pd_aliases st)) = Inr res" and same: "tables st1 = tables st"
    and put: "PutAlias a (Canonical res b) True st1 = (e, st')"
    and r: "r = (case e of None \<Rightarrow> Inr (Canonical res b) | Some x \<Rightarrow> Inl x)"
    and guards: "\<not> IsAlias res a" "a \<noteq> []" "b \<noteq> []" "Canonical res b \<noteq> a"
      "length (active_aliases (pd_aliases st)) < MaxAliasesPerSite"
      "length (Members res (Canonical res b)) + length (Members res a) + 1 \<le> MaxAliasesPerPerson"
      "a \<notin> set (pd_tombs st)" "Canonical res b \<notin> set (pd_tombs st)"
  have "alias_map (pd_aliases st') = (alias_map (pd_aliases st))(a \<mapsto> Canonical res b) \<Longrightarrow> merged ord st a b (Canonical res b) st'"
    using merged_put [OF assms(1) checked guards(1,2,3) refl guards(4-8)] .
  then show ?thesis using put_alias [OF put] same r by (auto simp: tables_def split: option.split)
qed (simp add: tables_def)

section \<open>Erasing\<close>

lemma put_tombstones_facts:
  "put_tombstones ks st = (e, st') \<Longrightarrow> pd_aliases st' = pd_aliases st \<and> pd_props st' = pd_props st
    \<and> (\<exists>n. pd_tombs st' = pd_tombs st @ take n ks \<and> (e = None \<longrightarrow> n = length ks))"
proof (induction ks arbitrary: st)
  case (Cons k ks)
  obtain e1 st1 where put: "PutTombstone k st = (e1, st1)" by fastforce
  obtain out st0 where call: "next_call st = (out, st0)" by fastforce
  have "tables st0 = tables st" using calls_tables(1) [OF call] .
  then have one: "pd_aliases st1 = pd_aliases st" "pd_props st1 = pd_props st"
      "pd_tombs st1 = pd_tombs st @ [k] \<or> pd_tombs st1 = pd_tombs st \<and> e1 \<noteq> None"
    using put by (cases out; auto simp: PutTombstone_def call tables_def)+
  show ?case
  proof (cases e1)
    case None
    then have rest: "put_tombstones ks st1 = (e, st')" using Cons.prems put by simp
    from Cons.IH [OF this] one None obtain n where
      "pd_tombs st' = pd_tombs st @ take (Suc n) (k # ks)" "e = None \<longrightarrow> Suc n = length (k # ks)" by auto
    moreover have "pd_aliases st' = pd_aliases st" "pd_props st' = pd_props st"
      using Cons.IH [OF rest] one by simp_all
    ultimately show ?thesis by blast
  next
    case (Some x)
    then have "st' = st1" "e \<noteq> None" using Cons.prems put by auto
    moreover have "pd_tombs st1 = pd_tombs st @ take 1 (k # ks) \<or> pd_tombs st1 = pd_tombs st @ take 0 (k # ks)"
      using one(3) by auto
    ultimately show ?thesis using one by blast
  qed
qed simp

lemma put_props:
  assumes "PutProps k doc st = (e, st')"
  shows "pd_aliases st' = pd_aliases st" "pd_tombs st' = pd_tombs st"
    and "e = None \<Longrightarrow> map_option pv_props (latestProps (pd_props st') k) = Some doc"
    and "k' \<noteq> k \<Longrightarrow> latestProps (pd_props st') k' = latestProps (pd_props st) k'"
proof -
  obtain ok st1 where r: "read_call st = (ok, st1)" by fastforce
  obtain out st2 where n: "next_call st1 = (out, st2)" by fastforce
  have same: "tables st1 = tables st" "tables st2 = tables st" using calls_tables r n by metis+
  define v where "v = (case latestProps (pd_props st) k of None \<Rightarrow> 0 | Some r \<Rightarrow> pv_version r)"
  define new where "new = \<lparr>pv_key = k, pv_props = doc, pv_version = (if pd_now st2 < v + 1 then v + 1 else pd_now st2)\<rparr>"
  have props: "pd_props st' = pd_props st @ [new] \<or> pd_props st' = pd_props st \<and> e \<noteq> None"
    and same': "pd_aliases st' = pd_aliases st" "pd_tombs st' = pd_tombs st"
    using assms same by (cases out; auto simp: PutProps_def r n tables_def new_def v_def Let_def split: if_splits)+
  have "pv_version r < pv_version new" if r: "r \<in> set (filter (\<lambda>r. pv_key r = k) (pd_props st))" for r
  proof -
    from r have "filter (\<lambda>r. pv_key r = k) (pd_props st) \<noteq> []" by fastforce
    then obtain m where m: "latestProps (pd_props st) k = Some m"
      using max_row_facts(1) [of pv_version "filter (\<lambda>r. pv_key r = k) (pd_props st)"] by (auto simp: latestProps_def)
    then have "pv_version r \<le> pv_version m"
      using max_row_facts(2) [of pv_version "filter (\<lambda>r. pv_key r = k) (pd_props st)" m] r by (simp add: latestProps_def)
    then show ?thesis by (simp add: new_def v_def m)
  qed
  then have "latestProps (pd_props st @ [new]) k = Some new"
    using max_row_new [of "filter (\<lambda>r. pv_key r = k) (pd_props st)" pv_version new] by (simp add: latestProps_def new_def)
  then show "e = None \<Longrightarrow> map_option pv_props (latestProps (pd_props st') k) = Some doc" using props by (auto simp: new_def)
  show "k' \<noteq> k \<Longrightarrow> latestProps (pd_props st') k' = latestProps (pd_props st) k'"
    using props by (auto simp: latestProps_def new_def)
  show "pd_aliases st' = pd_aliases st" "pd_tombs st' = pd_tombs st" by (fact same')+
qed

lemma clear_props_facts:
  "clear_props ks st = (e, st') \<Longrightarrow> pd_aliases st' = pd_aliases st \<and> pd_tombs st' = pd_tombs st
    \<and> (e = None \<longrightarrow> (\<forall>k \<in> set ks. map_option pv_props (latestProps (pd_props st') k) = Some ''{}''))
    \<and> (\<forall>k. k \<notin> set ks \<longrightarrow> latestProps (pd_props st') k = latestProps (pd_props st) k)"
proof (induction ks arbitrary: st)
  case (Cons k ks)
  obtain e1 st1 where put: "PutProps k ''{}'' st = (e1, st1)" by fastforce
  note one = put_props [OF put]
  show ?case
  proof (cases e1)
    case None
    then have rest: "clear_props ks st1 = (e, st')" using Cons.prems put by simp
    show ?thesis using Cons.IH [OF rest] one None by (cases "k \<in> set ks") auto
  next
    case (Some x)
    then have "st' = st1" "e \<noteq> None" using Cons.prems put by auto
    then show ?thesis using one by auto
  qed
qed simp

lemma detach_facts:
  "detach res ks st = (e, st') \<Longrightarrow> pd_tombs st' = pd_tombs st \<and> pd_props st' = pd_props st
    \<and> (\<forall>k. alias_map (pd_aliases st') k \<noteq> alias_map (pd_aliases st) k \<longrightarrow> k \<in> set ks)
    \<and> (e = None \<longrightarrow> (\<forall>k \<in> set ks. Canonical res k \<noteq> k \<longrightarrow> alias_map (pd_aliases st') k = None))"
proof (induction ks arbitrary: st)
  case (Cons k ks)
  show ?case
  proof (cases "Canonical res k = k")
    case True
    then show ?thesis using Cons.IH [of st] Cons.prems by auto
  next
    case False
    obtain e1 st1 where put: "PutAlias k (Canonical res k) False st = (e1, st1)" by fastforce
    note one = put_alias [OF put]
    show ?thesis
    proof (cases e1)
      case None
      then have rest: "detach res ks st1 = (e, st')" using Cons.prems put False by simp
      have "alias_map (pd_aliases st1) = (alias_map (pd_aliases st))(k := None)" using one(3) None by auto
      then show ?thesis using Cons.IH [OF rest] one(1,2) by (auto split: if_splits)
    next
      case (Some x)
      then have "st' = st1" "e \<noteq> None" using Cons.prems put False by auto
      then show ?thesis using one by (auto split: if_splits)
    qed
  qed
qed simp

lemma erased_sure:
  assumes "site \<noteq> []" "k \<noteq> []"
    and "k \<in> set (pd_tombs s) \<or> map_order ord \<and> (\<exists>c. rooted (alias_map (pd_aliases s)) k c \<and> c \<in> set (pd_tombs s))"
  shows "fst (IsErased ord site k s) \<noteq> Inr False"
proof -
  obtain x s1 where r: "loadResolver ord s = (x, s1)" by fastforce
  obtain t s2 where t: "loadTombstones s1 = (t, s2)" by fastforce
  have same: "tables s1 = tables s" using reads_tables(3) [OF r] .
  show ?thesis
  proof (cases x; cases t)
    fix res tomb
    assume x: "x = Inr res" and tt: "t = Inr tomb"
    have tomb: "set tomb = set (pd_tombs s)" using load_tombstones [OF t [unfolded tt]] same by (simp add: tables_def)
    have "Canonical res k = c" if "map_order ord" "rooted (alias_map (pd_aliases s)) k c" for c
      using checked_facts(3) [OF that(1) load_resolver [OF r [unfolded x]] that(2)] .
    then show ?thesis using assms tomb by (auto simp: IsErased_def r t x tt)
  qed (use assms(1,2) in \<open>simp_all add: IsErased_def r t\<close>)
qed

text \<open>How far an erasure got.\<close>

lemma erase_cases:
  assumes run: "Erase ord utf8_ok site key st = (r, st')"
  obtains (stopped) e where "r = Inl e" "tables st' = tables st"
  | (hiding) res st1 e where "checkedResolver ord (active_aliases (pd_aliases st)) = Inr res" "tables st1 = tables st"
      "put_tombstones (Canonical res key # Members res (Canonical res key)) st1 = (Some e, st')" "r = Inl e"
  | (clearing) res st1 st2 e where "checkedResolver ord (active_aliases (pd_aliases st)) = Inr res" "tables st1 = tables st"
      "put_tombstones (Canonical res key # Members res (Canonical res key)) st1 = (None, st2)"
      "clear_props (Canonical res key # Members res (Canonical res key)) st2 = (Some e, st')" "r = Inl e"
  | (detaching) res st1 st2 st3 e where "checkedResolver ord (active_aliases (pd_aliases st)) = Inr res" "tables st1 = tables st"
      "put_tombstones (Canonical res key # Members res (Canonical res key)) st1 = (None, st2)"
      "clear_props (Canonical res key # Members res (Canonical res key)) st2 = (None, st3)"
      "detach res (Canonical res key # Members res (Canonical res key)) st3 = (e, st')"
      "r = (case e of None \<Rightarrow> Inr (Canonical res key # Members res (Canonical res key)) | Some x \<Rightarrow> Inl x)"
proof -
  obtain x s1 where x: "loadResolver ord st = (x, s1)" by fastforce
  obtain t s2 where t: "loadTombstones s1 = (t, s2)" by fastforce
  have same: "tables s1 = tables st" "tables s2 = tables st"
    using reads_tables(3) [OF x] reads_tables(4) [OF t] by simp_all
  show thesis
  proof (cases "\<exists>e. r = Inl e \<and> tables st' = tables st")
    case True
    then show thesis using stopped by blast
  next
    case False
    note run' = run [unfolded Erase_def x prod.case]
    have key: "site \<noteq> []" "ValidatePersonKey utf8_ok key = None"
      using run' False by (auto split: if_splits option.splits)
    obtain res where res: "x = Inr res" using run' False key same by (cases x) auto
    obtain tomb where tomb: "t = Inr tomb" using run' False key same res by (cases t) (auto simp: t Let_def)
    let ?keys = "Canonical res key # Members res (Canonical res key)"
    note checked = load_resolver [OF x [unfolded res]]
    let ?over = "MaxTombstonesPerSite < length tomb + length (filter (\<lambda>k. k \<notin> set tomb) ?keys)"
    let ?writes = "case put_tombstones ?keys s2 of (Some e, st) \<Rightarrow> (Inl e, st) | (None, st) \<Rightarrow>
      case clear_props ?keys st of (Some e, st) \<Rightarrow> (Inl e, st) | (None, st) \<Rightarrow>
      case detach res ?keys st of (Some e, st) \<Rightarrow> (Inl e, st) | (None, st) \<Rightarrow> (Inr ?keys, st)"
    have whole: "(if ?over then (Inl ErrLimit, s2) else ?writes) = (r, st')"
      using run' key unfolding res t tomb Let_def by (simp only: if_False option.case sum.case prod.case)
    have "\<not> ?over"
    proof
      assume ?over
      then have "r = Inl ErrLimit \<and> st' = s2" using whole by (simp only: if_True prod.inject eq_commute)
      then show False using False same(2) by blast
    qed
    then have run2: "?writes = (r, st')" using whole by (simp only: if_False)
    obtain e1 s3 where p: "put_tombstones ?keys s2 = (e1, s3)" by fastforce
    show thesis
    proof (cases e1)
      case (Some e)
      then show thesis using hiding [OF checked same(2)] p run2 by simp
    next
      case None
      obtain e2 s4 where c: "clear_props ?keys s3 = (e2, s4)" by fastforce
      show thesis
      proof (cases e2)
        case (Some e)
        then show thesis using clearing [OF checked same(2)] p c None run2 by simp
      next
        case ok: None
        obtain e3 s5 where "detach res ?keys s4 = (e3, s5)" by fastforce
        then show thesis using detaching [OF checked same(2)] p c None ok run2 by (cases e3) simp_all
      qed
    qed
  qed
qed

text \<open>The admission check of the ingest buffer with this service behind it.\<close>

definition admission :: "order \<Rightarrow> person_db \<Rightarrow> Event \<Rightarrow> erasure" where
  "admission ord st = checkErasure (Some (\<lambda>site k. case fst (IsErased ord site k st) of Inl _ \<Rightarrow> None | Inr b \<Rightarrow> Some b))"

lemma admission_refuses:
  assumes "ev_site_id e \<noteq> []" "ev_distinct_id e \<noteq> []"
    and "ev_distinct_id e \<in> set (pd_tombs s) \<or> map_order ord
      \<and> (\<exists>c. rooted (alias_map (pd_aliases s)) (ev_distinct_id e) c \<and> c \<in> set (pd_tombs s))"
  shows "admission ord s e \<noteq> ErasureClear"
  using erased_sure [OF assms] assms(2) by (auto simp: admission_def checkErasure_def split: sum.split)

text \<open>C30: Once an erasure has written anything, the person is hidden: whichever of its writes then failed, and
  whatever fails later, the ingest buffer's check admits no event of any key of the person.  An erasure
  that wrote nothing reports an error; one that succeeds has in addition emptied the traits of every key
  of the person and detached every alias.\<close>

theorem erase_hides:
  assumes ord: "map_order ord" "map_order ord'" and run: "Erase ord utf8_ok site key st = (r, st')"
    and person: "rooted (alias_map (pd_aliases st)) key c" "rooted (alias_map (pd_aliases st)) k c"
    and event: "ev_site_id e \<noteq> []" "ev_distinct_id e = k" "k \<noteq> []"
  shows "(tables st' = tables st \<and> (\<exists>err. r = Inl err)
      \<or> (\<forall>io now. admission ord' (st'\<lparr>pd_io := io, pd_now := now\<rparr>) e \<noteq> ErasureClear))
    \<and> (\<forall>ks. r = Inr ks \<longrightarrow> k \<in> set ks \<and> (\<forall>io now. admission ord' (st'\<lparr>pd_io := io, pd_now := now\<rparr>) e \<noteq> ErasureClear)
         \<and> map_option pv_props (latestProps (pd_props st') k) = Some ''{}''
         \<and> (k \<noteq> c \<longrightarrow> alias_map (pd_aliases st') k = None))"
proof -
  have canon: "Canonical res key = c" and group: "k \<in> set (c # Members res c)" "Canonical res k = c"
    if "checkedResolver ord (active_aliases (pd_aliases st)) = Inr res" for res
    using checked_facts(3,5) [OF ord(1) that] person by auto
  have sure: "\<forall>io now. admission ord' (st'\<lparr>pd_io := io, pd_now := now\<rparr>) e \<noteq> ErasureClear" if "k \<in> set (pd_tombs st')"
    using admission_refuses [OF event(1)] event(2,3) that by auto
  from run show ?thesis
  proof (cases rule: erase_cases)
    case (hiding res st1 x)
    obtain n where n: "pd_tombs st' = pd_tombs st1 @ take n (c # Members res c)" "pd_aliases st' = pd_aliases st1"
        "pd_props st' = pd_props st1"
      using put_tombstones_facts [OF hiding(3)] canon [OF hiding(1)] by auto
    show ?thesis
    proof (cases n)
      case 0
      then show ?thesis using n hiding by (simp add: tables_def)
    next
      case (Suc m)
      then have "c \<in> set (pd_tombs st')" "pd_aliases st' = pd_aliases st" using n hiding(2) by (simp_all add: tables_def)
      then have "\<forall>io now. admission ord' (st'\<lparr>pd_io := io, pd_now := now\<rparr>) e \<noteq> ErasureClear"
        using admission_refuses [of e "st'\<lparr>pd_io := _, pd_now := _\<rparr>" ord'] event ord(2) person(2)
        by (auto simp del: all_simps)
      then show ?thesis using hiding(4) by simp
    qed
  next
    case (clearing res st1 st2 x)
    then have "k \<in> set (pd_tombs st')"
      using put_tombstones_facts [OF clearing(3)] clear_props_facts [OF clearing(4)] canon group(1) by auto
    then show ?thesis using sure clearing(5) by simp
  next
    case (detaching res st1 st2 st3 x)
    note facts = put_tombstones_facts [OF detaching(3)] clear_props_facts [OF detaching(4)] detach_facts [OF detaching(5)]
    have "k \<in> set (pd_tombs st')" using facts canon [OF detaching(1)] group(1) [OF detaching(1)] by auto
    moreover have "map_option pv_props (latestProps (pd_props st') k) = Some ''{}''"
      using facts(2,3) canon [OF detaching(1)] group(1) [OF detaching(1)] by auto
    moreover have "x = None \<Longrightarrow> k \<noteq> c \<Longrightarrow> alias_map (pd_aliases st') k = None"
      using facts(3) canon [OF detaching(1)] group [OF detaching(1)] by auto
    ultimately show ?thesis
      using sure detaching(6) canon [OF detaching(1)] group(1) [OF detaching(1)] by (auto split: option.splits)
  qed simp
qed

section \<open>The resolver as a reading of the rows\<close>

text \<open>The memoised resolver is the reference reading of the alias rows: a key stands for the end of its
  chain of aliases, whatever the order in which the map is walked and however the walks share their
  results; a key that runs into a cycle stands for itself; and the members of a person are all other keys
  whose chain ends there, once each and in order.\<close>

theorem resolver_exact:
  fixes rows :: "AliasRow list"
  assumes "map_order ord"
  defines "m \<equiv> map_of (direct_of rows [])"
  shows "(\<forall>k. let r = Canonical (NewResolver ord rows) k in rooted m k r \<or> r = k \<and> (\<nexists>q. rooted m k q))
    \<and> (\<forall>c. sorted (Members (NewResolver ord rows) c) \<and> distinct (Members (NewResolver ord rows) c)
        \<and> set (Members (NewResolver ord rows) c) = {a. a \<noteq> c \<and> rooted m a c})"
  using resolver_facts [OF assms(1), of rows, folded m_def] by simp metis

section \<open>The properties at a small site\<close>

definition demo_events :: event_source where
  "demo_events = \<lparr>es_List = (\<lambda>_ _. Inr []), es_Count = Inr 0, es_ListAll = (\<lambda>_. Inr []),
     es_Aggregate = (\<lambda>_. Inr None), es_Timeline = (\<lambda>_. Inr []), es_Exists = (\<lambda>_. Inr True)\<rparr>"

definition demo_site :: person_db where
  "demo_site = \<lparr>pd_aliases = [\<lparr>av_alias = ''b'', av_canonical = ''c'', av_active = True, av_version = 3\<rparr>], pd_tombs = [],
     pd_props = [], pd_io = [], pd_now = 5\<rparr>"

lemma id_order: "map_order id" by (simp add: map_order_def)

lemma demo_reads:
  "ListAliases (MaxAliasesPerSite + 1) demo_site = (Inr [\<lparr>AliasKey = ''b'', CanonicalKey = ''c''\<rparr>], demo_site)"
  "loadTombstones demo_site = (Inr [], demo_site)"
  by (simp_all add: ListAliases_def loadTombstones_def ListTombstones_def demo_site_def read_call_def next_call_def
      MaxAliasesPerSite_def active_aliases_def latest_alias_def)

definition demo_resolver :: Resolver where
  "demo_resolver = NewResolver id [\<lparr>AliasKey = ''b'', CanonicalKey = ''c''\<rparr>]"

lemma demo_resolved: "Canonical demo_resolver ''a'' = ''a''" "Canonical demo_resolver ''b'' = ''c''"
    "Canonical demo_resolver ''c'' = ''c''"
    "Members demo_resolver ''c'' = [''b'']" "Members demo_resolver ''a'' = []" "\<not> IsAlias demo_resolver ''a''"
  by (simp_all add: demo_resolver_def NewResolver_def Canonical_def Members_def IsAlias_def canonical_in_def walk_root.simps Let_def)

lemma demo_checked: "checkedResolver id [\<lparr>AliasKey = ''b'', CanonicalKey = ''c''\<rparr>] = Inr demo_resolver"
  using demo_resolved by (simp add: checkedResolver_def MaxAliasesPerSite_def flip: demo_resolver_def)

lemma demo_merge: "Merge id (\<lambda>_. True) demo_events ''s'' ''a'' ''b'' demo_site
    = (Inr ''c'', demo_site\<lparr>pd_aliases := pd_aliases demo_site
        @ [\<lparr>av_alias = ''a'', av_canonical = ''c'', av_active = True, av_version = 5\<rparr>]\<rparr>)"
  unfolding Merge_def demo_reads sum.case prod.case demo_checked
  by (simp add: demo_resolved ValidatePersonKey_def MaxPersonKeyLen_def MaxAliasesPerSite_def MaxAliasesPerPerson_def demo_events_def
      PutAlias_def read_call_def next_call_def demo_site_def latest_alias_def next_version_def Let_def)

theorem merge_unites_witness:
  "\<exists>st'. Merge id (\<lambda>_. True) demo_events ''s'' ''a'' ''b'' demo_site = (Inr ''c'', st') \<and> merged id demo_site ''a'' ''b'' ''c'' st'"
  using merge_unites [OF id_order demo_merge] demo_merge by simp

lemma demo_erase: "\<exists>st'. Erase id (\<lambda>_. True) ''s'' ''b'' demo_site = (Inr [''c'', ''b''], st')"
proof -
  have res: "loadResolver id demo_site = (Inr demo_resolver, demo_site)"
    unfolding loadResolver_def demo_reads by (simp add: demo_checked)
  show ?thesis
    unfolding Erase_def res demo_reads sum.case prod.case
    by (simp add: demo_resolved ValidatePersonKey_def MaxPersonKeyLen_def MaxTombstonesPerSite_def PutTombstone_def PutProps_def
        PutAlias_def read_call_def next_call_def demo_site_def Let_def)
qed

lemma demo_rooted: "rooted (alias_map (pd_aliases demo_site)) ''b'' ''c''"
  by (rule rooted.follow [of _ _ "''c''"], simp add: alias_map_def latest_alias_def demo_site_def)
     (rule rooted.here, simp add: alias_map_def latest_alias_def demo_site_def)

definition demo_event :: Event where
  "demo_event = zero_event\<lparr>ev_site_id := ''s'', ev_distinct_id := ''b''\<rparr>"

theorem erase_hides_witness:
  "\<exists>st'. Erase id (\<lambda>_. True) ''s'' ''b'' demo_site = (Inr [''c'', ''b''], st')
    \<and> admission id st' demo_event \<noteq> ErasureClear \<and> map_option pv_props (latestProps (pd_props st') ''b'') = Some ''{}''
    \<and> alias_map (pd_aliases st') ''b'' = None"
proof -
  obtain st' where run: "Erase id (\<lambda>_. True) ''s'' ''b'' demo_site = (Inr [''c'', ''b''], st')" using demo_erase by blast
  have event: "ev_site_id demo_event \<noteq> []" "ev_distinct_id demo_event = ''b''" "''b'' \<noteq> []" by (simp_all add: demo_event_def)
  note facts = erase_hides [OF id_order id_order run demo_rooted demo_rooted event]
  have "admission id (st'\<lparr>pd_io := pd_io st', pd_now := pd_now st'\<rparr>) demo_event \<noteq> ErasureClear" using facts by blast
  then show ?thesis using facts run by simp
qed

theorem resolver_exact_witness:
  "Canonical demo_resolver ''b'' = ''c'' \<and> rooted (map_of (direct_of [\<lparr>AliasKey = ''b'', CanonicalKey = ''c''\<rparr>] [])) ''b'' ''c''"
  using resolver_exact [OF id_order, of "[\<lparr>AliasKey = ''b'', CanonicalKey = ''c''\<rparr>]", folded demo_resolver_def] demo_resolved(2)
  by (auto simp: Let_def dest!: conjunct1 spec [of _ "''b''"])

text \<open>The tombstones are no set: erasing a person again stores its tombstones again.\<close>

lemma erased_twice_stored_twice:
  "\<exists>st. (snd \<circ> Erase id (\<lambda>_. True) ''s'' ''a'' \<circ> snd \<circ> Erase id (\<lambda>_. True) ''s'' ''a'') (demo_site\<lparr>pd_aliases := []\<rparr>) = st
    \<and> pd_tombs st = [''a'', ''a'']"
  by (simp add: Erase_def loadResolver_def ListAliases_def loadTombstones_def ListTombstones_def demo_site_def read_call_def
      next_call_def active_aliases_def checkedResolver_def MaxAliasesPerSite_def NewResolver_def Canonical_def Members_def
      canonical_in_def Let_def ValidatePersonKey_def MaxPersonKeyLen_def MaxTombstonesPerSite_def PutTombstone_def PutProps_def)

end
