(* ===== verification/PersonsReads.thy ===== *)
theory PersonsReads
  imports PersonsProps
begin

text \<open>
  What the reads of person identity (\<^verbatim>\<open>src/internal/persons\<close>) return: the folded list adds up, and the
  detail of a key is the detail of its person.
\<close>

section \<open>The folded list\<close>

text \<open>The person a row of the events belongs to, and the rows an erasure leaves.\<close>

definition owner :: "Resolver \<Rightarrow> Person \<Rightarrow> string" where
  "owner res p = (if DistinctID p = [] then [] else Canonical res (DistinctID p))"

definition left_over :: "Resolver \<Rightarrow> string list \<Rightarrow> Person list \<Rightarrow> Person list" where
  "left_over res tomb rows = filter (\<lambda>p. DistinctID p \<notin> set tomb \<and> owner res p \<notin> set tomb) rows"

definition rows_of :: "Resolver \<Rightarrow> string \<Rightarrow> Person list \<Rightarrow> Person list" where
  "rows_of res c rows = filter (\<lambda>p. owner res p = c) rows"

text \<open>A person that summarises some rows.\<close>

definition summary :: "Person list \<Rightarrow> Person \<Rightarrow> bool" where
  "summary g p \<longleftrightarrow> g \<noteq> [] \<and> EventCount p = sum_list (map EventCount g) \<and> SessionCount p = sum_list (map SessionCount g)
     \<and> FirstSeenMs p = Min (FirstSeenMs ` set g) \<and> LastSeenMs p = Max (LastSeenMs ` set g)
     \<and> (\<exists>q \<in> set g. LastSeenMs q = LastSeenMs p \<and> TopCountry q = TopCountry p \<and> TopBrowser q = TopBrowser p)"

lemma summary_one: "summary [p] (p\<lparr>DistinctID := c\<rparr>)"
  by (simp add: summary_def)

lemma absorb_id [simp]: "DistinctID (absorb p q) = DistinctID p"
  by (simp add: absorb_def Let_def)

lemma summary_absorb:
  assumes "summary g p"
  shows "summary (g @ [q]) (absorb p q)"
proof -
  have g: "finite (f ` set g)" "f ` set g \<noteq> {}" for f :: "Person \<Rightarrow> int" using assms by (simp_all add: summary_def)
  have sums: "EventCount (absorb p q) = EventCount p + EventCount q"
    "SessionCount (absorb p q) = SessionCount p + SessionCount q"
    "FirstSeenMs (absorb p q) = min (FirstSeenMs q) (FirstSeenMs p)" "LastSeenMs (absorb p q) = max (LastSeenMs q) (LastSeenMs p)"
    by (simp_all add: absorb_def Let_def)
  have ends: "Min (FirstSeenMs ` set (g @ [q])) = min (FirstSeenMs q) (Min (FirstSeenMs ` set g))"
    "Max (LastSeenMs ` set (g @ [q])) = max (LastSeenMs q) (Max (LastSeenMs ` set g))"
    using g by simp_all
  have "\<exists>r \<in> set (g @ [q]). LastSeenMs r = LastSeenMs (absorb p q) \<and> TopCountry r = TopCountry (absorb p q)
      \<and> TopBrowser r = TopBrowser (absorb p q)"
  proof (cases "LastSeenMs p < LastSeenMs q")
    case True
    then show ?thesis by (simp add: absorb_def Let_def)
  next
    case False
    then have "LastSeenMs (absorb p q) = LastSeenMs p" "TopCountry (absorb p q) = TopCountry p"
      "TopBrowser (absorb p q) = TopBrowser p"
      by (simp_all add: absorb_def Let_def)
    then show ?thesis using assms by (auto simp: summary_def)
  qed
  then show ?thesis using assms sums ends by (simp add: summary_def)
qed

lemma absorb_into_ids: "map DistinctID (absorb_into c p acc)
    = (if c \<in> DistinctID ` set acc then map DistinctID acc else map DistinctID acc @ [c])"
  by (induction acc) auto

lemma absorb_into_cases:
  "distinct (map DistinctID acc) \<Longrightarrow> q \<in> set (absorb_into c p acc)
    \<Longrightarrow> q \<in> set acc \<and> DistinctID q \<noteq> c
      \<or> (\<exists>q0 \<in> set acc. DistinctID q0 = c \<and> q = absorb q0 p)
      \<or> c \<notin> DistinctID ` set acc \<and> q = p\<lparr>DistinctID := c\<rparr>"
  by (induction acc) (auto split: if_splits intro: rev_image_eqI)

definition folded :: "Resolver \<Rightarrow> Person list \<Rightarrow> Person list \<Rightarrow> bool" where
  "folded res seen acc \<longleftrightarrow> distinct (map DistinctID acc) \<and> DistinctID ` set acc = owner res ` set seen
     \<and> (\<forall>p \<in> set acc. summary (rows_of res (DistinctID p) seen) p)"

lemma rows_of_none: "c \<notin> owner res ` set seen \<Longrightarrow> rows_of res c seen = []"
  by (auto simp: rows_of_def filter_empty_conv)

lemma folded_absorb:
  assumes "folded res seen acc"
  shows "folded res (seen @ [p]) (absorb_into (owner res p) p acc)"
proof -
  let ?c = "owner res p"
  have ids: "distinct (map DistinctID acc)" "DistinctID ` set acc = owner res ` set seen"
    and sums: "q \<in> set acc \<Longrightarrow> summary (rows_of res (DistinctID q) seen) q" for q
    using assms by (auto simp: folded_def)
  have "distinct (map DistinctID (absorb_into ?c p acc))" using ids(1) by (simp add: absorb_into_ids)
  moreover have "set (map DistinctID (absorb_into ?c p acc)) = owner res ` set (seen @ [p])"
    using ids(2) by (auto simp: absorb_into_ids)
  moreover have "summary (rows_of res (DistinctID q) (seen @ [p])) q" if "q \<in> set (absorb_into ?c p acc)" for q
    using absorb_into_cases [OF ids(1) that] sums summary_absorb summary_one [of p ?c] rows_of_none [of ?c res seen] ids(2)
    by (fastforce simp: rows_of_def)
  ultimately show ?thesis by (simp add: folded_def)
qed

lemma fold_rows_folded:
  "folded res seen acc \<Longrightarrow> folded res (seen @ left_over res tomb rows) (fold_rows res tomb rows acc)"
proof (induction res tomb rows acc arbitrary: seen rule: fold_rows.induct)
  case (2 res tomb p rows acc)
  have who: "(if DistinctID p \<noteq> [] then Canonical res (DistinctID p) else DistinctID p) = owner res p"
    by (simp add: owner_def)
  show ?case
    using 2(1) [OF _ 2(4)] 2(2) [OF _ refl, unfolded who, OF _ _ 2(4)] 2(3) [OF _ refl, unfolded who, OF _ _ folded_absorb [OF 2(4)]]
    by (auto simp: left_over_def Let_def who)
qed (simp add: left_over_def)

text \<open>The order of the list: latest activity first, then the key.\<close>

definition listed_before :: "Person \<Rightarrow> Person \<Rightarrow> bool" where
  "listed_before p q \<longleftrightarrow> LastSeenMs q < LastSeenMs p \<or> LastSeenMs p = LastSeenMs q \<and> DistinctID p < DistinctID q"

lemma insort_refined:
  fixes f :: "'a \<Rightarrow> 'b::linorder" and g :: "'a \<Rightarrow> 'c::linorder"
  assumes "\<forall>y \<in> set ys. g x < g y" "sorted_wrt (\<lambda>x y. f x < f y \<or> f x = f y \<and> g x < g y) ys"
  shows "sorted_wrt (\<lambda>x y. f x < f y \<or> f x = f y \<and> g x < g y) (insort_key f x ys)"
  using assms by (induction ys) (auto simp: set_insort_key order.order_iff_strict)

lemma sort_refined:
  fixes f :: "'a \<Rightarrow> 'b::linorder" and g :: "'a \<Rightarrow> 'c::linorder"
  shows "sorted_wrt (\<lambda>x y. g x < g y) ys
    \<Longrightarrow> sorted_wrt (\<lambda>x y. f x < f y \<or> f x = f y \<and> g x < g y) (sort_key f ys)"
  by (induction ys) (simp_all add: insort_refined)

text \<open>C32: The folded list has exactly one row per person that is left after the erasures: no erased key and no
  person whose root is erased is listed, every other row of the events is counted in exactly one person,
  whose event and session counts are the sums over its rows, whose first and last activity are the
  extremes, and whose country and browser come from a latest row.  The list is strictly ordered by
  latest activity and then by key.\<close>

theorem fold_exact:
  fixes rows :: "Person list" and res :: Resolver and tomb :: "string list"
  defines "out \<equiv> foldPersons rows res tomb" and "kept \<equiv> left_over res tomb rows"
  shows "distinct (map DistinctID out) \<and> set (map DistinctID out) = owner res ` set kept
    \<and> list_all (\<lambda>p. DistinctID p \<notin> set tomb \<and> summary (rows_of res (DistinctID p) kept) p) out
    \<and> sorted_wrt listed_before out"
proof -
  define acc where "acc = fold_rows res tomb rows []"
  have folded: "folded res kept acc"
    using fold_rows_folded [of res "[]" "[]" tomb rows] by (simp add: folded_def kept_def acc_def)
  have out: "out = sort_key (\<lambda>p. - LastSeenMs p) (sort_key DistinctID acc)" by (simp add: out_def foldPersons_def acc_def)
  have same: "set out = set acc" "length out = length acc" by (simp_all add: out)
  have ids: "distinct (map DistinctID out)"
    using folded same by (metis card_distinct distinct_card folded_def length_map list.set_map)
  have "distinct (map DistinctID (sort_key DistinctID acc))"
    using folded by (metis card_distinct distinct_card folded_def length_map length_sort list.set_map set_sort)
  then have "sorted_wrt (\<lambda>p q. DistinctID p < DistinctID q) (sort_key DistinctID acc)"
    using sorted_sort_key [of DistinctID acc] by (simp add: strict_sorted_iff flip: sorted_wrt_map)
  then have "sorted_wrt listed_before out"
    using sort_refined [of DistinctID "sort_key DistinctID acc" "\<lambda>p. - LastSeenMs p"]
    by (simp add: out listed_before_def [abs_def])
  moreover have "DistinctID p \<notin> set tomb" if "p \<in> set out" for p
  proof -
    have "DistinctID p \<in> owner res ` set kept" using that folded same by (auto simp: folded_def)
    then show ?thesis by (auto simp: kept_def left_over_def)
  qed
  ultimately show ?thesis
    using folded ids by (simp add: folded_def list_all_iff same)
qed

section \<open>The detail of a person\<close>

definition summarised :: "Person list \<Rightarrow> Person option \<Rightarrow> bool" where
  "summarised g agg \<longleftrightarrow> (case agg of None \<Rightarrow> g = [] | Some p \<Rightarrow> summary g p)"

text \<open>What is stored of the members of a person.\<close>

definition aggregates :: "event_source \<Rightarrow> string list \<Rightarrow> Person list" where
  "aggregates ev ks = List.map_filter (\<lambda>k. case es_Aggregate ev k of Inl _ \<Rightarrow> None | Inr p \<Rightarrow> p) ks"

definition timelines :: "event_source \<Rightarrow> string list \<Rightarrow> PersonEvent list" where
  "timelines ev ks = concat (map (\<lambda>k. case es_Timeline ev k of Inl _ \<Rightarrow> [] | Inr evs \<Rightarrow> evs) ks)"

definition traits :: "props_version list \<Rightarrow> string \<Rightarrow> (string \<times> json) list option" where
  "traits rows k = prop_part (map_option pv_props (latestProps rows k))"

lemma get_props: "GetProps k st = (Inr raw, st') \<Longrightarrow> raw = map_option pv_props (latestProps (pd_props st) k) \<and> tables st' = tables st"
  by (auto simp: GetProps_def read_call_def next_call_def tables_def split: prod.splits if_splits list.splits)

lemma detail_loop_facts:
  "detail_loop ev first ks agg tline parts st = (Inr (agg', tline', parts'), st') \<Longrightarrow> summarised g agg
    \<Longrightarrow> \<not> first \<or> parts = []
    \<Longrightarrow> summarised (g @ aggregates ev ks) agg' \<and> tline' = tline @ timelines ev ks
      \<and> parts' = rev (List.map_filter (traits (pd_props st)) ks) @ parts"
proof (induction ks arbitrary: first agg tline parts st g)
  case Nil
  then show ?case by (simp add: aggregates_def timelines_def map_filter_def)
next
  case (Cons k ks)
  obtain p where p: "es_Aggregate ev k = Inr p" using Cons.prems(1) by (cases "es_Aggregate ev k") auto
  obtain raw s1 where r: "GetProps k st = (Inr raw, s1)" using Cons.prems(1) p by (auto simp: Let_def split: prod.splits sum.splits)
  have raw: "raw = map_option pv_props (latestProps (pd_props st) k)" "pd_props s1 = pd_props st"
    using get_props [OF r] by (simp_all add: tables_def)
  define agg1 where "agg1 = (case p of None \<Rightarrow> agg | Some q \<Rightarrow> (case agg of None \<Rightarrow> Some q | Some a \<Rightarrow> Some (absorb a q)))"
  define parts1 where "parts1 = (case traits (pd_props st) k of None \<Rightarrow> parts | Some pm \<Rightarrow> pm # parts)"
  have one: "summary [q] q" for q by (simp add: summary_def)
  have sum1: "summarised (g @ (case p of None \<Rightarrow> [] | Some q \<Rightarrow> [q])) agg1"
    using Cons.prems(2) one summary_absorb by (auto simp: summarised_def agg1_def split: option.splits)
  have parts1: "(case prop_part raw of None \<Rightarrow> parts | Some pm \<Rightarrow> if first then parts @ [pm] else pm # parts) = parts1"
    using Cons.prems(3) by (auto simp: parts1_def traits_def raw split: option.split)
  have "detail_loop ev False ks agg1 (case es_Timeline ev k of Inl _ \<Rightarrow> tline | Inr evs \<Rightarrow> tline @ evs) parts1 s1
      = (Inr (agg', tline', parts'), st')"
    using Cons.prems(1) by (simp add: p r Let_def agg1_def [symmetric] parts1)
  from Cons.IH [OF this sum1] show ?case
    using raw(2) p by (auto simp: aggregates_def timelines_def map_filter_def parts1_def split: option.splits sum.splits)
qed

lemma set_keys_map: "distinct (map fst kvs) \<Longrightarrow> map_of (set_keys kvs doc) = map_of doc ++ map_of kvs"
proof (induction kvs arbitrary: doc)
  case (Cons kv kvs)
  obtain k v where kv: "kv = (k, v)" by fastforce
  have "map_of kvs k = None" using Cons.prems by (simp add: kv map_of_eq_None_iff)
  then have "(map_of doc)(k \<mapsto> v) ++ map_of kvs = map_of doc ++ (map_of kvs)(k \<mapsto> v)"
    by (auto simp: map_add_def fun_eq_iff split: option.splits)
  moreover have "set_keys (kv # kvs) doc = set_keys kvs (AList.update k v doc)" by (simp add: kv set_keys_def)
  ultimately show ?case using Cons by (simp add: kv update_conv' del: fun_upd_apply)
qed (simp add: set_keys_def)

lemma set_keys_distinct: "distinct (map fst doc) \<Longrightarrow> distinct (map fst (set_keys kvs doc))"
  by (induction kvs arbitrary: doc) (auto simp: set_keys_def distinct_update)

lemma traits_distinct: "traits rows k = Some d \<Longrightarrow> distinct (map fst d)"
  by (auto simp: traits_def prop_part_def set_keys_distinct split: option.splits json.splits)

lemma fold_parts: "\<forall>d \<in> set ds. distinct (map fst d) \<Longrightarrow> map_of (fold set_keys (rev ds) []) = map_of (concat ds)"
  by (induction ds) (simp_all add: set_keys_map)

lemma map_filter_set: "set (List.map_filter f xs) = {y. \<exists>x \<in> set xs. f x = Some y}"
  by (auto simp: map_filter_def image_iff) force

text \<open>A detail that is returned: the keys it read and what the loop over them gave.\<close>

lemma detail_case:
  assumes "map_order ord" "PersonDetail ord ev site k st = (Inr (Some d), st')"
  obtains c al agg tline parts s2 s3 where
    "detail_loop ev True (c # al) None [] [] s2 = (Inr (agg, tline, parts), s3)" "pd_props s2 = pd_props st"
    "d = \<lparr>pd_Person = (case agg of None \<Rightarrow> empty_person c | Some p \<Rightarrow> p\<lparr>DistinctID := c\<rparr>),
       pd_Timeline = take 100 (sort_key (\<lambda>e. - pe_Timestamp e) tline),
       pd_Properties = fold set_keys parts [], pd_Aliases = al, pd_CanonicalKey = c\<rparr>"
    "rooted (alias_map (pd_aliases st)) k c"
    "set (c # al) = {a. rooted (alias_map (pd_aliases st)) a c} - set (pd_tombs st)" "distinct (c # al)" "k \<in> set (c # al)"
proof -
  obtain x s1 where x: "loadResolver ord st = (x, s1)" by fastforce
  obtain t s2 where t: "loadTombstones s1 = (t, s2)" by fastforce
  have same: "tables s1 = tables st" "tables s2 = tables st" using reads_tables(3) [OF x] reads_tables(4) [OF t] by simp_all
  obtain res where res: "x = Inr res" using assms(2) by (cases x) (auto simp: PersonDetail_def x split: if_splits)
  obtain tomb where tomb: "t = Inr tomb" using assms(2) by (cases t) (auto simp: PersonDetail_def x res t Let_def split: if_splits)
  define c where "c = Canonical res k"
  define al where "al = filter (\<lambda>m. m \<notin> set tomb) (Members res c)"
  obtain agg tline parts s3 where loop: "detail_loop ev True (c # al) None [] [] s2 = (Inr (agg, tline, parts), s3)"
    and d: "d = \<lparr>pd_Person = (case agg of None \<Rightarrow> empty_person c | Some p \<Rightarrow> p\<lparr>DistinctID := c\<rparr>),
             pd_Timeline = take 100 (sort_key (\<lambda>e. - pe_Timestamp e) tline),
             pd_Properties = fold set_keys parts [], pd_Aliases = al, pd_CanonicalKey = c\<rparr>"
    and live: "k \<notin> set tomb" "c \<notin> set tomb"
    using assms(2) unfolding PersonDetail_def x res t tomb sum.case prod.case Let_def c_def [symmetric] al_def [symmetric]
    by (auto split: if_splits prod.splits sum.splits simp del: detail_loop.simps)
  note checked = checked_facts [OF assms(1) load_resolver [OF x [unfolded res]]]
  have tombs: "set tomb = set (pd_tombs st)" using load_tombstones [OF t [unfolded tomb]] same(1) by (simp add: tables_def)
  have root: "rooted (alias_map (pd_aliases st)) k c" using checked(2,3) [of k] by (auto simp: c_def)
  have top: "rooted (alias_map (pd_aliases st)) c c" using rooted_end [OF root] by (rule rooted.here)
  have group: "set (c # al) = {a. rooted (alias_map (pd_aliases st)) a c} - set (pd_tombs st)" "distinct (c # al)" "k \<in> set (c # al)"
    using checked(4,5) [of c] top live root tombs by (auto simp: al_def)
  have "pd_props s2 = pd_props st" using same(2) by (simp add: tables_def)
  then show thesis using that loop d root group by blast
qed

text \<open>C31: The detail of a key is the detail of its person, and an erased person has none: the key resolves to the
  end of its alias chain, the aliases are the other keys of the person that were not erased, the counts
  and the seen range summarise the stored aggregates of exactly these keys, the timeline is the latest
  part of theirs, at most 100 events, newest first, and each trait is that of the canonical key where it
  has one, else that of the first alias which has one.\<close>

theorem detail_exact:
  assumes "map_order ord" "PersonDetail ord ev site k st = (Inr (Some d), st')"
  defines "keys \<equiv> pd_CanonicalKey d # pd_Aliases d"
  shows "rooted (alias_map (pd_aliases st)) k (pd_CanonicalKey d)
    \<and> set keys = {a. rooted (alias_map (pd_aliases st)) a (pd_CanonicalKey d)} - set (pd_tombs st) \<and> distinct keys
    \<and> k \<in> set keys \<and> DistinctID (pd_Person d) = pd_CanonicalKey d
    \<and> (aggregates ev keys \<noteq> [] \<longrightarrow> summary (aggregates ev keys) (pd_Person d))
    \<and> (\<exists>older. mset (pd_Timeline d @ older) = mset (timelines ev keys)
        \<and> sorted_wrt (\<lambda>e e'. pe_Timestamp e' \<le> pe_Timestamp e) (pd_Timeline d @ older)
        \<and> length (pd_Timeline d) \<le> 100 \<and> (older \<noteq> [] \<longrightarrow> length (pd_Timeline d) = 100))
    \<and> map_of (pd_Properties d) = map_of (concat (List.map_filter (traits (pd_props st)) keys))"
proof -
  from detail_case [OF assms(1,2)] obtain c al agg tline parts s2 s3 where
    loop: "detail_loop ev True (c # al) None [] [] s2 = (Inr (agg, tline, parts), s3)" "pd_props s2 = pd_props st"
    and d: "d = \<lparr>pd_Person = (case agg of None \<Rightarrow> empty_person c | Some p \<Rightarrow> p\<lparr>DistinctID := c\<rparr>),
       pd_Timeline = take 100 (sort_key (\<lambda>e. - pe_Timestamp e) tline),
       pd_Properties = fold set_keys parts [], pd_Aliases = al, pd_CanonicalKey = c\<rparr>"
    and group: "rooted (alias_map (pd_aliases st)) k c"
      "set (c # al) = {a. rooted (alias_map (pd_aliases st)) a c} - set (pd_tombs st)" "distinct (c # al)" "k \<in> set (c # al)"
    by metis
  have keys: "keys = c # al" by (simp add: keys_def d)
  have facts: "summarised (aggregates ev keys) agg" "tline = timelines ev keys"
      "parts = rev (List.map_filter (traits (pd_props st)) keys)"
    using detail_loop_facts [OF loop(1), of "[]"] unfolding keys loop(2) by (simp_all add: summarised_def del: map_filter_simps)
  have "\<exists>older. mset (pd_Timeline d @ older) = mset (timelines ev keys)
      \<and> sorted_wrt (\<lambda>e e'. pe_Timestamp e' \<le> pe_Timestamp e) (pd_Timeline d @ older)
      \<and> length (pd_Timeline d) \<le> 100 \<and> (older \<noteq> [] \<longrightarrow> length (pd_Timeline d) = 100)"
    using sorted_sort_key [of "\<lambda>e. - pe_Timestamp e" tline]
    by (intro exI [of _ "drop 100 (sort_key (\<lambda>e. - pe_Timestamp e) tline)"]) (simp add: d facts(2) sorted_wrt_map)
  moreover have "map_of (pd_Properties d) = map_of (concat (List.map_filter (traits (pd_props st)) keys))"
    using fold_parts [of "List.map_filter (traits (pd_props st)) keys"] traits_distinct
    by (auto simp: d facts(3) map_filter_set)
  moreover have "aggregates ev keys \<noteq> [] \<longrightarrow> summary (aggregates ev keys) (pd_Person d)"
    using facts(1) by (auto simp: summarised_def summary_def d split: option.splits)
  moreover have "DistinctID (pd_Person d) = c" by (simp add: d empty_person_def split: option.split)
  ultimately show ?thesis using group by (simp add: keys d del: map_filter_simps)
qed

lemma demo_detail: "PersonDetail id demo_events ''s'' ''b'' demo_site
    = (Inr (Some \<lparr>pd_Person = empty_person ''c'', pd_Timeline = [], pd_Properties = [], pd_Aliases = [''b''], pd_CanonicalKey = ''c''\<rparr>),
       demo_site)"
proof -
  have res: "loadResolver id demo_site = (Inr demo_resolver, demo_site)"
    unfolding loadResolver_def demo_reads by (simp add: demo_checked)
  show ?thesis
    unfolding PersonDetail_def res demo_reads sum.case prod.case
    by (simp add: demo_resolved MaxAliasesPerPerson_def demo_events_def GetProps_def read_call_def next_call_def
        demo_site_def latestProps_def prop_part_def Let_def)
qed

theorem detail_exact_witness:
  "\<exists>d. fst (PersonDetail id demo_events ''s'' ''b'' demo_site) = Inr (Some d)
    \<and> rooted (alias_map (pd_aliases demo_site)) ''b'' (pd_CanonicalKey d) \<and> ''b'' \<in> set (pd_CanonicalKey d # pd_Aliases d)"
  using detail_exact [OF id_order demo_detail] demo_detail by simp

end
