(* ===== verification/WriteLimit.thy ===== *)
theory WriteLimit
  imports Prelude
begin

text \<open>
  The cap on trait writes (\<^verbatim>\<open>src/internal/persons/writelimit.go\<close>): a fixed window per site and person in a
  table of bounded size.  Time is the clock's reading, which never runs backwards.
\<close>

record writeWindow =
  ww_start :: int
  ww_n :: int

record WriteLimiter =
  wl_limit :: int
  wl_window :: int
  wl_max :: nat
  wl_m :: "(string \<times> writeWindow) list"

definition NewWriteLimiter :: "int \<Rightarrow> int \<Rightarrow> WriteLimiter" where
  "NewWriteLimiter limit window = \<lparr>wl_limit = limit, wl_window = window, wl_max = 100000, wl_m = []\<rparr>"

definition write_key :: "string \<Rightarrow> string \<Rightarrow> string" where
  "write_key site key = site @ CHR 0x00 # key"

definition expire :: "int \<Rightarrow> int \<Rightarrow> (string \<times> writeWindow) list \<Rightarrow> (string \<times> writeWindow) list" where
  "expire now window m = filter (\<lambda>(k, w). now - ww_start w < window) m"

definition Allow_write :: "int \<Rightarrow> string \<Rightarrow> string \<Rightarrow> WriteLimiter \<Rightarrow> bool \<times> WriteLimiter" where
  "Allow_write now site key l =
     (let k = write_key site key; fresh = \<lparr>ww_start = now, ww_n = 1\<rparr> in
      case map_of (wl_m l) k of
        Some w \<Rightarrow>
          if now - ww_start w < wl_window l then
            (if wl_limit l \<le> ww_n w then (False, l)
             else (True, l\<lparr>wl_m := AList.update k (w\<lparr>ww_n := ww_n w + 1\<rparr>) (wl_m l)\<rparr>))
          else (True, l\<lparr>wl_m := AList.update k fresh (wl_m l)\<rparr>)
      | None \<Rightarrow>
          let m = (if wl_max l \<le> length (wl_m l) then expire now (wl_window l) (wl_m l) else wl_m l) in
          if wl_max l \<le> length m then (False, l\<lparr>wl_m := m\<rparr>)
          else (True, l\<lparr>wl_m := AList.update k fresh m\<rparr>))"

section \<open>Runs\<close>

text \<open>The limiter, the clock and the admitted writes; an operation says how much time passed before it.\<close>

type_synonym write_run = "WriteLimiter \<times> int \<times> (string \<times> int) list"

fun write_step :: "write_run \<Rightarrow> nat \<times> string \<times> string \<Rightarrow> write_run" where
  "write_step (l, now, log) (dt, site, key) =
     (let t = now + int dt in case Allow_write t site key l of
        (ok, l) \<Rightarrow> (l, t, if ok then log @ [(write_key site key, t)] else log))"

definition times :: "string \<Rightarrow> (string \<times> int) list \<Rightarrow> int list" where
  "times x log = map snd (filter (\<lambda>e. fst e = x) log)"

definition count_if :: "('a \<Rightarrow> bool) \<Rightarrow> 'a list \<Rightarrow> int" where
  "count_if P xs = int (length (filter P xs))"

lemma count_if_snoc [simp]: "count_if P (xs @ [x]) = count_if P xs + (if P x then 1 else 0)" "count_if P [] = 0"
  by (simp_all add: count_if_def)

lemma count_if_mono: "(\<And>x. x \<in> set xs \<Longrightarrow> P x \<Longrightarrow> Q x) \<Longrightarrow> count_if P xs \<le> count_if Q xs"
  by (induction xs) (auto simp: count_if_def)

lemma count_if_split: "(\<And>x. x \<in> set xs \<Longrightarrow> P x \<Longrightarrow> Q x \<or> R x) \<Longrightarrow> count_if P xs \<le> count_if Q xs + count_if R xs"
  by (induction xs) (auto simp: count_if_def)

text \<open>What one key's window says about the writes admitted for it.\<close>

definition window_ok :: "int \<Rightarrow> int \<Rightarrow> int \<Rightarrow> writeWindow option \<Rightarrow> int list \<Rightarrow> bool" where
  "window_ok M W now ow A \<longleftrightarrow> (\<forall>a \<in> set A. a \<le> now) \<and>
     (case ow of
        None \<Rightarrow> (\<forall>a \<in> set A. a < now) \<and> count_if (\<lambda>a. now - W < a) A \<le> M
      | Some w \<Rightarrow> ww_start w \<le> now \<and> (\<forall>a \<in> set A. a < ww_start w + W)
          \<and> ww_n w = count_if (\<lambda>a. ww_start w \<le> a) A \<and> ww_n w \<le> M
          \<and> count_if (\<lambda>a. ww_start w - W < a \<and> a < ww_start w) A \<le> M)"

definition spread :: "int \<Rightarrow> int \<Rightarrow> int list \<Rightarrow> bool" where
  "spread M W A \<longleftrightarrow> (\<forall>T. count_if (\<lambda>a. T \<le> a \<and> a < T + W) A \<le> 2 * M)"

lemma window_later: "window_ok M W now ow A \<Longrightarrow> now \<le> t \<Longrightarrow> window_ok M W t ow A"
proof -
  assume ok: "window_ok M W now ow A" and t: "now \<le> t"
  have "count_if (\<lambda>a. t - W < a) A \<le> count_if (\<lambda>a. now - W < a) A" using t by (intro count_if_mono) auto
  then show ?thesis using ok t by (force simp: window_ok_def split: option.splits)
qed

lemma window_expired:
  assumes "window_ok M W now (Some w) A" "W \<le> now - ww_start w"
  shows "window_ok M W now None A"
proof -
  have "count_if (\<lambda>a. now - W < a) A \<le> count_if (\<lambda>a. ww_start w \<le> a) A" using assms(2) by (intro count_if_mono) auto
  then show ?thesis using assms by (force simp: window_ok_def)
qed

lemma window_fresh:
  assumes "window_ok M W t None A" "1 \<le> M" "0 < W" "spread M W A"
  shows "window_ok M W t (Some \<lparr>ww_start = t, ww_n = 1\<rparr>) (A @ [t]) \<and> spread M W (A @ [t])"
proof -
  have "count_if (\<lambda>a. t \<le> a) A = 0" using assms(1) by (auto simp: window_ok_def count_if_def filter_empty_conv)
  moreover have "count_if (\<lambda>a. t - W < a \<and> a < t) A \<le> count_if (\<lambda>a. t - W < a) A" by (rule count_if_mono) simp
  moreover have "count_if (\<lambda>a. T \<le> a \<and> a < T + W) A \<le> count_if (\<lambda>a. t - W < a) A" if "t < T + W" for T
    using that by (intro count_if_mono) auto
  ultimately show ?thesis using assms by (force simp: window_ok_def spread_def)
qed

lemma window_next:
  assumes "window_ok M W t (Some w) A" "t - ww_start w < W" "ww_n w < M" "spread M W A"
  shows "window_ok M W t (Some (w\<lparr>ww_n := ww_n w + 1\<rparr>)) (A @ [t]) \<and> spread M W (A @ [t])"
proof -
  have "count_if (\<lambda>a. T \<le> a \<and> a < T + W) A
      \<le> count_if (\<lambda>a. ww_start w \<le> a) A + count_if (\<lambda>a. ww_start w - W < a \<and> a < ww_start w) A" if "T \<le> t" "t < T + W" for T
    using that assms(1) by (intro count_if_split) (auto simp: window_ok_def)
  then show ?thesis using assms by (fastforce simp: window_ok_def spread_def)
qed

text \<open>The invariant of a run.\<close>

definition write_inv :: "write_run \<Rightarrow> bool" where
  "write_inv s \<longleftrightarrow> (case s of (l, now, log) \<Rightarrow> 0 < wl_window l \<and> length (wl_m l) \<le> wl_max l \<and> distinct (map fst (wl_m l))
     \<and> (\<forall>x. window_ok (max 1 (wl_limit l)) (wl_window l) now (map_of (wl_m l) x) (times x log)
            \<and> spread (max 1 (wl_limit l)) (wl_window l) (times x log)))"

lemma length_update_key: "length (AList.update k v m) = (if map_of m k = None then Suc (length m) else length m)"
  by (induction m) auto

lemma map_of_expire: "distinct (map fst m) \<Longrightarrow> map_of (expire now W m) x
    = (case map_of m x of None \<Rightarrow> None | Some w \<Rightarrow> if now - ww_start w < W then Some w else None)"
proof (induction m)
  case (Cons kw m)
  obtain k w where kw: "kw = (k, w)" by fastforce
  then have "map_of m k = None" using Cons.prems by (simp add: map_of_eq_None_iff)
  then show ?case using Cons by (auto simp: expire_def kw)
qed (simp add: expire_def)

lemma expire_facts: "length (expire now W m) \<le> length m" "distinct (map fst m) \<Longrightarrow> distinct (map fst (expire now W m))"
  by (simp_all add: expire_def distinct_map_filter)

lemma times_snoc: "times x (log @ [(k, t)]) = (if k = x then times x log @ [t] else times x log)"
  by (simp add: times_def)

text \<open>Sweeping loses nothing.\<close>

lemma window_swept:
  assumes "window_ok M W t (map_of m x) A" "distinct (map fst m)"
  shows "window_ok M W t (map_of (expire t W m) x) A"
  using assms window_expired by (auto simp: map_of_expire split: option.split)

text \<open>An admitted write of one key leaves the others alone.\<close>

lemma write_put:
  assumes "\<forall>x. window_ok M W t (map_of m x) (times x log) \<and> spread M W (times x log)"
    and "window_ok M W t (Some w) (times k log @ [t]) \<and> spread M W (times k log @ [t])"
  shows "window_ok M W t (map_of (AList.update k w m) x) (times x (log @ [(k, t)])) \<and> spread M W (times x (log @ [(k, t)]))"
  using assms by (auto simp: times_snoc update_conv')

lemma write_inv_put:
  fixes l t k w log m
  defines "M \<equiv> max 1 (wl_limit l)" and "W \<equiv> wl_window l"
  assumes "0 < W" "length m \<le> wl_max l" "distinct (map fst m)" "map_of m k = None \<Longrightarrow> length m < wl_max l"
    and "\<forall>x. window_ok M W t (map_of m x) (times x log) \<and> spread M W (times x log)"
    and "window_ok M W t (Some w) (times k log @ [t]) \<and> spread M W (times k log @ [t])"
  shows "write_inv (l\<lparr>wl_m := AList.update k w m\<rparr>, t, log @ [(k, t)])"
  using assms(3-6) write_put [OF assms(7,8)] by (auto simp: write_inv_def length_update_key distinct_update M_def W_def)

lemma Allow_write_inv:
  fixes l t site key log
  defines "k \<equiv> write_key site key"
  assumes inv: "write_inv (l, t, log)"
  shows "case Allow_write t site key l of (ok, l') \<Rightarrow> write_inv (l', t, if ok then log @ [(k, t)] else log)"
proof -
  define M where "M = max 1 (wl_limit l)"
  let ?W = "wl_window l"
  have table: "0 < ?W" "length (wl_m l) \<le> wl_max l" "distinct (map fst (wl_m l))"
    and good: "\<forall>x. window_ok M ?W t (map_of (wl_m l) x) (times x log) \<and> spread M ?W (times x log)"
    using inv by (auto simp: write_inv_def M_def)
  have fresh: "window_ok M ?W t (Some \<lparr>ww_start = t, ww_n = 1\<rparr>) (times k log @ [t]) \<and> spread M ?W (times k log @ [t])"
    if "window_ok M ?W t None (times k log)"
    using window_fresh [OF that _ table(1)] good by (simp add: M_def)
  show ?thesis
  proof (cases "map_of (wl_m l) k")
    case None
    define m where "m = (if wl_max l \<le> length (wl_m l) then expire t ?W (wl_m l) else wl_m l)"
    have m: "\<forall>x. window_ok M ?W t (map_of m x) (times x log) \<and> spread M ?W (times x log)" "distinct (map fst m)"
        "length m \<le> wl_max l" "map_of m k = None"
      using good table window_swept expire_facts [where now = t and W = ?W and m = "wl_m l"] None by (auto simp: m_def map_of_expire)
    have "window_ok M ?W t None (times k log)" using m(1,4) by metis
    note put = write_inv_put [OF table(1) m(3,2) _ m(1) [unfolded M_def] fresh [OF this, unfolded M_def]]
    have "write_inv (l\<lparr>wl_m := m\<rparr>, t, log)" using m table by (simp add: write_inv_def M_def)
    then show ?thesis using put None by (simp add: Allow_write_def Let_def flip: m_def k_def)
  next
    case (Some w)
    then have w: "window_ok M ?W t (Some w) (times k log)" using good by metis
    note put = write_inv_put [OF table _ good [unfolded M_def], of k]
    consider "wl_limit l \<le> ww_n w" "t - ww_start w < ?W" | "ww_n w < wl_limit l" "t - ww_start w < ?W" | "?W \<le> t - ww_start w"
      by linarith
    then show ?thesis
    proof cases
      case 1
      then show ?thesis using Some inv by (simp add: Allow_write_def Let_def flip: k_def)
    next
      case 2
      then have "window_ok M ?W t (Some (w\<lparr>ww_n := ww_n w + 1\<rparr>)) (times k log @ [t]) \<and> spread M ?W (times k log @ [t])"
        using window_next [OF w] good by (simp add: M_def)
      then show ?thesis using put Some 2 by (simp add: Allow_write_def Let_def M_def flip: k_def)
    next
      case 3
      then show ?thesis using put fresh [OF window_expired [OF w]] Some
        by (simp add: Allow_write_def Let_def M_def flip: k_def)
    qed
  qed
qed

interpretation writes: invariant_machine write_step write_inv
proof
  fix s :: write_run and op :: "nat \<times> string \<times> string"
  assume inv: "write_inv s"
  obtain l now log where s: "s = (l, now, log)" by (cases s) auto
  obtain dt site key where op: "op = (dt, site, key)" by (cases op) auto
  have "write_inv (l, now + int dt, log)" using inv window_later [of _ _ now] by (auto simp: write_inv_def s)
  from Allow_write_inv [OF this, of site key] show "write_inv (write_step s op)"
    by (auto simp: s op Let_def split: prod.splits)
qed

lemma write_params: "case run_ops write_step (l, now, log) ops of (l', _) \<Rightarrow>
    wl_limit l' = wl_limit l \<and> wl_window l' = wl_window l \<and> wl_max l' = wl_max l"
proof (induction ops arbitrary: l now log)
  case (Cons op ops)
  obtain dt site key where op: "op = (dt, site, key)" by (cases op) auto
  obtain ok l1 where a: "Allow_write (now + int dt) site key l = (ok, l1)" by fastforce
  then have "wl_limit l1 = wl_limit l \<and> wl_window l1 = wl_window l \<and> wl_max l1 = wl_max l"
    by (auto simp: Allow_write_def Let_def split: option.splits if_splits)
  then show ?case using Cons [of l1] by (simp add: op a Let_def split: prod.splits)
qed simp

text \<open>C33: Whatever writes are asked for and whenever, a person is let through at most twice the limit within any
  stretch of time as long as the window, wherever that stretch begins, also when the table overflows and
  is swept; and the table never holds more than its 100000 entries.\<close>

theorem write_rate_bounded:
  assumes "0 < window"
  shows "case run_ops write_step (NewWriteLimiter limit window, start, []) ops of (l, now, log) \<Rightarrow>
    length (wl_m l) \<le> 100000
    \<and> count_if (\<lambda>(x, t). x = write_key site key \<and> T \<le> t \<and> t < T + window) log \<le> 2 * max 1 limit"
proof -
  obtain l now log where run: "run_ops write_step (NewWriteLimiter limit window, start, []) ops = (l, now, log)"
    by (cases "run_ops write_step (NewWriteLimiter limit window, start, []) ops")
  have "write_inv (NewWriteLimiter limit window, start, [])"
    using assms by (auto simp: write_inv_def NewWriteLimiter_def window_ok_def spread_def times_def)
  then have inv: "write_inv (l, now, log)" using writes.run_inv run by metis
  have params: "wl_limit l = limit" "wl_window l = window" "wl_max l = 100000"
    using write_params [of "NewWriteLimiter limit window" start "[]" ops] by (simp_all only: run prod.case) (simp_all add: NewWriteLimiter_def)
  have "count_if (\<lambda>(x, t). x = k \<and> T \<le> t \<and> t < T + window) log
      = count_if (\<lambda>t. T \<le> t \<and> t < T + window) (times k log)" for k
    by (induction log) (auto simp: times_def count_if_def)
  then show ?thesis using inv params by (simp add: run write_inv_def spread_def)
qed

theorem write_rate_bounded_witness:
  "case run_ops write_step (NewWriteLimiter 2 10, 0, []) [(0, ''s'', ''k''), (1, ''s'', ''k''), (1, ''s'', ''k''), (8, ''s'', ''k'')] of
     (l, now, log) \<Rightarrow> log = [(write_key ''s'' ''k'', 0), (write_key ''s'' ''k'', 1), (write_key ''s'' ''k'', 10)]
       \<and> count_if (\<lambda>(x, t). x = write_key ''s'' ''k'' \<and> 1 \<le> t \<and> t < 1 + 10) log \<le> 2 * max 1 2"
proof -
  let ?ops = "[(0, ''s'', ''k''), (1, ''s'', ''k''), (1, ''s'', ''k''), (8, ''s'', ''k'')]"
  have "snd (snd (run_ops write_step (NewWriteLimiter 2 10, 0, []) ?ops))
      = [(write_key ''s'' ''k'', 0), (write_key ''s'' ''k'', 1), (write_key ''s'' ''k'', 10)]"
    by (simp add: NewWriteLimiter_def Allow_write_def write_key_def)
  then show ?thesis
    using write_rate_bounded [where window = 10 and limit = 2 and start = 0 and ops = ?ops and site = "''s''" and key = "''k''" and T = 1] by (auto split: prod.splits)
qed

end
