(* ===== verification/SvcToken.thy ===== *)
theory SvcToken
  imports AuditKeys "HOL-Library.List_Lexorder" "HOL-Library.Char_ord"
begin

text \<open>
  Scoped service tokens (\<^verbatim>\<open>src/internal/svctoken/svctoken.go\<close>): minting, verification with its last-used
  writes and pruning, and revocation, over a table to which rows are only appended (and pruned).  Every
  call to the database may fail, or be done with the answer lost; a clock reading lasts for one handler.
\<close>

section \<open>Scopes and labels\<close>

definition Prefix :: string where "Prefix = ''obs_svc_''"

definition validScopes :: "string list" where
  "validScopes = [''sites:create'', ''keys:mint'', ''share:mint'', ''webhooks:write'', ''alerts:read'']"

datatype token_error =
  TokenInvalid | TokenUnavailable | TokenNotFound | TokenRequest | TokenRandom | TokenStore | TokenUnconfirmed

fun scopes_loop :: "string list \<Rightarrow> string list \<Rightarrow> token_error + string list" where
  "scopes_loop [] out = Inr out"
| "scopes_loop (s # ss) out =
     (if s \<notin> set validScopes then Inl TokenRequest
      else scopes_loop ss (if s \<in> set out then out else out @ [s]))"

definition NormalizeScopes :: "string list \<Rightarrow> token_error + string list" where
  "NormalizeScopes requested = (case scopes_loop requested [] of Inl e \<Rightarrow> Inl e
     | Inr out \<Rightarrow> if out = [] then Inl TokenRequest else Inr (sort out))"

definition maxLabelLen :: nat where "maxLabelLen = 128"

text \<open>\<^verbatim>\<open>unicode.IsControl\<close> on UTF-8: the bytes below 32, 127, and the runes 128 to 159 in two bytes.\<close>

fun has_control :: "string \<Rightarrow> bool" where
  "has_control [] \<longleftrightarrow> False"
| "has_control (c # cs) \<longleftrightarrow> (let n = of_char c :: nat in n < 32 \<or> n = 127
     \<or> n = 194 \<and> (case cs of [] \<Rightarrow> False | d # _ \<Rightarrow> 128 \<le> (of_char d :: nat) \<and> (of_char d :: nat) < 160))
     \<or> has_control cs"

definition cleanLabel :: "string \<Rightarrow> token_error + string" where
  "cleanLabel v = (let v = TrimSpace v in
     if v = [] then Inl TokenRequest
     else if maxLabelLen < length v then Inl TokenRequest
     else if has_control v then Inl TokenRequest else Inr v)"

section \<open>The token text\<close>

definition secretEncodedLen :: nat where "secretEncodedLen = 43"

definition url_char :: "char \<Rightarrow> char" where
  "url_char c = (if c = CHR ''+'' then CHR ''-'' else if c = CHR ''/'' then CHR ''_'' else c)"

text \<open>\<^verbatim>\<open>base64.RawURLEncoding\<close>: no padding; a decoder skips line breaks.\<close>

definition RawURLEncode :: "bytes \<Rightarrow> string" where
  "RawURLEncode bs = map url_char (filter (\<lambda>c. c \<noteq> b64_pad) (b64_encode bs))"

definition is_url64 :: "char \<Rightarrow> bool" where
  "is_url64 c \<longleftrightarrow> c = CHR ''-'' \<or> c = CHR ''_'' \<or> c \<noteq> CHR ''+'' \<and> c \<noteq> CHR ''/'' \<and> b64_val c \<noteq> None"

definition RawURLDecodes :: "string \<Rightarrow> bool" where
  "RawURLDecodes s = (let s = filter (\<lambda>c. c \<noteq> nl \<and> c \<noteq> cr) s in list_all is_url64 s \<and> length s mod 4 \<noteq> 1)"

definition ValidFormat :: "string \<Rightarrow> bool" where
  "ValidFormat v = (take (length Prefix) v = Prefix
     \<and> (let secret = drop (length Prefix) v in length secret = secretEncodedLen \<and> RawURLDecodes secret))"

definition hashToken :: "string \<Rightarrow> string" where
  "hashToken plaintext = EncodeToString (Sum256 plaintext)"

section \<open>The table\<close>

record Token =
  tk_ID :: string
  tk_Name :: string
  tk_ManagedBy :: string
  tk_Scopes :: "string list"
  tk_CreatedBy :: string
  tk_CreatedAt :: int
  LastUsedAt :: int
  RevokedAt :: int
  tk_hash :: string
  tk_updatedAt :: int

record tokenRow =
  tr_ID :: string
  tr_Name :: string
  tr_ManagedBy :: string
  tr_Hash :: string
  tr_Scopes :: string
  tr_CreatedBy :: string
  tr_CreatedAt :: int
  tr_LastUsedAt :: int
  tr_RevokedAt :: int
  tr_UpdatedAt :: int

record Store =
  st_rows :: "tokenRow list"
  stamped :: "string \<Rightarrow> int"
  usedInterval :: int
  st_io :: "insert_outcome list"
  st_now :: int

definition NewStore :: "insert_outcome list \<Rightarrow> int \<Rightarrow> Store" where
  "NewStore io now = \<lparr>st_rows = [], stamped = (\<lambda>_. 0), usedInterval = 3600000, st_io = io, st_now = now\<rparr>"

definition next_answer :: "Store \<Rightarrow> insert_outcome \<times> Store" where
  "next_answer st = (case st_io st of [] \<Rightarrow> (Inserted, st) | x # xs \<Rightarrow> (x, st\<lparr>st_io := xs\<rparr>))"

definition Has :: "Token \<Rightarrow> string \<Rightarrow> bool" where
  "Has t scope = list_ex (\<lambda>s. s = scope) (tk_Scopes t)"

definition Revoked :: "Token \<Rightarrow> bool" where "Revoked t \<longleftrightarrow> 0 < RevokedAt t"

fun Join :: "string list \<Rightarrow> string" where
  "Join [] = []"
| "Join [s] = s"
| "Join (s # ss) = s @ CHR '','' # Join ss"

definition row_of :: "Token \<Rightarrow> int \<Rightarrow> tokenRow" where
  "row_of t version = \<lparr>tr_ID = tk_ID t, tr_Name = tk_Name t, tr_ManagedBy = tk_ManagedBy t, tr_Hash = tk_hash t,
     tr_Scopes = Join (tk_Scopes t), tr_CreatedBy = tk_CreatedBy t, tr_CreatedAt = tk_CreatedAt t,
     tr_LastUsedAt = LastUsedAt t, tr_RevokedAt = RevokedAt t, tr_UpdatedAt = version\<rparr>"

definition nextUpdatedAt :: "int \<Rightarrow> int \<Rightarrow> int" where
  "nextUpdatedAt prior now = (if now < prior + 1 then prior + 1 else now)"

definition write_token :: "Token \<Rightarrow> int \<Rightarrow> int \<Rightarrow> Store \<Rightarrow> token_error option \<times> Store" where
  "write_token t prior now st = (case next_answer st of (out, st) \<Rightarrow>
     (case insert_row out (row_of t (nextUpdatedAt prior now)) (st_rows st) of
        (ok, rows) \<Rightarrow> (if ok then None else Some TokenUnavailable, st\<lparr>st_rows := rows\<rparr>)))"

text \<open>The rows of one token as the query collapses them: the latest values, but any revocation.\<close>

definition collapse_rows :: "tokenRow list \<Rightarrow> Token list" where
  "collapse_rows rows = (case max_row tr_UpdatedAt rows of None \<Rightarrow> []
     | Some r \<Rightarrow> [\<lparr>tk_ID = tr_ID r, tk_Name = tr_Name r, tk_ManagedBy = tr_ManagedBy r,
         tk_Scopes = Split (CHR '','') (tr_Scopes r), tk_CreatedBy = tr_CreatedBy r, tk_CreatedAt = tr_CreatedAt r,
         LastUsedAt = tr_LastUsedAt r, RevokedAt = fold max (map tr_RevokedAt rows) (tr_RevokedAt r),
         tk_hash = tr_Hash r, tk_updatedAt = tr_UpdatedAt r\<rparr>])"

definition tokens_where :: "(tokenRow \<Rightarrow> bool) \<Rightarrow> tokenRow list \<Rightarrow> Token list" where
  "tokens_where P rows = concat (map (\<lambda>k. collapse_rows (filter (\<lambda>r. P r \<and> tr_ID r = k) rows))
     (remdups (map tr_ID (filter P rows))))"

definition read_tokens :: "(tokenRow \<Rightarrow> bool) \<Rightarrow> Store \<Rightarrow> (token_error + Token list) \<times> Store" where
  "read_tokens P st = (case next_answer st of (out, st) \<Rightarrow>
     (if out = Inserted then Inr (tokens_where P (st_rows st)) else Inl TokenStore, st))"

section \<open>The operations\<close>

text \<open>The two random draws are arguments; \<open>None\<close> is a failing source.\<close>

definition mint :: "string \<Rightarrow> string \<Rightarrow> string \<Rightarrow> string list \<Rightarrow> bytes \<Rightarrow> bytes \<Rightarrow> int \<Rightarrow> token_error + (string \<times> Token)" where
  "mint name managedBy createdBy scopes secret ident now =
     (case cleanLabel name of Inl e \<Rightarrow> Inl e | Inr name \<Rightarrow>
      case cleanLabel (if TrimSpace managedBy = [] then name else managedBy) of Inl e \<Rightarrow> Inl e | Inr managedBy \<Rightarrow>
      if TrimSpace createdBy = [] then Inl TokenRequest else
      case NormalizeScopes scopes of Inl e \<Rightarrow> Inl e | Inr normalized \<Rightarrow>
      let plaintext = Prefix @ RawURLEncode secret in
      Inr (plaintext, \<lparr>tk_ID = EncodeToString (map of_char ident), tk_Name = name, tk_ManagedBy = managedBy,
        tk_Scopes = normalized, tk_CreatedBy = TrimSpace createdBy, tk_CreatedAt = now, LastUsedAt = 0, RevokedAt = 0,
        tk_hash = hashToken plaintext, tk_updatedAt = 0\<rparr>))"

definition CreateToken :: "string \<Rightarrow> string \<Rightarrow> string \<Rightarrow> string list \<Rightarrow> (bytes \<times> bytes) option \<Rightarrow> Store
    \<Rightarrow> (token_error + (string \<times> Token)) \<times> Store" where
  "CreateToken name managedBy createdBy scopes rnd st =
     (case mint name managedBy createdBy scopes (case rnd of None \<Rightarrow> [] | Some (s, _) \<Rightarrow> s)
         (case rnd of None \<Rightarrow> [] | Some (_, i) \<Rightarrow> i) (st_now st) of
        Inl e \<Rightarrow> (Inl e, st)
      | Inr (plaintext, t) \<Rightarrow>
          if rnd = None then (Inl TokenRandom, st)
          else (case write_token t 0 (st_now st) st of (Some e, st) \<Rightarrow> (Inl e, st) | (None, st) \<Rightarrow> (Inr (plaintext, t), st)))"

definition ListTokens :: "Store \<Rightarrow> (token_error + Token list) \<times> Store" where
  "ListTokens st = (case read_tokens (\<lambda>_. True) st of (Inl e, st) \<Rightarrow> (Inl e, st)
     | (Inr rows, st) \<Rightarrow> (Inr (sort_key tk_CreatedAt (sort_key tk_ID rows)), st))"

definition Revoke :: "string \<Rightarrow> Store \<Rightarrow> token_error option \<times> Store" where
  "Revoke ident st =
     (case read_tokens (\<lambda>r. tr_ID r = ident) st of (Inl e, st) \<Rightarrow> (Some e, st)
      | (Inr [], st) \<Rightarrow> (Some TokenNotFound, st)
      | (Inr (t # _), st) \<Rightarrow>
          if Revoked t then (None, st)
          else (case write_token (t\<lparr>RevokedAt := st_now st\<rparr>) (tk_updatedAt t) (st_now st) st of
              (Some e, st) \<Rightarrow> (Some e, st)
            | (None, st) \<Rightarrow> (case read_tokens (\<lambda>r. tr_ID r = ident) st of (Inl e, st) \<Rightarrow> (Some e, st)
                | (Inr [], st) \<Rightarrow> (Some TokenUnconfirmed, st)
                | (Inr (after # _), st) \<Rightarrow> (if Revoked after then None else Some TokenUnconfirmed, st))))"

fun revoke_each :: "Token list \<Rightarrow> nat \<Rightarrow> Store \<Rightarrow> (nat \<times> token_error option) \<times> Store" where
  "revoke_each [] n st = ((n, None), st)"
| "revoke_each (t # ts) n st =
     (if Revoked t then revoke_each ts n st
      else case Revoke (tk_ID t) st of (Some e, st) \<Rightarrow> ((n, Some e), st) | (None, st) \<Rightarrow> revoke_each ts (n + 1) st)"

definition RevokeAll :: "Store \<Rightarrow> (nat \<times> token_error option) \<times> Store" where
  "RevokeAll st = (case read_tokens (\<lambda>_. True) st of (Inl e, st) \<Rightarrow> ((0, Some e), st) | (Inr rows, st) \<Rightarrow> revoke_each rows 0 st)"

text \<open>The parts of \<^verbatim>\<open>noteUsed\<close>: the throttle with its critical section, the write, and the prune.\<close>

definition note_due :: "Token \<Rightarrow> Store \<Rightarrow> bool \<times> Store" where
  "note_due tok st =
     (let now = st_now st; interval = usedInterval st in
      if now - LastUsedAt tok < interval \<and> 0 < interval then (False, st)
      else let due = (interval = 0 \<or> interval \<le> now - stamped st (tk_ID tok)) in
        (due, if due then st\<lparr>stamped := (stamped st)(tk_ID tok := now)\<rparr> else st))"

definition note_write :: "Token \<Rightarrow> int \<Rightarrow> Store \<Rightarrow> token_error option \<times> Store" where
  "note_write tok now st = write_token (tok\<lparr>LastUsedAt := now\<rparr>) (tk_updatedAt tok) now st"

definition prunable :: "string \<Rightarrow> int \<Rightarrow> tokenRow \<Rightarrow> bool" where
  "prunable ident version r \<longleftrightarrow> tr_ID r = ident \<and> tr_RevokedAt r = 0 \<and> tr_UpdatedAt r < version"

definition note_prune :: "string \<Rightarrow> int \<Rightarrow> Store \<Rightarrow> Store" where
  "note_prune ident version st = (case next_answer st of (out, st) \<Rightarrow>
     (if out = NotInserted then st else st\<lparr>st_rows := filter (\<lambda>r. \<not> prunable ident version r) (st_rows st)\<rparr>))"

definition noteUsed :: "Token \<Rightarrow> Store \<Rightarrow> Token \<times> Store" where
  "noteUsed tok st =
     (case note_due tok st of (False, st) \<Rightarrow> (tok, st)
      | (True, st) \<Rightarrow> (case note_write tok (st_now st) st of (Some _, st) \<Rightarrow> (tok, st)
          | (None, st) \<Rightarrow> (tok\<lparr>LastUsedAt := st_now st\<rparr>,
              note_prune (tk_ID tok) (nextUpdatedAt (tk_updatedAt tok) (st_now st)) st)))"

fun match_token :: "Token list \<Rightarrow> string \<Rightarrow> Token option" where
  "match_token [] plaintext = None"
| "match_token (t # ts) plaintext =
     (if tk_hash t \<noteq> hashToken plaintext then match_token ts plaintext
      else if Revoked t then None else Some t)"

text \<open>\<^verbatim>\<open>Verify\<close> up to \<^verbatim>\<open>noteUsed\<close>, and as a whole.\<close>

definition verify_read :: "string \<Rightarrow> Store \<Rightarrow> (token_error + Token) \<times> Store" where
  "verify_read plaintext st =
     (if \<not> ValidFormat plaintext then (Inl TokenInvalid, st)
      else case read_tokens (\<lambda>r. tr_Hash r = hashToken plaintext) st of (Inl _, st) \<Rightarrow> (Inl TokenUnavailable, st)
      | (Inr rows, st) \<Rightarrow> (case match_token rows plaintext of None \<Rightarrow> (Inl TokenInvalid, st) | Some tok \<Rightarrow> (Inr tok, st)))"

definition VerifyToken :: "string \<Rightarrow> Store \<Rightarrow> (token_error + Token) \<times> Store" where
  "VerifyToken plaintext st =
     (case verify_read plaintext st of (Inl e, st) \<Rightarrow> (Inl e, st)
      | (Inr tok, st) \<Rightarrow> (case noteUsed tok st of (tok, st) \<Rightarrow> (Inr tok, st)))"

end
