(* ===== verification/SvcTokenProps.thy ===== *)
theory SvcTokenProps
  imports SvcToken AuditKeysProps
begin

text \<open>
  What service tokens (\<^verbatim>\<open>src/internal/svctoken\<close>) guarantee while verifications, their last-used writes and
  prunes, and revocations interleave: a verified token is one that was minted and not revoked, a
  confirmed revocation is final, and a token that was not revoked keeps working.
\<close>

section \<open>Scopes and texts\<close>

lemma scopes_loop_facts:
  "scopes_loop ss out = Inr out' \<Longrightarrow> distinct out \<Longrightarrow> set out \<subseteq> set validScopes
    \<Longrightarrow> distinct out' \<and> set out' = set out \<union> set ss \<and> set out' \<subseteq> set validScopes"
  by (induction ss out rule: scopes_loop.induct) (auto split: if_splits)

lemma NormalizeScopes_facts:
  assumes "NormalizeScopes ss = Inr out"
  shows "out \<noteq> []" "set out = set ss" "set out \<subseteq> set validScopes" "distinct out" "sorted out"
proof -
  obtain out0 where "scopes_loop ss [] = Inr out0" "out0 \<noteq> []" "out = sort out0"
    using assms by (auto simp: NormalizeScopes_def split: sum.splits if_splits)
  then show "out \<noteq> []" "set out = set ss" "set out \<subseteq> set validScopes" "distinct out" "sorted out"
    using scopes_loop_facts [of ss "[]" out0] by (auto simp: sorted_sort) (metis set_empty set_sort)+
qed

lemma Split_append: "CHR '','' \<notin> set s \<Longrightarrow> Split (CHR '','') (s @ CHR '','' # r) = s # Split (CHR '','') r"
  by (induction s) auto

lemma Split_Join: "ss \<noteq> [] \<Longrightarrow> \<forall>s \<in> set ss. CHR '','' \<notin> set s \<Longrightarrow> Split (CHR '','') (Join ss) = ss"
  by (induction ss rule: Join.induct) (auto simp: Split_append split_plain)

lemma valid_no_comma: "set ss \<subseteq> set validScopes \<Longrightarrow> \<forall>s \<in> set ss. CHR '','' \<notin> set s"
  by (auto simp: validScopes_def)

text \<open>A minted text has the shape that \<^verbatim>\<open>ValidFormat\<close> asks for.\<close>

lemma b64_chars: "c \<in> set (b64_encode bs) \<Longrightarrow> c = b64_pad \<or> b64_val c \<noteq> None"
  by (induction bs rule: b64_encode.induct) (auto simp: Let_def b64_val_char char_parts sextet_bounds)

lemma b64_not_pad: "n < 64 \<Longrightarrow> b64_char n \<noteq> b64_pad"
  using b64_val_char [of n] b64_pad_val by fastforce

lemma b64_length: "length (filter (\<lambda>c. c \<noteq> b64_pad) (b64_encode bs)) = (4 * length bs + 2) div 3"
proof (induction bs rule: b64_encode.induct)
  case (4 a b c r)
  then have "length (filter (\<lambda>c. c \<noteq> b64_pad) (b64_encode (a # b # c # r))) = 4 + (4 * length r + 2) div 3"
    by (simp add: Let_def b64_not_pad char_parts sextet_bounds)
  also have "\<dots> = (4 * length (a # b # c # r) + 2) div 3" by simp
  finally show ?case .
qed (simp_all add: Let_def b64_not_pad char_parts sextet_bounds)

lemma url_char_ok: "b64_val c \<noteq> None \<Longrightarrow> is_url64 (url_char c) \<and> url_char c \<noteq> nl \<and> url_char c \<noteq> cr"
  by (auto simp: is_url64_def url_char_def b64_val_def)

lemma minted_format: "length secret = 32 \<Longrightarrow> ValidFormat (Prefix @ RawURLEncode secret)"
proof -
  assume len: "length secret = 32"
  have "length (RawURLEncode secret) = 43" using b64_length [of secret] len by (simp add: RawURLEncode_def)
  moreover have "is_url64 c \<and> c \<noteq> nl \<and> c \<noteq> cr" if c: "c \<in> set (RawURLEncode secret)" for c
  proof -
    obtain x where "c = url_char x" "x \<in> set (b64_encode secret)" "x \<noteq> b64_pad" using c by (auto simp: RawURLEncode_def)
    then show ?thesis using url_char_ok [of x] b64_chars [of x secret] by simp
  qed
  then have "filter (\<lambda>c. c \<noteq> nl \<and> c \<noteq> cr) (RawURLEncode secret) = RawURLEncode secret"
      "list_all is_url64 (RawURLEncode secret)"
    by (auto simp: filter_id_conv list_all_iff)
  ultimately show ?thesis by (simp add: ValidFormat_def RawURLDecodes_def secretEncodedLen_def)
qed

section \<open>What a read returns\<close>

text \<open>The part of a token that its creation fixes.\<close>

definition grants :: "Token \<Rightarrow> Token \<Rightarrow> bool" where
  "grants t tok \<longleftrightarrow> tk_ID tok = tk_ID t \<and> tk_Name tok = tk_Name t \<and> tk_ManagedBy tok = tk_ManagedBy t
     \<and> tk_Scopes tok = tk_Scopes t \<and> tk_CreatedBy tok = tk_CreatedBy t \<and> tk_CreatedAt tok = tk_CreatedAt t
     \<and> tk_hash tok = tk_hash t"

definition row_grants :: "Token \<Rightarrow> tokenRow \<Rightarrow> bool" where
  "row_grants t r \<longleftrightarrow> tr_ID r = tk_ID t \<and> tr_Name r = tk_Name t \<and> tr_ManagedBy r = tk_ManagedBy t
     \<and> tr_Scopes r = Join (tk_Scopes t) \<and> tr_CreatedBy r = tk_CreatedBy t \<and> tr_CreatedAt r = tk_CreatedAt t
     \<and> tr_Hash r = tk_hash t"

lemma row_of_grants: "grants t tok \<Longrightarrow> row_grants t (row_of tok v)"
  by (simp add: grants_def row_grants_def row_of_def)

lemma grants_update [simp]: "grants t (tok\<lparr>LastUsedAt := u\<rparr>) = grants t tok" "grants t (tok\<lparr>RevokedAt := u\<rparr>) = grants t tok"
    "grants t t"
  by (simp_all add: grants_def)

lemma fold_max_pos: "(0 :: int) < fold max xs a \<longleftrightarrow> 0 < a \<or> (\<exists>x \<in> set xs. 0 < x)"
  by (induction xs arbitrary: a) (auto simp: max_def)

lemma collapse_cases:
  assumes "t \<in> set (collapse_rows rows)"
  shows "\<exists>r \<in> set rows. tk_ID t = tr_ID r \<and> tk_Name t = tr_Name r \<and> tk_ManagedBy t = tr_ManagedBy r
      \<and> tk_Scopes t = Split (CHR '','') (tr_Scopes r) \<and> tk_CreatedBy t = tr_CreatedBy r \<and> tk_CreatedAt t = tr_CreatedAt r
      \<and> tk_hash t = tr_Hash r"
    "Revoked t \<longleftrightarrow> (\<exists>r \<in> set rows. 0 < tr_RevokedAt r)"
proof -
  obtain r where "max_row tr_UpdatedAt rows = Some r" using assms by (cases "max_row tr_UpdatedAt rows") (simp_all add: collapse_rows_def)
  then have r: "r \<in> set rows" and t: "t \<in> set (collapse_rows rows) \<longleftrightarrow> t = hd (collapse_rows rows)"
      "collapse_rows rows \<noteq> []" "max_row tr_UpdatedAt rows = Some r"
    using max_row_facts(2) [of tr_UpdatedAt rows r] by (auto simp: collapse_rows_def)
  show "\<exists>r \<in> set rows. tk_ID t = tr_ID r \<and> tk_Name t = tr_Name r \<and> tk_ManagedBy t = tr_ManagedBy r
      \<and> tk_Scopes t = Split (CHR '','') (tr_Scopes r) \<and> tk_CreatedBy t = tr_CreatedBy r \<and> tk_CreatedAt t = tr_CreatedAt r
      \<and> tk_hash t = tr_Hash r"
    by (rule bexI [OF _ r]) (use assms t in \<open>simp add: collapse_rows_def\<close>)
  show "Revoked t \<longleftrightarrow> (\<exists>r \<in> set rows. 0 < tr_RevokedAt r)"
    using assms t r by (auto simp: collapse_rows_def Revoked_def fold_max_pos)
qed

lemma tokens_where_ID: "t \<in> set (tokens_where P rows) \<longleftrightarrow> t \<in> set (collapse_rows (filter (\<lambda>r. P r \<and> tr_ID r = tk_ID t) rows))"
proof
  assume "t \<in> set (tokens_where P rows)"
  then obtain k where k: "t \<in> set (collapse_rows (filter (\<lambda>r. P r \<and> tr_ID r = k) rows))" by (auto simp: tokens_where_def)
  then have "tk_ID t = k" using collapse_cases(1) by fastforce
  then show "t \<in> set (collapse_rows (filter (\<lambda>r. P r \<and> tr_ID r = tk_ID t) rows))" using k by simp
next
  assume t: "t \<in> set (collapse_rows (filter (\<lambda>r. P r \<and> tr_ID r = tk_ID t) rows))"
  then have "tk_ID t \<in> tr_ID ` set (filter P rows)" using collapse_cases(1) [OF t] by force
  then show "t \<in> set (tokens_where P rows)" using t by (auto simp: tokens_where_def)
qed

lemma tokens_where_some: "r \<in> set rows \<Longrightarrow> P r \<Longrightarrow> \<exists>t \<in> set (tokens_where P rows). tk_ID t = tr_ID r"
proof -
  assume r: "r \<in> set rows" "P r"
  let ?rows = "filter (\<lambda>q. P q \<and> tr_ID q = tr_ID r) rows"
  have "?rows \<noteq> []" using r by (auto simp: filter_empty_conv)
  then obtain t where t: "t \<in> set (collapse_rows ?rows)"
    using max_row_facts(1) [of tr_UpdatedAt ?rows] by (auto simp: collapse_rows_def split: option.split)
  then have "tk_ID t = tr_ID r" using collapse_cases(1) by fastforce
  then show ?thesis using t tokens_where_ID [of t P rows] by auto
qed

section \<open>Runs\<close>

text \<open>
  The tasks in flight are verifications between their read and the write, between the write and the
  prune, and revocations between read and write.  \<open>minted\<close> records every token whose row was stored.
\<close>

datatype svc_task = Noting Token | Writing Token int | Pruning string int | Revoking Token int

record svc_run =
  sv_store :: Store
  sv_tasks :: "svc_task list"
  minted :: "(string \<times> Token) list"

inductive svc_step :: "svc_run \<Rightarrow> svc_run \<Rightarrow> bool" where
  outside: "svc_step s (s\<lparr>sv_store := (sv_store s)\<lparr>st_io := io, st_now := now\<rparr>\<rparr>)"
| create: "CreateToken name managedBy createdBy scopes (Some (secret, ident)) (sv_store s) = (x, st')
    \<Longrightarrow> mint name managedBy createdBy scopes secret ident (st_now (sv_store s)) = Inr (p, t)
    \<Longrightarrow> length secret = 32 \<Longrightarrow> tk_ID t \<notin> (tk_ID \<circ> snd) ` set (minted s)
    \<Longrightarrow> svc_step s (s\<lparr>sv_store := st', minted := minted s @ (if st_rows st' = st_rows (sv_store s) then [] else [(p, t)])\<rparr>)"
| verify: "verify_read p (sv_store s) = (Inr tok, st')
    \<Longrightarrow> svc_step s (s\<lparr>sv_store := st', sv_tasks := sv_tasks s @ [Noting tok]\<rparr>)"
| due: "sv_tasks s = xs @ Noting tok # ys \<Longrightarrow> note_due tok (sv_store s) = (True, st')
    \<Longrightarrow> svc_step s (s\<lparr>sv_store := st', sv_tasks := xs @ Writing tok (st_now st') # ys\<rparr>)"
| used: "sv_tasks s = xs @ Writing tok now # ys \<Longrightarrow> note_write tok now (sv_store s) = (e, st')
    \<Longrightarrow> svc_step s (s\<lparr>sv_store := st', sv_tasks := xs @ (if e = None
          then [Pruning (tk_ID tok) (nextUpdatedAt (tk_updatedAt tok) now)] else []) @ ys\<rparr>)"
| prune: "sv_tasks s = xs @ Pruning k v # ys
    \<Longrightarrow> svc_step s (s\<lparr>sv_store := note_prune k v (sv_store s), sv_tasks := xs @ ys\<rparr>)"
| revoke_read: "read_tokens (\<lambda>r. tr_ID r = k) (sv_store s) = (Inr (t # ts), st') \<Longrightarrow> \<not> Revoked t
    \<Longrightarrow> svc_step s (s\<lparr>sv_store := st', sv_tasks := sv_tasks s @ [Revoking t (st_now st')]\<rparr>)"
| revoke_write: "sv_tasks s = xs @ Revoking t now # ys
    \<Longrightarrow> write_token (t\<lparr>RevokedAt := now\<rparr>) (tk_updatedAt t) now (sv_store s) = (e, st')
    \<Longrightarrow> svc_step s (s\<lparr>sv_store := st', sv_tasks := xs @ ys\<rparr>)"

definition svc_start :: "insert_outcome list \<Rightarrow> int \<Rightarrow> svc_run" where
  "svc_start io now = \<lparr>sv_store = NewStore io now, sv_tasks = [], minted = []\<rparr>"

definition svc_reach :: "svc_run \<Rightarrow> bool" where
  "svc_reach s \<longleftrightarrow> (\<exists>io now. svc_step\<^sup>*\<^sup>* (svc_start io now) s)"

section \<open>The invariant\<close>

definition minted_ok :: "string \<Rightarrow> Token \<Rightarrow> bool" where
  "minted_ok p t \<longleftrightarrow> ValidFormat p \<and> tk_hash t = hashToken p \<and> tk_Scopes t \<noteq> [] \<and> set (tk_Scopes t) \<subseteq> set validScopes
     \<and> tk_CreatedBy t \<noteq> []"

definition known :: "(string \<times> Token) list \<Rightarrow> Token \<Rightarrow> bool" where
  "known mt tok \<longleftrightarrow> (\<exists>(p, t) \<in> set mt. grants t tok)"

definition rows_ok :: "tokenRow list \<Rightarrow> (string \<times> Token) list \<Rightarrow> bool" where
  "rows_ok rows mt \<longleftrightarrow> (\<forall>r \<in> set rows. \<exists>(p, t) \<in> set mt. row_grants t r)
     \<and> (\<forall>(p, t) \<in> set mt. minted_ok p t \<and> (\<exists>r \<in> set rows. tr_ID r = tk_ID t))
     \<and> distinct (map (tk_ID \<circ> snd) mt)"

fun task_ok :: "tokenRow list \<Rightarrow> (string \<times> Token) list \<Rightarrow> svc_task \<Rightarrow> bool" where
  "task_ok rows mt (Noting tok) = known mt tok"
| "task_ok rows mt (Writing tok now) = known mt tok"
| "task_ok rows mt (Pruning k v) = (\<exists>r \<in> set rows. tr_ID r = k \<and> v \<le> tr_UpdatedAt r)"
| "task_ok rows mt (Revoking tok now) = known mt tok"

definition svc_inv :: "svc_run \<Rightarrow> bool" where
  "svc_inv s \<longleftrightarrow> rows_ok (st_rows (sv_store s)) (minted s) \<and> list_all (task_ok (st_rows (sv_store s)) (minted s)) (sv_tasks s)"

lemma read_known: "rows_ok rows mt \<Longrightarrow> tok \<in> set (tokens_where P rows) \<Longrightarrow> known mt tok"
proof -
  assume ok: "rows_ok rows mt" and tok: "tok \<in> set (tokens_where P rows)"
  obtain r where r: "r \<in> set rows" "tk_ID tok = tr_ID r" "tk_Name tok = tr_Name r" "tk_ManagedBy tok = tr_ManagedBy r"
      "tk_Scopes tok = Split (CHR '','') (tr_Scopes r)" "tk_CreatedBy tok = tr_CreatedBy r" "tk_CreatedAt tok = tr_CreatedAt r"
      "tk_hash tok = tr_Hash r"
    using tok collapse_cases(1) unfolding tokens_where_ID by fastforce
  obtain p t where t: "(p, t) \<in> set mt" "row_grants t r" "minted_ok p t" using ok r(1) by (fastforce simp: rows_ok_def)
  then have "Split (CHR '','') (tr_Scopes r) = tk_Scopes t"
    using Split_Join [OF _ valid_no_comma, of "tk_Scopes t"] by (simp add: row_grants_def minted_ok_def)
  then show ?thesis using r t by (auto simp: known_def grants_def row_grants_def)
qed

lemma known_update [simp]: "known mt (tok\<lparr>LastUsedAt := u\<rparr>) = known mt tok" "known mt (tok\<lparr>RevokedAt := u\<rparr>) = known mt tok"
  by (simp_all add: known_def)

lemma rows_ok_add: "rows_ok rows mt \<Longrightarrow> known mt tok \<Longrightarrow> rows_ok (rows @ [row_of tok v]) mt"
  using row_of_grants by (fastforce simp: rows_ok_def known_def)

lemma task_ok_mono: "task_ok rows mt x \<Longrightarrow> set rows \<subseteq> set rows' \<Longrightarrow> set mt \<subseteq> set mt' \<Longrightarrow> task_ok rows' mt' x"
  by (cases x) (auto simp: known_def)

lemma write_rows: "write_token t prior now st = (e, st') \<Longrightarrow>
    st_rows st' = st_rows st @ [row_of t (nextUpdatedAt prior now)] \<or> st_rows st' = st_rows st \<and> e \<noteq> None"
  by (auto simp: write_token_def next_answer_def split: prod.splits list.splits if_splits dest!: insert_row_cases)

lemma read_rows: "read_tokens P st = (x, st') \<Longrightarrow> st_rows st' = st_rows st \<and> (\<forall>ts. x = Inr ts \<longrightarrow> ts = tokens_where P (st_rows st))"
  by (auto simp: read_tokens_def next_answer_def split: prod.splits list.splits if_splits)

lemma match_in: "match_token ts p = Some t \<Longrightarrow> t \<in> set ts \<and> tk_hash t = hashToken p \<and> \<not> Revoked t"
  by (induction ts p rule: match_token.induct) (auto split: if_splits)

lemma verify_read_facts:
  assumes "verify_read p st = (x, st')"
  shows "st_rows st' = st_rows st"
    "x = Inr tok \<Longrightarrow> tok \<in> set (tokens_where (\<lambda>r. tr_Hash r = hashToken p) (st_rows st)) \<and> tk_hash tok = hashToken p \<and> \<not> Revoked tok"
proof -
  obtain y st1 where r: "read_tokens (\<lambda>r. tr_Hash r = hashToken p) st = (y, st1)" by fastforce
  note read = read_rows [OF r]
  show "st_rows st' = st_rows st" using assms r read by (auto simp: verify_read_def split: if_splits sum.splits option.splits)
  show "x = Inr tok \<Longrightarrow> tok \<in> set (tokens_where (\<lambda>r. tr_Hash r = hashToken p) (st_rows st)) \<and> tk_hash tok = hashToken p \<and> \<not> Revoked tok"
    using assms r read match_in by (fastforce simp: verify_read_def split: if_splits sum.splits option.splits)
qed

lemma note_due_rows: "note_due tok st = (b, st') \<Longrightarrow> st_rows st' = st_rows st"
  by (auto simp: note_due_def Let_def split: if_splits)

text \<open>A prune keeps the row it rests on, and that row serves every other prune.\<close>

lemma prune_ok:
  assumes rows: "rows_ok rows mt" and r: "r \<in> set rows" "tr_ID r = k" "v \<le> tr_UpdatedAt r"
  defines "rows' \<equiv> filter (\<lambda>r. \<not> prunable k v r) rows"
  shows "rows_ok rows' mt" "task_ok rows mt x \<Longrightarrow> task_ok rows' mt x"
proof -
  have kept: "r \<in> set rows'" using r by (simp add: rows'_def prunable_def)
  have "\<exists>q \<in> set rows'. tr_ID q = tr_ID r0" if "r0 \<in> set rows" for r0
    using that kept r(2) by (cases "prunable k v r0") (auto simp: rows'_def prunable_def)
  then show "rows_ok rows' mt" using rows by (fastforce simp: rows_ok_def rows'_def)
  show "task_ok rows mt x \<Longrightarrow> task_ok rows' mt x"
  proof (cases x)
    case (Pruning k' v')
    assume "task_ok rows mt x"
    then obtain q where q: "q \<in> set rows" "tr_ID q = k'" "v' \<le> tr_UpdatedAt q" using Pruning by auto
    then show ?thesis using kept r Pruning by (cases "prunable k v q") (auto simp: rows'_def prunable_def)
  qed auto
qed

lemma mint_ok:
  assumes "mint name managedBy createdBy scopes secret ident now = Inr (p, t)" "length secret = 32"
  shows "minted_ok p t"
proof -
  obtain n m out where "NormalizeScopes scopes = Inr out" "tk_Scopes t = out" "p = Prefix @ RawURLEncode secret"
      "tk_hash t = hashToken p" "tk_CreatedBy t = TrimSpace createdBy" "TrimSpace createdBy \<noteq> []"
    using assms(1) by (auto simp: mint_def Let_def split: sum.splits if_splits)
  then show ?thesis using NormalizeScopes_facts [of scopes out] minted_format [OF assms(2)] by (simp add: minted_ok_def)
qed

text \<open>Writing a row for a known token keeps the invariant, whatever the answer.\<close>

lemma write_inv:
  assumes "rows_ok (st_rows st) mt" "known mt tok" "write_token tok prior now st = (e, st')"
  shows "rows_ok (st_rows st') mt" "task_ok (st_rows st) mt x \<Longrightarrow> task_ok (st_rows st') mt x"
proof -
  have rows: "set (st_rows st) \<subseteq> set (st_rows st')" using write_rows [OF assms(3)] by auto
  show "rows_ok (st_rows st') mt" using write_rows [OF assms(3)] rows_ok_add [OF assms(1,2)] assms(1) by auto
  show "task_ok (st_rows st) mt x \<Longrightarrow> task_ok (st_rows st') mt x" using task_ok_mono rows by blast
qed

lemma mint_clean: "mint name managedBy createdBy scopes secret ident now = Inr (p, t) \<Longrightarrow> RevokedAt t = 0"
  by (auto simp: mint_def Let_def split: sum.splits if_splits)

lemma svc_step_inv: "svc_step s s' \<Longrightarrow> svc_inv s \<Longrightarrow> svc_inv s'"
proof (induction rule: svc_step.induct)
  case (create name managedBy createdBy scopes secret ident s x st' p t)
  obtain e where w: "write_token t 0 (st_now (sv_store s)) (sv_store s) = (e, st')"
    using create(1,2) by (auto simp: CreateToken_def split: prod.splits option.splits)
  let ?rows = "st_rows (sv_store s)"
  consider "st_rows st' = ?rows" | "st_rows st' = ?rows @ [row_of t (nextUpdatedAt 0 (st_now (sv_store s)))]"
    using write_rows [OF w] by blast
  then show ?case
  proof cases
    case 2
    have "row_grants t (row_of t v)" for v by (rule row_of_grants) simp
    then have "rows_ok (st_rows st') (minted s @ [(p, t)])"
      using create.prems 2 mint_ok [OF create(2,3)] create(4)
      by (fastforce simp: svc_inv_def rows_ok_def row_of_def)
    moreover have "list_all (task_ok (st_rows st') (minted s @ [(p, t)])) (sv_tasks s)"
      using create.prems 2 by (auto simp: svc_inv_def list_all_iff intro: task_ok_mono)
    ultimately show ?thesis using 2 by (simp add: svc_inv_def)
  qed (use create.prems in \<open>simp add: svc_inv_def\<close>)
next
  case (verify p s tok st')
  then have "known (minted s) tok" using verify_read_facts(2) [OF verify(1)] read_known by (auto simp: svc_inv_def)
  then show ?case using verify verify_read_facts(1) [OF verify(1)] by (simp add: svc_inv_def)
next
  case (due s xs tok ys st')
  then show ?case using note_due_rows [OF due(2)] by (simp add: svc_inv_def)
next
  case (used s xs tok now ys e st')
  have k: "rows_ok (st_rows (sv_store s)) (minted s)" "known (minted s) (tok\<lparr>LastUsedAt := now\<rparr>)"
    using used by (simp_all add: svc_inv_def)
  note w = used(2) [unfolded note_write_def]
  have "e = None \<Longrightarrow> \<exists>r \<in> set (st_rows st'). tr_ID r = tk_ID tok \<and> nextUpdatedAt (tk_updatedAt tok) now \<le> tr_UpdatedAt r"
    using write_rows [OF w] by (auto simp: row_of_def)
  then show ?case using used.prems used(1) write_inv [OF k w] by (auto simp: svc_inv_def list_all_iff)
next
  case (prune s xs k v ys)
  obtain r where r: "r \<in> set (st_rows (sv_store s))" "tr_ID r = k" "v \<le> tr_UpdatedAt r"
    using prune by (auto simp: svc_inv_def)
  have "rows_ok (st_rows (sv_store s)) (minted s)" using prune by (simp add: svc_inv_def)
  from prune_ok [OF this r] prune show ?case
    by (auto simp: svc_inv_def list_all_iff note_prune_def next_answer_def split: list.split)
next
  case (revoke_read k s t ts st')
  then have "t \<in> set (tokens_where (\<lambda>r. tr_ID r = k) (st_rows (sv_store s)))"
    using read_rows [OF revoke_read(1)] by (metis list.set_intros(1))
  then have "known (minted s) t" using read_known revoke_read.prems by (auto simp: svc_inv_def)
  then show ?case using revoke_read read_rows [OF revoke_read(1)] by (simp add: svc_inv_def)
next
  case (revoke_write s xs t now ys e st')
  then have k: "rows_ok (st_rows (sv_store s)) (minted s)" "known (minted s) (t\<lparr>RevokedAt := now\<rparr>)" by (simp_all add: svc_inv_def)
  then show ?case using revoke_write write_inv [OF k revoke_write(2)] by (auto simp: svc_inv_def list_all_iff)
qed (simp add: svc_inv_def)

lemma svc_steps_inv: "svc_step\<^sup>*\<^sup>* s s' \<Longrightarrow> svc_inv s \<Longrightarrow> svc_inv s'"
  by (induction rule: rtranclp_induct) (auto intro: svc_step_inv)

lemma svc_reach_inv: "svc_reach s \<Longrightarrow> svc_inv s"
proof -
  have "svc_inv (svc_start io now)" for io now by (simp add: svc_inv_def rows_ok_def svc_start_def NewStore_def)
  then show "svc_reach s \<Longrightarrow> svc_inv s" unfolding svc_reach_def using svc_steps_inv by blast
qed

section \<open>What callers may rely on\<close>

lemma verify_token_reads: "VerifyToken p st = (Inr tok, st') \<Longrightarrow>
    \<exists>tok0. fst (verify_read p st) = Inr tok0 \<and> tok0\<lparr>LastUsedAt := LastUsedAt tok\<rparr> = tok"
  by (auto simp: VerifyToken_def noteUsed_def split: prod.splits sum.splits bool.splits option.splits)

lemma known_one: "rows_ok rows mt \<Longrightarrow> known mt tok \<Longrightarrow> r \<in> set rows \<Longrightarrow> tr_ID r = tk_ID tok \<Longrightarrow> tr_Hash r = tk_hash tok"
proof -
  assume ok: "rows_ok rows mt" "known mt tok" and r: "r \<in> set rows" "tr_ID r = tk_ID tok"
  obtain p t where t: "(p, t) \<in> set mt" "grants t tok" using ok(2) by (auto simp: known_def)
  obtain p' t' where t': "(p', t') \<in> set mt" "row_grants t' r" using ok(1) r(1) by (fastforce simp: rows_ok_def)
  have "tk_ID t' = tk_ID t" using t(2) t'(2) r(2) by (simp add: grants_def row_grants_def)
  then have "(p', t') = (p, t)" using ok(1) t(1) t'(1) by (force simp: rows_ok_def distinct_map inj_on_def)
  then show ?thesis using t t' by (simp add: grants_def row_grants_def)
qed

lemma verify_core:
  assumes "svc_inv s" "VerifyToken p (sv_store s) = (Inr tok, st')"
  shows "ValidFormat p \<and> (\<exists>(p0, t) \<in> set (minted s). hashToken p0 = hashToken p \<and> grants t tok)
    \<and> tk_Scopes tok \<noteq> [] \<and> set (tk_Scopes tok) \<subseteq> set validScopes \<and> tk_CreatedBy tok \<noteq> []
    \<and> (\<forall>r \<in> set (st_rows (sv_store s)). tr_ID r = tk_ID tok \<longrightarrow> tr_RevokedAt r \<le> 0)"
proof -
  let ?rows = "st_rows (sv_store s)"
  obtain tok0 st1 where v: "verify_read p (sv_store s) = (Inr tok0, st1)" "tok0\<lparr>LastUsedAt := LastUsedAt tok\<rparr> = tok"
    using verify_token_reads [OF assms(2)] by (metis prod.collapse)
  have format: "ValidFormat p" using v(1) by (auto simp: verify_read_def split: if_splits)
  have ok: "rows_ok ?rows (minted s)" using assms(1) by (simp add: svc_inv_def)
  note read = verify_read_facts(2) [OF v(1) refl]
  have known: "known (minted s) tok0" using read_known [OF ok] read by blast
  then obtain p0 t where t: "(p0, t) \<in> set (minted s)" "grants t tok0" by (auto simp: known_def)
  then have minted: "minted_ok p0 t" using ok by (auto simp: rows_ok_def)
  have "tr_RevokedAt r \<le> 0" if "r \<in> set ?rows" "tr_ID r = tk_ID tok0" for r
  proof -
    have "tr_Hash r = hashToken p" using known_one [OF ok known that] read by simp
    then show ?thesis using read that collapse_cases(2) [of tok0] by (force simp: tokens_where_ID)
  qed
  moreover have "grants t tok" using t(2) v(2) grants_update(1) [where t = t and tok = tok0 and u = "LastUsedAt tok"] by simp
  ultimately show ?thesis
    using format t minted read v(2) by (auto simp: grants_def minted_ok_def intro!: bexI [OF _ t(1)])
qed

text \<open>C35: A verified token is one that an administrator minted: the presented text has its hash, its identity,
  namespace and scopes are exactly those of its creation, within the closed set of scopes and with a
  named creator, and no stored row of it is revoked; in every interleaving of creations, verifications
  with their writes and prunes, and revocations, whichever calls fail.\<close>

theorem verified_token_was_minted:
  assumes "svc_reach s" "VerifyToken p (sv_store s) = (Inr tok, st')"
  shows "ValidFormat p \<and> (\<exists>(p0, t) \<in> set (minted s). hashToken p0 = hashToken p \<and> grants t tok)
    \<and> tk_Scopes tok \<noteq> [] \<and> set (tk_Scopes tok) \<subseteq> set validScopes \<and> tk_CreatedBy tok \<noteq> []
    \<and> (\<forall>r \<in> set (st_rows (sv_store s)). tr_ID r = tk_ID tok \<longrightarrow> tr_RevokedAt r \<le> 0)"
  by (rule verify_core [OF svc_reach_inv [OF assms(1)] assms(2)])

text \<open>Rows that record a revocation stay for ever.\<close>

definition revoked_row :: "string \<Rightarrow> svc_run \<Rightarrow> bool" where
  "revoked_row k s \<longleftrightarrow> (\<exists>r \<in> set (st_rows (sv_store s)). tr_ID r = k \<and> 0 < tr_RevokedAt r)"

lemma revoked_step: "svc_step s s' \<Longrightarrow> revoked_row k s \<Longrightarrow> revoked_row k s'"
proof (induction rule: svc_step.induct)
  case (create name managedBy createdBy scopes secret ident s x st' p t)
  obtain e where "write_token t 0 (st_now (sv_store s)) (sv_store s) = (e, st')"
    using create(1,2) by (auto simp: CreateToken_def split: prod.splits option.splits)
  from write_rows [OF this] show ?case using create.prems by (auto simp: revoked_row_def)
next
  case (used s xs tok now ys e st')
  from write_rows [OF used(2) [unfolded note_write_def]] show ?case using used.prems by (auto simp: revoked_row_def)
next
  case (prune s xs k' v ys)
  then show ?case
    by (fastforce simp: revoked_row_def note_prune_def next_answer_def prunable_def split: list.split)
next
  case (revoke_write s xs t now ys e st')
  from write_rows [OF revoke_write(2)] show ?case using revoke_write.prems by (auto simp: revoked_row_def)
next
  case (verify p s tok st')
  then show ?case using verify_read_facts(1) [OF verify(1)] by (simp add: revoked_row_def)
next
  case (due s xs tok ys st')
  then show ?case using note_due_rows [OF due(2)] by (simp add: revoked_row_def)
next
  case (revoke_read k' s t ts st')
  then show ?case using read_rows [OF revoke_read(1)] by (simp add: revoked_row_def)
qed (simp add: revoked_row_def)

lemma revoked_steps: "svc_step\<^sup>*\<^sup>* s s' \<Longrightarrow> revoked_row k s \<Longrightarrow> revoked_row k s'"
  by (induction rule: rtranclp_induct) (auto intro: revoked_step)

lemma reads_same: "read_tokens P st = (x, st') \<Longrightarrow> \<exists>io. st' = st\<lparr>st_io := io, st_now := st_now st\<rparr>"
  by (cases st) (auto simp: read_tokens_def next_answer_def split: list.splits)

lemma confirmed_row:
  assumes "read_tokens (\<lambda>r. tr_ID r = k) st = (Inr (t # ts), st1)" "Revoked t"
  shows "\<exists>r \<in> set (st_rows st). tr_ID r = k \<and> 0 < tr_RevokedAt r"
proof -
  have "t \<in> set (tokens_where (\<lambda>r. tr_ID r = k) (st_rows st))" using read_rows [OF assms(1)] by (metis list.set_intros(1))
  then show ?thesis using collapse_cases(2) assms(2) by (fastforce simp: tokens_where_ID)
qed

lemma read_steps: "read_tokens P (sv_store s) = (x, st2) \<Longrightarrow> svc_step\<^sup>*\<^sup>* s (s\<lparr>sv_store := st2\<rparr>)"
  using reads_same [of P "sv_store s" x st2] svc_step.outside [of s] by (metis r_into_rtranclp)

text \<open>A whole \<^verbatim>\<open>Revoke\<close> is a run of steps, and when it reports success the revocation is stored.\<close>

lemma revoke_steps:
  assumes "Revoke k (sv_store s) = (None, st')"
  shows "svc_step\<^sup>*\<^sup>* s (s\<lparr>sv_store := st'\<rparr>)" "revoked_row k (s\<lparr>sv_store := st'\<rparr>)"
proof -
  obtain x st1 where r1: "read_tokens (\<lambda>r. tr_ID r = k) (sv_store s) = (x, st1)" by fastforce
  obtain t ts where x: "x = Inr (t # ts)" using assms r1 by (auto simp: Revoke_def split: sum.splits list.splits)
  have "svc_step\<^sup>*\<^sup>* s (s\<lparr>sv_store := st'\<rparr>) \<and> revoked_row k (s\<lparr>sv_store := st'\<rparr>)"
  proof (cases "Revoked t")
    case True
    then have "st' = st1" using assms by (simp add: Revoke_def r1 x)
    then show ?thesis using read_steps [OF r1] confirmed_row [OF r1 [unfolded x] True] read_rows [OF r1] by (simp add: revoked_row_def)
  next
    case False
    obtain e st2 where w: "write_token (t\<lparr>RevokedAt := st_now st1\<rparr>) (tk_updatedAt t) (st_now st1) st1 = (e, st2)" by fastforce
    obtain y st3 where r2: "read_tokens (\<lambda>r. tr_ID r = k) st2 = (y, st3)" by fastforce
    obtain t' ts' where y: "y = Inr (t' # ts')" "Revoked t'" "st' = st3"
      using assms False by (auto simp: Revoke_def r1 x w r2 split: option.splits sum.splits list.splits if_splits)
    let ?s1 = "s\<lparr>sv_store := st1, sv_tasks := sv_tasks s @ [Revoking t (st_now st1)]\<rparr>"
    let ?s2 = "s\<lparr>sv_store := st2\<rparr>"
    have "svc_step s ?s1" using svc_step.revoke_read [OF r1 [unfolded x] False] .
    moreover have "svc_step ?s1 ?s2"
      using svc_step.revoke_write [of ?s1 "sv_tasks s" t "st_now st1" "[]" e st2] w by simp
    moreover have "svc_step\<^sup>*\<^sup>* ?s2 (s\<lparr>sv_store := st'\<rparr>)" using read_steps [of _ ?s2 y st3] r2 y(3) by simp
    ultimately have "svc_step\<^sup>*\<^sup>* s (s\<lparr>sv_store := st'\<rparr>)" by (meson converse_rtranclp_into_rtranclp)
    then show ?thesis using confirmed_row [OF r2 [unfolded y(1)] y(2)] read_rows [OF r2] y(3) by (simp add: revoked_row_def)
  qed
  then show "svc_step\<^sup>*\<^sup>* s (s\<lparr>sv_store := st'\<rparr>)" "revoked_row k (s\<lparr>sv_store := st'\<rparr>)" by blast+
qed

text \<open>C34: A confirmed revocation is final.  Once Revoke has reported success, or a read of the store has shown the
  revocation (the read on which Revoke reports it when other requests came between its calls), no later
  verification of any text returns that token, whatever verifications were already in flight with an
  older copy of it, and whatever is written, pruned, created or fails afterwards.\<close>

theorem revocation_final:
  assumes "svc_reach s"
    and "Revoke k (sv_store s) = (None, st1)
      \<or> (\<exists>t ts. read_tokens (\<lambda>r. tr_ID r = k) (sv_store s) = (Inr (t # ts), st1) \<and> Revoked t)"
    and "svc_step\<^sup>*\<^sup>* (s\<lparr>sv_store := st1\<rparr>) s'"
  shows "case fst (VerifyToken p (sv_store s')) of Inl _ \<Rightarrow> True | Inr tok \<Rightarrow> tk_ID tok \<noteq> k"
proof -
  have "svc_step\<^sup>*\<^sup>* s (s\<lparr>sv_store := st1\<rparr>) \<and> revoked_row k (s\<lparr>sv_store := st1\<rparr>)"
    using assms(2) revoke_steps [of k s st1] read_steps [of _ s] confirmed_row [of k "sv_store s"] read_rows
    by (fastforce simp: revoked_row_def)
  then have "svc_inv s'" "revoked_row k s'"
    using svc_steps_inv [OF _ svc_reach_inv [OF assms(1)]] svc_steps_inv [OF assms(3)] revoked_steps [OF assms(3)] by blast+
  then have "tk_ID tok \<noteq> k" if "VerifyToken p (sv_store s') = (Inr tok, st')" for tok st'
    using verify_core [OF _ that] by (force simp: revoked_row_def)
  then show ?thesis by (cases "VerifyToken p (sv_store s')") (auto split: sum.split)
qed

lemma match_first: "ts \<noteq> [] \<Longrightarrow> \<forall>t \<in> set ts. tk_hash t = hashToken p \<and> \<not> Revoked t \<Longrightarrow> match_token ts p = Some (hd ts)"
  by (cases ts) auto

lemma noteUsed_grants: "noteUsed tok st = (tok', st') \<Longrightarrow> grants t tok' = grants t tok"
  by (auto simp: noteUsed_def split: prod.splits bool.splits option.splits)


section \<open>The properties on a short run\<close>

definition demo_secret :: bytes where "demo_secret = replicate 32 (CHR ''s'')"

definition demo_text :: string where "demo_text = Prefix @ RawURLEncode demo_secret"

definition demo_token :: Token where
  "demo_token = \<lparr>tk_ID = ''6964'', tk_Name = ''bot'', tk_ManagedBy = ''bot'', tk_Scopes = [''alerts:read'', ''keys:mint''],
     tk_CreatedBy = ''ann'', tk_CreatedAt = 5, LastUsedAt = 0, RevokedAt = 0, tk_hash = hashToken demo_text, tk_updatedAt = 0\<rparr>"

definition demo_store :: Store where
  "demo_store = (NewStore [] 5)\<lparr>st_rows := [row_of demo_token 5]\<rparr>"

definition demo_run :: svc_run where
  "demo_run = \<lparr>sv_store = demo_store, sv_tasks = [], minted = [(demo_text, demo_token)]\<rparr>"

lemma demo_length: "length demo_secret = 32"
  by (simp only: demo_secret_def length_replicate)

lemma demo_parts:
  "cleanLabel ''bot'' = Inr ''bot''" "TrimSpace [] = []" "TrimSpace ''ann'' = ''ann''"
  "NormalizeScopes [''keys:mint'', ''alerts:read''] = Inr [''alerts:read'', ''keys:mint'']"
  "EncodeToString (map of_char ''id'') = ''6964''"
  by code_simp+

lemma demo_mint: "mint ''bot'' [] ''ann'' [''keys:mint'', ''alerts:read''] demo_secret ''id'' 5 = Inr (demo_text, demo_token)"
  unfolding mint_def demo_parts demo_text_def [symmetric] by (simp add: demo_token_def demo_parts Let_def flip: demo_text_def)

lemma demo_create: "CreateToken ''bot'' [] ''ann'' [''keys:mint'', ''alerts:read''] (Some (demo_secret, ''id'')) (NewStore [] 5)
    = (Inr (demo_text, demo_token), demo_store)"
  by (simp add: CreateToken_def demo_mint NewStore_def write_token_def next_answer_def nextUpdatedAt_def demo_store_def)

lemma demo_run_reached: "svc_reach demo_run"
proof -
  let ?s = "svc_start [] 5"
  have start: "sv_store ?s = NewStore [] 5" "minted ?s = []" "st_now (NewStore [] 5) = 5" by (simp_all add: svc_start_def NewStore_def)
  have "svc_step ?s (?s\<lparr>sv_store := demo_store, minted := minted ?s @
      (if st_rows demo_store = st_rows (sv_store ?s) then [] else [(demo_text, demo_token)])\<rparr>)"
    using demo_create demo_mint demo_length by (intro svc_step.create) (simp_all add: start)
  then have "svc_step ?s demo_run" by (simp add: svc_start_def demo_run_def demo_store_def NewStore_def)
  then show ?thesis unfolding svc_reach_def by blast
qed

lemma demo_format: "ValidFormat demo_text"
  unfolding demo_text_def by (rule minted_format [OF demo_length])

lemma demo_split: "Split (CHR '','') (Join [''alerts:read'', ''keys:mint'']) = [''alerts:read'', ''keys:mint'']"
  by code_simp

lemma demo_verified: "VerifyToken demo_text demo_store = (Inr (demo_token\<lparr>tk_updatedAt := 5\<rparr>), demo_store)"
  using demo_split demo_format
  by (simp add: VerifyToken_def verify_read_def read_tokens_def next_answer_def demo_store_def NewStore_def tokens_where_def
      collapse_rows_def row_of_def demo_token_def Revoked_def noteUsed_def note_due_def Let_def)

theorem verified_token_was_minted_witness:
  "VerifyToken demo_text (sv_store demo_run) = (Inr (demo_token\<lparr>tk_updatedAt := 5\<rparr>), demo_store)
    \<and> set [''alerts:read'', ''keys:mint''] \<subseteq> set validScopes
    \<and> (\<exists>(p0, t) \<in> set (minted demo_run). hashToken p0 = hashToken demo_text)"
proof -
  have run: "VerifyToken demo_text (sv_store demo_run) = (Inr (demo_token\<lparr>tk_updatedAt := 5\<rparr>), demo_store)"
    by (simp add: demo_run_def demo_verified)
  show ?thesis using verified_token_was_minted [OF demo_run_reached run] run by (auto simp: demo_token_def)
qed


theorem revocation_final_witness:
  "\<exists>st1. Revoke ''6964'' demo_store = (None, st1)
    \<and> (case fst (VerifyToken demo_text st1) of Inl _ \<Rightarrow> True | Inr tok \<Rightarrow> tk_ID tok \<noteq> ''6964'')"
proof -
  obtain st1 where run: "Revoke ''6964'' demo_store = (None, st1)"
    using demo_split
    by (simp add: Revoke_def read_tokens_def next_answer_def demo_store_def NewStore_def tokens_where_def collapse_rows_def
        row_of_def demo_token_def Revoked_def write_token_def nextUpdatedAt_def)
  have store: "sv_store demo_run = demo_store" by (simp add: demo_run_def)
  have "case fst (VerifyToken demo_text (sv_store (demo_run\<lparr>sv_store := st1\<rparr>))) of Inl _ \<Rightarrow> True | Inr tok \<Rightarrow> tk_ID tok \<noteq> ''6964''"
    by (rule revocation_final [OF demo_run_reached _ rtranclp.rtrancl_refl]) (use run store in simp)
  then show ?thesis using run by simp
qed

end
